(* ===== verification/Zlim_Prelude.thy ===== *)
theory Zlim_Prelude
  imports Main "HOL-Library.Word"
begin

text \<open>
  Vocabulary shared by every theory of the development: the widths of the machine integers the
  Rust sources use, the outcome of a fallible operation (a value, an error value, a panic), the
  fact collections the component theories add to, and generic lemmas on lists and words.
\<close>

unbundle bit_operations_syntax

type_synonym u32 = "32 word"
type_synonym u64 = "64 word"

text \<open>
  \<open>Ok\<close> and \<open>Err\<close> are the two variants of Rust's \<^verbatim>\<open>Result\<close>; \<open>Panic\<close> is a call that unwinds
  (\<^verbatim>\<open>panic!\<close>, \<^verbatim>\<open>assert!\<close>, \<^verbatim>\<open>expect\<close>).
\<close>

datatype ('e, 'a) outcome = Ok 'a | Err 'e | Panic

text \<open>The result of \<^verbatim>\<open>Ord::cmp\<close>.\<close>

datatype ordering = Less | Equal | Greater

text \<open>Sequencing of state-passing fallible operations, as the \<^verbatim>\<open>?\<close> operator and unwinding do.\<close>

fun then_do ::
  "('e, 'a) outcome \<times> 's \<Rightarrow> ('a \<Rightarrow> 's \<Rightarrow> ('e, 'b) outcome \<times> 's) \<Rightarrow> ('e, 'b) outcome \<times> 's" where
  "then_do (Ok a, s) f = f a s"
| "then_do (Err e, s) f = (Err e, s)"
| "then_do (Panic, s) f = (Panic, s)"

lemma then_do_Ok_iff:
  "then_do r f = (Ok b, s') \<longleftrightarrow> (\<exists>a s. r = (Ok a, s) \<and> f a s = (Ok b, s'))"
  by (cases r; cases "fst r") auto

text \<open>
  Sequencing of state-passing operations that may also have no defined result (\<open>None\<close>): undefined
  behaviour of the \<^verbatim>\<open>unsafe\<close> code, an abort, or a loop that ran out of fuel.
\<close>

fun run_then ::
  "(('e, 'a) outcome \<times> 's) option \<Rightarrow> ('a \<Rightarrow> 's \<Rightarrow> (('e, 'b) outcome \<times> 's) option)
     \<Rightarrow> (('e, 'b) outcome \<times> 's) option" where
  "run_then None f = None"
| "run_then (Some (Ok a, s)) f = f a s"
| "run_then (Some (Err e, s)) f = Some (Err e, s)"
| "run_then (Some (Panic, s)) f = Some (Panic, s)"

text \<open>Unsigned operations of the Rust standard library at a fixed width.\<close>

definition checked_add :: "'l::len word \<Rightarrow> 'l word \<Rightarrow> 'l word option" where
  "checked_add a b = (if unat a + unat b < 2 ^ LENGTH('l) then Some (a + b) else None)"

definition checked_sub :: "'l::len word \<Rightarrow> 'l word \<Rightarrow> 'l word option" where
  "checked_sub a b = (if b \<le> a then Some (a - b) else None)"

definition saturating_sub :: "'l::len word \<Rightarrow> 'l word \<Rightarrow> 'l word" where
  "saturating_sub a b = (if b \<le> a then a - b else 0)"

named_theorems id_simps \<open>reading the halves of an entity id\<close>
named_theorems alloc_simps \<open>the bit fields and buffers of the entity allocator\<close>
named_theorems tick_simps \<open>ages of ticks as natural numbers\<close>
named_theorems access_simps \<open>access summaries read as sets\<close>
named_theorems tree_simps \<open>single-slot updates of the entity tree\<close>

section \<open>Words\<close>

lemma checked_add_Some_iff:
  "checked_add a b = Some c \<longleftrightarrow> unat a + unat b < 2 ^ LENGTH('l) \<and> c = a + b"
  for a b c :: "'l::len word"
  by (auto simp: checked_add_def)

lemma checked_add_unat:
  "checked_add a b = Some c \<Longrightarrow> unat c = unat a + unat b"
  for a b c :: "'l::len word"
  by (auto simp: checked_add_Some_iff unat_word_ariths)

lemma checked_sub_unat:
  "checked_sub a b = Some c \<Longrightarrow> unat b \<le> unat a \<and> unat c = unat a - unat b"
  for a b c :: "'l::len word"
  by (auto simp: checked_sub_def word_le_nat_alt unat_sub split: if_splits)

lemma checked_sub_None_iff:
  "checked_sub a b = None \<longleftrightarrow> unat a < unat b"
  for a b :: "'l::len word"
  by (auto simp: checked_sub_def word_le_nat_alt not_le split: if_splits)

lemma saturating_sub_unat: "unat (saturating_sub a b) = unat a - unat b"
  for a b :: "'l::len word"
  by (auto simp: saturating_sub_def word_le_nat_alt unat_sub)

lemma unat_of_nat_small: "n < 2 ^ LENGTH('l) \<Longrightarrow> unat (of_nat n :: 'l::len word) = n"
  by (simp add: unsigned_of_nat take_bit_nat_eq_self)

lemma of_nat_unat_id: "of_nat (unat w) = (w :: 'l::len word)"
  by simp

lemma unat_less_power: "unat (w :: 'l::len word) < 2 ^ LENGTH('l)"
  using unsigned_less [of w, where 'a = nat] by simp

lemma bit_unat_iff: "bit (w :: 'l::len word) n \<longleftrightarrow> bit (unat w) n"
  by (auto simp: bit_simps dest: bit_imp_le_length)

lemma bit_top: "2 ^ m \<le> unat w \<Longrightarrow> unat w < 2 ^ Suc m \<Longrightarrow> bit w m"
  for w :: "'l::len word"
proof -
  assume "2 ^ m \<le> unat w" "unat w < 2 ^ Suc m"
  then have "unat w div 2 ^ m = 1"
    by (intro div_nat_eqI) auto
  then show ?thesis
    by (simp add: bit_unat_iff bit_iff_odd)
qed

lemma bit_above_top: "unat w < 2 ^ m \<Longrightarrow> m \<le> n \<Longrightarrow> \<not> bit w n"
  for w :: "'l::len word"
  by (metis bit_iff_odd bit_unat_iff div_less even_zero order_less_le_trans
      power_increasing one_le_numeral)

section \<open>Lists\<close>

lemma length_takeWhile_le: "length (takeWhile P xs) \<le> length xs"
  by (induction xs) auto

lemma those_map_ex:
  "\<forall>x\<in>set xs. \<exists>y. f x = Some y \<and> P x y \<Longrightarrow> \<exists>ys. those (map f xs) = Some ys \<and> list_all2 P xs ys"
proof (induction xs)
  case (Cons x xs)
  then obtain y ys where "f x = Some y" "P x y" "those (map f xs) = Some ys" "list_all2 P xs ys"
    by auto
  then show ?case by auto
qed simp

lemma list_all2_right:
  "list_all2 (\<lambda>x y. Q y \<and> R x y) xs ys \<Longrightarrow> (\<forall>y\<in>set ys. Q y) \<and> list_all2 R xs ys \<and> length ys = length xs"
  by (induction rule: list_all2_induct) auto

text \<open>\<^verbatim>\<open>Vec::swap_remove\<close>: the last element takes the place of the removed one.\<close>

definition swap_remove :: "nat \<Rightarrow> 'a list \<Rightarrow> 'a list" where
  "swap_remove i xs = butlast (xs[i := last xs])"

lemma length_swap_remove [simp]: "length (swap_remove i xs) = length xs - 1"
  by (simp add: swap_remove_def)

lemma nth_swap_remove:
  assumes "i < length xs" "j < length xs - 1"
  shows "swap_remove i xs ! j = (if j = i then xs ! (length xs - 1) else xs ! j)"
proof -
  have "xs \<noteq> []"
    using assms by auto
  then show ?thesis
    using assms by (simp add: swap_remove_def nth_butlast nth_list_update last_conv_nth)
qed

lemma swap_remove_last: "xs \<noteq> [] \<Longrightarrow> swap_remove (length xs - 1) xs = butlast xs"
  by (rule nth_equalityI) (auto simp: nth_swap_remove nth_butlast)

text \<open>Recursive calls through a \<^verbatim>\<open>map2\<close> decrease the first list.\<close>

lemma size_zip_left [termination_simp]: "(a, b) \<in> set (zip xs ys) \<Longrightarrow> f a < Suc (size_list f xs)"
  by (drule set_zip_leftD) (simp add: less_Suc_eq_le size_list_estimation')

end
