(* ===== verification/Entity_Id.thy ===== *)
theory Entity_Id
  imports Zlim_Prelude
begin

text \<open>
  Entity identifiers (\<^verbatim>\<open>zlim-core/src/entity/id.rs\<close>). An id is one \<^verbatim>\<open>u64\<close>: the slot index in the
  low half, the generation in the high half. The Rust type wraps a \<^verbatim>\<open>NonZeroU64\<close>; the model keeps
  the bit pattern and states the non-zero requirement as the predicate \<open>id_valid\<close>, so that code
  building an id through \<^verbatim>\<open>new_unchecked\<close> is translated as it is written and its obligation to
  stay non-zero is a statement to prove. The theory also holds the textual forms of an id
  (\<^verbatim>\<open>Display\<close>, \<^verbatim>\<open>Opaque::stringify\<close>, \<^verbatim>\<open>Opaque::apply_str\<close>), with the standard library's
  \<^verbatim>\<open>u64\<close> printing and parsing, and the order \<^verbatim>\<open>Ord\<close> puts on ids.
\<close>

section \<open>The packed representation\<close>

datatype entity_id = EntityId (bits: u64)

definition id_valid :: "entity_id \<Rightarrow> bool" where
  "id_valid e \<longleftrightarrow> bits e \<noteq> 0"

definition PLACEHOLDER :: entity_id where
  "PLACEHOLDER = EntityId 0xFFFFFFFFFFFFFFFF"

definition new_id :: "u32 \<Rightarrow> u32 \<Rightarrow> entity_id" where
  "new_id i g = (let x = (ucast g :: u64) in EntityId (ucast i OR push_bit 32 x))"

definition index :: "entity_id \<Rightarrow> u32" where
  "index e = ucast (bits e)"

definition generation :: "entity_id \<Rightarrow> u32" where
  "generation e = ucast (drop_bit 32 (bits e))"

definition next_generation :: "entity_id \<Rightarrow> entity_id" where
  "next_generation e =
     (let MASK = push_bit 32 1 :: u64;
          value = bits e + MASK
      in EntityId (if value < MASK then value + value else value))"

definition next_index :: "entity_id \<Rightarrow> entity_id" where
  "next_index e =
     (let i = ucast (index e + 1) :: u64;
          g = bits e AND NOT (0xFFFFFFFF :: u64)
      in EntityId (i OR g))"

definition to_bits :: "entity_id \<Rightarrow> u64" where
  "to_bits e = bits e"

definition from_bits :: "u64 \<Rightarrow> entity_id option" where
  "from_bits b = (if b = 0 then None else Some (EntityId b))"

section \<open>The order on ids\<close>

text \<open>\<^verbatim>\<open>Ord::cmp\<close> compares the bit patterns; it is the order the root set of the entity tree keeps.\<close>

definition cmp_id :: "entity_id \<Rightarrow> entity_id \<Rightarrow> ordering" where
  "cmp_id a b = (if to_bits a < to_bits b then Less else if to_bits a = to_bits b then Equal else Greater)"

instantiation entity_id :: linorder
begin

definition less_eq_entity_id :: "entity_id \<Rightarrow> entity_id \<Rightarrow> bool" where
  "less_eq_entity_id a b \<longleftrightarrow> cmp_id a b \<noteq> Greater"

definition less_entity_id :: "entity_id \<Rightarrow> entity_id \<Rightarrow> bool" where
  "less_entity_id a b \<longleftrightarrow> cmp_id a b = Less"

instance
  by standard
    (auto simp: less_eq_entity_id_def less_entity_id_def cmp_id_def to_bits_def intro: entity_id.expand split: if_splits)

end

section \<open>Textual forms\<close>

text \<open>Printing a natural number in decimal, as \<^verbatim>\<open>u64::to_string\<close> does.\<close>

definition digit_char :: "nat \<Rightarrow> char" where
  "digit_char d = char_of (48 + d)"

fun dec_string :: "nat \<Rightarrow> string" where
  "dec_string n =
     (if n < 10 then [digit_char n] else dec_string (n div 10) @ [digit_char (n mod 10)])"

declare dec_string.simps [simp del]

datatype parse_int_error = Empty | InvalidDigit | PosOverflow

definition to_digit :: "char \<Rightarrow> nat option" where
  "to_digit c =
     (let n = (of_char c :: nat) in if 48 \<le> n \<and> n \<le> 57 then Some (n - 48) else None)"

text \<open>
  The accumulation loop of \<^verbatim>\<open>u64::from_str_radix\<close> at radix ten: a character that is no digit is
  reported before an overflow of the product or of the sum.
\<close>

fun parse_digits :: "nat \<Rightarrow> string \<Rightarrow> parse_int_error + nat" where
  "parse_digits acc [] = Inr acc"
| "parse_digits acc (c # cs) =
     (case to_digit c of
        None \<Rightarrow> Inl InvalidDigit
      | Some d \<Rightarrow>
          if acc * 10 \<ge> 2 ^ 64 then Inl PosOverflow
          else if acc * 10 + d \<ge> 2 ^ 64 then Inl PosOverflow
          else parse_digits (acc * 10 + d) cs)"

definition parse_u64 :: "string \<Rightarrow> parse_int_error + u64" where
  "parse_u64 s =
     map_sum id of_nat
       (case s of
          [] \<Rightarrow> Inl Empty
        | [c] \<Rightarrow> if c = CHR ''+'' \<or> c = CHR ''-'' then Inl InvalidDigit else parse_digits 0 [c]
        | c # cs \<Rightarrow> if c = CHR ''+'' then parse_digits 0 cs else parse_digits 0 (c # cs))"

datatype id_error = CannotBeZero | ParseError parse_int_error

definition display_id :: "entity_id \<Rightarrow> string" where
  "display_id e =
     (if e = PLACEHOLDER then ''PLACEHOLDER''
      else dec_string (unat (index e)) @ ''v'' @ dec_string (unat (generation e)))"

definition stringify :: "entity_id \<Rightarrow> string" where
  "stringify e = dec_string (unat (to_bits e))"

text \<open>\<^verbatim>\<open>apply_str\<close> overwrites its receiver on success; the model returns the new value of the receiver.\<close>

definition apply_str :: "entity_id \<Rightarrow> string \<Rightarrow> (id_error, unit) outcome \<times> entity_id" where
  "apply_str self v =
     (case parse_u64 v of
        Inr b \<Rightarrow> (case from_bits b of
                    Some val \<Rightarrow> (Ok (), val)
                  | None \<Rightarrow> (Err CannotBeZero, self))
      | Inl e \<Rightarrow> (Err (ParseError e), self))"

definition serialize_id :: "entity_id \<Rightarrow> u64" where
  "serialize_id e = to_bits e"

definition deserialize_id :: "u64 \<Rightarrow> (id_error, entity_id) outcome" where
  "deserialize_id b = (case from_bits b of Some val \<Rightarrow> Ok val | None \<Rightarrow> Err CannotBeZero)"

section \<open>Reading and rebuilding the halves\<close>

lemma index_new_id [id_simps, simp]: "index (new_id i g) = i"
  by (rule bit_word_eqI) (auto simp: index_def new_id_def Let_def bit_simps)

lemma generation_new_id [id_simps, simp]: "generation (new_id i g) = g"
  by (rule bit_word_eqI)
    (auto simp: generation_def new_id_def Let_def bit_simps dest: bit_imp_le_length)

lemma new_id_collapse [id_simps, simp]: "new_id (index e) (generation e) = e"
proof (rule entity_id.expand, rule bit_word_eqI)
  fix n
  show "bit (bits (new_id (index e) (generation e))) n = bit (bits e) n"
    by (auto simp: new_id_def index_def generation_def Let_def bit_simps dest: bit_imp_le_length)
qed

lemma new_id_inject [simp]: "new_id i g = new_id i' g' \<longleftrightarrow> i = i' \<and> g = g'"
  by (metis index_new_id generation_new_id)

lemma entity_id_eq_iff: "a = b \<longleftrightarrow> index a = index b \<and> generation a = generation b"
  by (metis new_id_collapse)

lemma uint_bits_split:
  "uint (bits e) = uint (index e) + 2 ^ 32 * uint (generation e)"
proof -
  have "uint (index e) = uint (bits e) mod 2 ^ 32"
    by (simp add: index_def unsigned_ucast_eq take_bit_eq_mod)
  moreover have "uint (generation e) = uint (bits e) div 2 ^ 32"
  proof -
    have "uint (bits e) div 2 ^ 32 < 2 ^ 32"
      using uint_lt2p [of "bits e"] by (simp add: div_less_iff_less_mult)
    then show ?thesis
      by (simp add: generation_def unsigned_ucast_eq take_bit_eq_mod drop_bit_eq_div uint_div
          mod_pos_pos_trivial pos_imp_zdiv_nonneg_iff)
  qed
  ultimately show ?thesis
    by simp
qed

lemma uint_bits_new_id: "uint (bits (new_id i g)) = uint i + 2 ^ 32 * uint g"
  using uint_bits_split [of "new_id i g"] by simp

lemma bits_id_valid: "generation e \<noteq> 0 \<Longrightarrow> id_valid e"
  by (auto simp: id_valid_def generation_def)

lemma new_id_valid: "g \<noteq> 0 \<Longrightarrow> id_valid (new_id i g)"
  by (simp add: bits_id_valid)

lemma lex_less_iff:
  fixes i j x y :: int
  assumes "0 \<le> i" "i < 4294967296" "0 \<le> j" "j < 4294967296"
  shows "i + 4294967296 * x < j + 4294967296 * y \<longleftrightarrow> x < y \<or> x = y \<and> i < j"
proof (cases x y rule: linorder_cases)
  case less
  then have "x + 1 \<le> y" by simp
  with assms less show ?thesis by linarith
next
  case equal
  with assms show ?thesis by simp
next
  case greater
  then have "y + 1 \<le> x" by simp
  with assms greater show ?thesis by linarith
qed

lemma less_id_iff:
  "a < b \<longleftrightarrow>
     generation a < generation b \<or> generation a = generation b \<and> index a < index b"
proof -
  have a: "uint (bits a) = uint (index a) + 2 ^ 32 * uint (generation a)"
    and b: "uint (bits b) = uint (index b) + 2 ^ 32 * uint (generation b)"
    by (rule uint_bits_split)+
  have lt: "uint (index a) < 2 ^ 32" "uint (index b) < 2 ^ 32"
    using uint_lt2p [of "index a"] uint_lt2p [of "index b"] by simp_all
  have "a < b \<longleftrightarrow> uint (bits a) < uint (bits b)"
    by (simp add: less_entity_id_def cmp_id_def to_bits_def word_less_def)
  also have "\<dots> \<longleftrightarrow> uint (generation a) < uint (generation b) \<or>
      uint (generation a) = uint (generation b) \<and> uint (index a) < uint (index b)"
    using lt uint_ge_0 [of "index a"] uint_ge_0 [of "index b"] unfolding a b
    by (simp add: lex_less_iff)
  finally show ?thesis
    by (simp add: word_less_def word_uint_eq_iff)
qed

section \<open>Advancing an id\<close>

lemma next_generation_step:
  assumes "generation e \<noteq> 0xFFFFFFFF"
  shows "next_generation e = new_id (index e) (generation e + 1)"
proof -
  have g: "uint (generation e) + 1 < 2 ^ 32"
  proof -
    have "uint (generation e) \<noteq> uint (0xFFFFFFFF :: u32)"
      using assms by (metis word_uint_eqI)
    then show ?thesis
      using uint_lt2p [of "generation e"] by simp
  qed
  have g1: "uint (generation e + 1) = uint (generation e) + 1"
    using g by (simp add: uint_word_ariths)
  have i: "uint (index e) < 2 ^ 32"
    using uint_lt2p [of "index e"] by simp
  have v: "uint (bits e + 0x100000000) = uint (index e) + 2 ^ 32 * (uint (generation e) + 1)"
    using g i by (simp add: uint_word_ariths uint_bits_split)
  then have "\<not> bits e + 0x100000000 < 0x100000000"
    using i uint_ge_0 [of "index e"] uint_ge_0 [of "generation e"]
    by (simp add: word_less_def not_less)
  then have "bits (next_generation e) = bits e + 0x100000000"
    by (simp add: next_generation_def Let_def push_bit_eq_mult)
  moreover have "bits e + 0x100000000 = bits (new_id (index e) (generation e + 1))"
    by (rule word_uint_eqI) (simp add: v uint_bits_new_id g1)
  ultimately show ?thesis
    by (simp add: entity_id.expand)
qed

lemma next_generation_wrap:
  assumes "generation e = 0xFFFFFFFF"
  shows "next_generation e = EntityId (2 * ucast (index e))"
proof -
  have i: "uint (index e) < 2 ^ 32"
    using uint_lt2p [of "index e"] by simp
  have v: "uint (bits e + 0x100000000) = uint (index e)"
    using i by (simp add: uint_word_ariths uint_bits_split assms)
  then have lt: "bits e + 0x100000000 < 0x100000000"
    using i by (simp add: word_less_def)
  have "bits e + 0x100000000 = ucast (index e)"
    by (rule word_uint_eqI) (use v i in \<open>simp add: unsigned_ucast_eq take_bit_int_eq_self\<close>)
  with lt show ?thesis
    by (simp add: next_generation_def Let_def push_bit_eq_mult)
qed

lemma next_index_eq: "next_index e = new_id (index e + 1) (generation e)"
proof (rule entity_id.expand, rule bit_word_eqI)
  fix n
  have m: "(0xFFFFFFFF :: u64) = mask 32"
    by (simp add: mask_eq_exp_minus_1)
  have "bit (0xFFFFFFFF :: u64) n \<longleftrightarrow> n < 32"
    unfolding m by (auto simp: bit_simps)
  then show "bit (bits (next_index e)) n = bit (bits (new_id (index e + 1) (generation e))) n"
    by (auto simp: next_index_def new_id_def generation_def Let_def bit_simps
        dest: bit_imp_le_length)
qed

section \<open>Printing and parsing\<close>

lemma to_digit_digit_char [simp]: "d < 10 \<Longrightarrow> to_digit (digit_char d) = Some d"
  by (simp add: to_digit_def digit_char_def Let_def)

lemma dec_string_not_Nil [simp]: "dec_string n \<noteq> []"
  by (subst dec_string.simps) simp

lemma parse_digits_append:
  "parse_digits a (xs @ ys) =
     (case parse_digits a xs of Inl e \<Rightarrow> Inl e | Inr b \<Rightarrow> parse_digits b ys)"
  by (induction a xs rule: parse_digits.induct) (auto split: option.splits)

lemma parse_digits_dec_string: "n < 2 ^ 64 \<Longrightarrow> parse_digits 0 (dec_string n) = Inr n"
proof (induction n rule: dec_string.induct)
  case (1 n)
  show ?case
  proof (cases "n < 10")
    case True
    then show ?thesis by (subst dec_string.simps) simp
  next
    case False
    with "1" have "parse_digits 0 (dec_string (n div 10)) = Inr (n div 10)"
      by simp
    with False "1.prems" show ?thesis
      by (subst dec_string.simps) (simp add: parse_digits_append)
  qed
qed

lemma dec_string_digits: "c \<in> set (dec_string n) \<Longrightarrow> \<exists>d<10. c = digit_char d"
proof (induction n rule: dec_string.induct)
  case (1 n)
  then show ?case
    by (subst (asm) (2) dec_string.simps) (auto split: if_splits intro: exI [of _ "n mod 10"])
qed

lemma dec_string_hd_not_sign: "c \<in> set (dec_string n) \<Longrightarrow> c \<noteq> CHR ''+'' \<and> c \<noteq> CHR ''-''"
proof -
  assume "c \<in> set (dec_string n)"
  then obtain d where "d < 10" "c = digit_char d"
    using dec_string_digits by blast
  then have "(of_char c :: nat) = 48 + d"
    by (simp add: digit_char_def)
  then show ?thesis
    by auto
qed

lemma parse_u64_dec_string: "n < 2 ^ 64 \<Longrightarrow> parse_u64 (dec_string n) = Inr (of_nat n)"
proof -
  assume n: "n < 2 ^ 64"
  obtain c cs where s: "dec_string n = c # cs"
    by (meson dec_string_not_Nil list.exhaust)
  then have "c \<noteq> CHR ''+''" "c \<noteq> CHR ''-''"
    using dec_string_hd_not_sign [of c n] by simp_all
  then have "parse_u64 (c # cs) = map_sum id of_nat (parse_digits 0 (c # cs))"
    by (cases cs) (simp_all add: parse_u64_def del: parse_digits.simps)
  with s parse_digits_dec_string [OF n] show ?thesis
    by simp
qed

section \<open>Properties\<close>

text \<open>Packing and unpacking an id are inverse to each other: the index and the generation given
  to \<^verbatim>\<open>new\<close> are read back, every id is the packing of its own halves, \<^verbatim>\<open>from_bits\<close> accepts exactly
  the non-zero bit patterns and inverts \<^verbatim>\<open>to_bits\<close>, and \<^verbatim>\<open>Ord\<close> compares the generation first and
  the index second.\<close>
theorem id_pack_roundtrip:
  "index (new_id i g) = i \<and> generation (new_id i g) = g \<and> new_id (index e) (generation e) = e
     \<and> from_bits (to_bits e) = (if id_valid e then Some e else None)
     \<and> (cmp_id a b = Less \<longleftrightarrow> generation a < generation b \<or> generation a = generation b \<and> index a < index b)"
  by (simp add: from_bits_def to_bits_def id_valid_def less_id_iff [unfolded less_entity_id_def])

text \<open>\<^verbatim>\<open>next_generation\<close> keeps the index and adds one to the generation, except at the largest
  generation: there it returns the bit pattern of twice the index, so that the generation is zero
  (or one with another index) instead of wrapping back to one on the same slot.\<close>
theorem next_generation_behaviour:
  "next_generation e =
     (if generation e = 0xFFFFFFFF then EntityId (2 * ucast (index e))
      else new_id (index e) (generation e + 1))"
  by (simp add: next_generation_step next_generation_wrap)

text \<open>The textual form \<^verbatim>\<open>stringify\<close> writes is read back by \<^verbatim>\<open>apply_str\<close> to the same id, whatever
  the receiver held before, and the serialized \<^verbatim>\<open>u64\<close> is read back likewise.\<close>
theorem id_string_roundtrip:
  assumes "id_valid e"
  shows "apply_str self (stringify e) = (Ok (), e) \<and> deserialize_id (serialize_id e) = Ok e"
proof -
  have "unat (to_bits e) < 2 ^ 64"
    using unsigned_less [of "to_bits e", where 'a = nat] by simp
  then have "parse_u64 (stringify e) = Inr (to_bits e)"
    by (simp add: stringify_def parse_u64_dec_string)
  with assms show ?thesis
    by (simp add: apply_str_def deserialize_id_def serialize_id_def from_bits_def to_bits_def
        id_valid_def)
qed

theorem id_string_roundtrip_witness:
  "apply_str PLACEHOLDER (stringify (EntityId 0x100000002)) = (Ok (), EntityId 0x100000002)"
proof -
  have "id_valid (EntityId 0x100000002)"
    by (simp add: id_valid_def)
  then show ?thesis
    using id_string_roundtrip by blast
qed

end
