(* ===== verification/Free_Buffer.thy ===== *)
theory Free_Buffer
  imports Entity_Id
begin

text \<open>
  The chunked buffer behind the free list of the entity allocator
  (\<^verbatim>\<open>Chunk\<close>, \<^verbatim>\<open>FreeBuffer\<close>, \<^verbatim>\<open>FreeBufferIter\<close> of \<^verbatim>\<open>zlim-core/src/entity/allocator.rs\<close>): twenty-four
  lazily allocated chunks of growing capacity that together form one array indexed by \<^verbatim>\<open>u32\<close>.
  A chunk is \<open>None\<close> while its head pointer is null. A read through a null head or past the end of
  a chunk, which is undefined behaviour in the source, is the value \<open>None\<close> of the model.
  The locale \<open>slot_array\<close> is the array contract the free list relies on; it is interpreted here on
  the chunked buffer.
\<close>

section \<open>The array contract\<close>

text \<open>The first \<open>n\<close> slots of an array, as a list.\<close>

definition slots :: "('b \<Rightarrow> u32 \<Rightarrow> 'a option) \<Rightarrow> 'b \<Rightarrow> nat \<Rightarrow> 'a list" where
  "slots get b n = map (\<lambda>i. the (get b (of_nat i))) [0..<n]"

definition filled :: "('b \<Rightarrow> u32 \<Rightarrow> 'a option) \<Rightarrow> 'b \<Rightarrow> nat \<Rightarrow> bool" where
  "filled get b n \<longleftrightarrow> (\<forall>i<n. get b (of_nat i) \<noteq> None)"

locale slot_array =
  fixes get :: "'b \<Rightarrow> u32 \<Rightarrow> 'a option"
    and set_slice :: "'b \<Rightarrow> u32 \<Rightarrow> 'a list \<Rightarrow> 'b"
    and invar :: "'b \<Rightarrow> bool"
  assumes invar_set_slice:
      "invar b \<Longrightarrow> unat n + length xs < 2 ^ 32 \<Longrightarrow> invar (set_slice b n xs)"
    and get_set_slice_in:
      "invar b \<Longrightarrow> unat n + length xs < 2 ^ 32 \<Longrightarrow> unat n \<le> unat i \<Longrightarrow>
        unat i < unat n + length xs \<Longrightarrow> get (set_slice b n xs) i = Some (xs ! (unat i - unat n))"
    and get_set_slice_out:
      "invar b \<Longrightarrow> unat n + length xs < 2 ^ 32 \<Longrightarrow>
        unat i < unat n \<or> unat n + length xs \<le> unat i \<Longrightarrow> get b i = Some v \<Longrightarrow>
        get (set_slice b n xs) i = Some v"
begin

lemma filled_append:
  assumes "invar b" "filled get b (unat n)" "unat n + length xs < 2 ^ 32"
  shows "filled get (set_slice b n xs) (unat n + length xs)"
  unfolding filled_def
proof (intro allI impI)
  fix i assume i: "i < unat n + length xs"
  then have u: "unat (of_nat i :: u32) = i"
    using assms(3) by (simp add: unat_of_nat_small)
  show "get (set_slice b n xs) (of_nat i) \<noteq> None"
  proof (cases "i < unat n")
    case True
    with assms(2) obtain v where "get b (of_nat i) = Some v"
      by (auto simp: filled_def)
    with assms True u have "get (set_slice b n xs) (of_nat i) = Some v"
      by (intro get_set_slice_out) auto
    then show ?thesis by simp
  next
    case False
    with assms u i show ?thesis
      by (simp add: get_set_slice_in)
  qed
qed

lemma filled_set_slice:
  assumes "invar b" "filled get b m" "unat n + length xs < 2 ^ 32"
  shows "filled get (set_slice b n xs) m"
  unfolding filled_def
proof (intro allI impI)
  fix i assume "i < m"
  then obtain v where v: "get b (of_nat i) = Some v"
    using assms(2) by (auto simp: filled_def)
  show "get (set_slice b n xs) (of_nat i) \<noteq> None"
    using get_set_slice_in [OF assms(1,3), of "of_nat i"]
      get_set_slice_out [OF assms(1,3) _ v] not_less by blast
qed

lemma slots_append:
  assumes "invar b" "filled get b (unat n)" "unat n + length xs < 2 ^ 32"
  shows "slots get (set_slice b n xs) (unat n + length xs) = slots get b (unat n) @ xs"
proof (rule nth_equalityI)
  fix i assume "i < length (slots get (set_slice b n xs) (unat n + length xs))"
  then have i: "i < unat n + length xs"
    by (simp add: slots_def)
  then have u: "unat (of_nat i :: u32) = i"
    using assms(3) by (simp add: unat_of_nat_small)
  show "slots get (set_slice b n xs) (unat n + length xs) ! i = (slots get b (unat n) @ xs) ! i"
  proof (cases "i < unat n")
    case True
    with assms(2) obtain v where v: "get b (of_nat i) = Some v"
      by (auto simp: filled_def)
    with assms True u have "get (set_slice b n xs) (of_nat i) = Some v"
      by (intro get_set_slice_out) auto
    with v True show ?thesis
      by (simp add: slots_def nth_append)
  next
    case False
    with assms u i show ?thesis
      by (simp add: slots_def nth_append get_set_slice_in)
  qed
qed (simp add: slots_def)

lemma slots_set_slice_above:
  assumes "invar b" "filled get b m" "m \<le> unat n" "unat n + length xs < 2 ^ 32"
  shows "slots get (set_slice b n xs) m = slots get b m"
  unfolding slots_def
proof (rule map_cong [OF refl])
  fix i assume "i \<in> set [0..<m]"
  then have i: "i < m" by simp
  then have u: "unat (of_nat i :: u32) = i"
    using assms(3,4) by (simp add: unat_of_nat_small)
  obtain v where v: "get b (of_nat i) = Some v"
    using assms(2) i by (auto simp: filled_def)
  with assms u i have "get (set_slice b n xs) (of_nat i) = Some v"
    by (intro get_set_slice_out) auto
  with v show "the (get (set_slice b n xs) (of_nat i)) = the (get b (of_nat i))"
    by simp
qed

end

section \<open>Chunks\<close>

type_synonym chunk = "entity_id list option"
type_synonym free_buffer = "chunk list"

definition chunk_alloc :: "u32 \<Rightarrow> chunk" where
  "chunk_alloc capacity = Some (replicate (unat capacity) PLACEHOLDER)"

definition chunk_get :: "chunk \<Rightarrow> u32 \<Rightarrow> entity_id option" where
  "chunk_get c i =
     (case c of None \<Rightarrow> None
      | Some head \<Rightarrow> if unat i < length head then Some (head ! unat i) else None)"

definition chunk_get_slice :: "chunk \<Rightarrow> u32 \<Rightarrow> u32 \<Rightarrow> u32 \<Rightarrow> entity_id list option" where
  "chunk_get_slice c i required_len chunk_capacity =
     (let available_len = unat (chunk_capacity - i);
          len = min available_len (unat required_len)
      in case c of None \<Rightarrow> None
         | Some head \<Rightarrow>
             if unat i + len \<le> length head then Some (take len (drop (unat i) head)) else None)"

definition copy_at :: "'a list \<Rightarrow> nat \<Rightarrow> 'a list \<Rightarrow> 'a list" where
  "copy_at target i src = take i target @ src @ drop (i + length src) target"

definition chunk_set_slice ::
  "chunk \<Rightarrow> u32 \<Rightarrow> entity_id list \<Rightarrow> u32 \<Rightarrow> nat \<times> chunk" where
  "chunk_set_slice c i entities chunk_capacity =
     (let available_len = unat (chunk_capacity - i);
          len = min available_len (length entities);
          head = (case c of None \<Rightarrow> chunk_alloc chunk_capacity | Some h \<Rightarrow> Some h)
      in (len, map_option (\<lambda>h. copy_at h (unat i) (take len entities)) head))"

section \<open>The buffer\<close>

definition NUM_CHUNKS :: u32 where
  "NUM_CHUNKS = 24"

definition NUM_SKIPPED :: u32 where
  "NUM_SKIPPED = 32 - NUM_CHUNKS"

definition chunck_capacity :: "u32 \<Rightarrow> u32" where
  "chunck_capacity chunk_index =
     (if chunk_index = 0 then push_bit (unat (NUM_SKIPPED + 1)) 1
      else push_bit (unat (NUM_SKIPPED + chunk_index)) 1)"

text \<open>\<^verbatim>\<open>u32::leading_zeros\<close>: the number of zero bits above the highest set bit.\<close>

definition leading_zeros :: "u32 \<Rightarrow> u32" where
  "leading_zeros w = of_nat (length (takeWhile (\<lambda>n. \<not> bit w n) (rev [0..<32])))"

definition chunk_with_index :: "u32 \<Rightarrow> u32 \<times> u32 \<times> u32" where
  "chunk_with_index full_index =
     (let chunk_index = saturating_sub (NUM_CHUNKS - 1) (leading_zeros full_index);
          chunk_capacity = chunck_capacity chunk_index;
          index_in_chunk = full_index AND NOT chunk_capacity
      in (chunk_index, index_in_chunk, chunk_capacity))"

definition buffer_new :: free_buffer where
  "buffer_new = replicate (unat NUM_CHUNKS) None"

definition buffer_get :: "free_buffer \<Rightarrow> u32 \<Rightarrow> entity_id option" where
  "buffer_get b full_index =
     (case chunk_with_index full_index of (ci, i, _) \<Rightarrow> chunk_get (b ! unat ci) i)"

section \<open>Locating an index\<close>

text \<open>Capacity and first index of chunk \<open>k\<close>, as natural numbers.\<close>

definition cap_of :: "nat \<Rightarrow> nat" where
  "cap_of k = (if k = 0 then 512 else 2 ^ (8 + k))"

definition base_of :: "nat \<Rightarrow> nat" where
  "base_of k = (if k = 0 then 0 else 2 ^ (8 + k))"

lemma base_of_Suc: "base_of (Suc k) = base_of k + cap_of k"
  by (simp add: base_of_def cap_of_def power_add)

lemma base_of_mono: "j < k \<Longrightarrow> base_of j + cap_of j \<le> base_of k"
proof (induction k)
  case (Suc k)
  then show ?case
    by (cases "j = k") (auto simp: base_of_Suc)
qed simp

lemma cap_of_le: "k < 24 \<Longrightarrow> base_of k + cap_of k \<le> 2 ^ 32"
proof -
  assume "k < 24"
  then have "(2::nat) ^ (8 + k) \<le> 2 ^ 31"
    by (intro power_increasing) auto
  then show ?thesis
    by (auto simp: base_of_def cap_of_def)
qed

lemma leading_zeros_top:
  assumes "2 ^ m \<le> unat w" "unat w < 2 ^ Suc m" "m < 32"
  shows "leading_zeros w = of_nat (31 - m)"
proof -
  have "[0..<32] = [0..<m] @ m # [Suc m..<32]"
    using assms(3) upt_add_eq_append [of 0 m "32 - m"] by (simp add: upt_conv_Cons)
  then have r: "rev [0..<32] = rev [Suc m..<32] @ m # rev [0..<m]"
    by simp
  have "takeWhile (\<lambda>n. \<not> bit w n) (rev [0..<32])
      = rev [Suc m..<32] @ takeWhile (\<lambda>n. \<not> bit w n) (m # rev [0..<m])"
    unfolding r by (rule takeWhile_append2) (use bit_above_top [OF assms(2)] in auto)
  moreover have "bit w m"
    using assms bit_top by blast
  ultimately show ?thesis
    by (simp add: leading_zeros_def)
qed

lemma leading_zeros_small:
  assumes "unat w < 512"
  shows "\<exists>j\<le>9. leading_zeros w = of_nat (23 + j)"
proof -
  have "[0..<32] = [0..<9] @ [9..<32]"
    using upt_add_eq_append [of 0 9 23] by simp
  then have r: "rev [0..<32] = rev [9..<32] @ rev [0..<9]"
    by (simp only: rev_append)
  have "takeWhile (\<lambda>n. \<not> bit w n) (rev [0..<32])
      = rev [9..<32] @ takeWhile (\<lambda>n. \<not> bit w n) (rev [0..<9])"
    unfolding r by (rule takeWhile_append2) (use assms bit_above_top [of w 9] in auto)
  moreover have "length (takeWhile (\<lambda>n. \<not> bit w n) (rev [0..<9])) \<le> 9"
    using length_takeWhile_le [of "\<lambda>n. \<not> bit w n" "rev [0..<9]"] by simp
  ultimately show ?thesis
    by (auto simp: leading_zeros_def)
qed

lemma chunk_with_index_locate:
  obtains k where "k < 24" "base_of k \<le> unat w" "unat w < base_of k + cap_of k"
    "chunk_with_index w = (of_nat k, of_nat (unat w - base_of k), of_nat (cap_of k))"
proof (cases "unat w < 512")
  case True
  then obtain j where j: "j \<le> 9" "leading_zeros w = of_nat (23 + j)"
    using leading_zeros_small by blast
  have "unat (of_nat (23 + j) :: u32) = 23 + j"
    using j(1) by (intro unat_of_nat_small) simp
  then have "unat (saturating_sub (NUM_CHUNKS - 1) (leading_zeros w)) = 0"
    unfolding saturating_sub_unat j(2) by (simp add: NUM_CHUNKS_def)
  then have "saturating_sub (NUM_CHUNKS - 1) (leading_zeros w) = 0"
    by (simp add: unat_eq_0)
  moreover have "\<not> bit w 9"
    using True bit_above_top [of w 9 9] by simp
  then have "w AND NOT (push_bit 9 1) = w"
    using unset_bit_eq [of 9 w] by (simp only: unset_bit_eq_and_not) simp
  ultimately have "chunk_with_index w = (0, w, 512)"
    by (simp add: chunk_with_index_def chunck_capacity_def NUM_SKIPPED_def NUM_CHUNKS_def Let_def)
  with True that [of 0] show ?thesis
    by (simp add: base_of_def cap_of_def)
next
  case False
  then obtain m where m: "2 ^ m \<le> unat w" "unat w < 2 ^ Suc m"
    using ex_power_ivl1 [of 2 "unat w"] by auto
  have "\<not> m < 9"
  proof
    assume "m < 9"
    then have "(2::nat) ^ Suc m \<le> 2 ^ 9"
      by (intro power_increasing) auto
    with m(2) False show False by simp
  qed
  moreover have "m < 32"
    using m(1) unat_less_power [of w] power_less_imp_less_exp [of "2::nat" m 32] by simp
  ultimately obtain k where k: "m = 8 + k" "0 < k" "k < 24"
    by (auto simp: not_less dest: le_Suc_ex intro: that [of "m - 8"])
  have "unat (of_nat (31 - m) :: u32) = 31 - m"
    by (intro unat_of_nat_small) simp
  moreover have "leading_zeros w = of_nat (31 - m)"
    using m \<open>m < 32\<close> by (rule leading_zeros_top)
  ultimately have "unat (saturating_sub (NUM_CHUNKS - 1) (leading_zeros w)) = k"
    unfolding saturating_sub_unat using k by (simp add: NUM_CHUNKS_def)
  then have ci: "saturating_sub (NUM_CHUNKS - 1) (leading_zeros w) = of_nat k"
    using of_nat_unat_id by metis
  have cap: "chunck_capacity (of_nat k) = push_bit m 1"
  proof -
    have "unat (NUM_SKIPPED + of_nat k) = m"
      using k by (simp add: NUM_SKIPPED_def NUM_CHUNKS_def unat_word_ariths unat_of_nat_small)
    moreover have "(of_nat k :: u32) \<noteq> 0"
      using k using unat_of_nat_small [of k, where 'l = 32] by auto
    ultimately show ?thesis
      by (simp add: chunck_capacity_def)
  qed
  have "w AND NOT (push_bit m 1) = w - 2 ^ m"
    using unset_bit_eq [of m w] bit_top [OF m] by (simp only: unset_bit_eq_and_not) simp
  moreover have "w - 2 ^ m = of_nat (unat w - base_of k)"
    using k m(1) by (simp add: base_of_def of_nat_unat_id)
  ultimately have "chunk_with_index w
      = (of_nat k, of_nat (unat w - base_of k), of_nat (cap_of k))"
    using k by (simp add: chunk_with_index_def Let_def ci cap cap_of_def push_bit_eq_mult)
  with k m that [of k] show ?thesis
    by (simp add: base_of_def cap_of_def power_add)
qed

lemma located_unat:
  assumes "k < 24" "base_of k \<le> n" "n < base_of k + cap_of k"
  shows "unat (of_nat k :: u32) = k" "unat (of_nat (n - base_of k) :: u32) = n - base_of k"
    "unat (of_nat (cap_of k) - of_nat (n - base_of k) :: u32) = cap_of k - (n - base_of k)"
proof -
  show k: "unat (of_nat k :: u32) = k"
    using assms(1) by (intro unat_of_nat_small) simp
  show i: "unat (of_nat (n - base_of k) :: u32) = n - base_of k"
    using cap_of_le [OF assms(1)] assms by (intro unat_of_nat_small) simp
  have "cap_of k < 2 ^ 32"
    using cap_of_le [OF assms(1)] by (cases "k = 0") (simp_all add: base_of_def cap_of_def)
  then have c: "unat (of_nat (cap_of k) :: u32) = cap_of k"
    by (intro unat_of_nat_small) simp
  have "(of_nat (n - base_of k) :: u32) \<le> of_nat (cap_of k)"
    using assms by (simp only: word_le_nat_alt c i)
  then show "unat (of_nat (cap_of k) - of_nat (n - base_of k) :: u32) = cap_of k - (n - base_of k)"
    by (simp only: unat_sub c i)
qed

lemma chunk_set_slice_progress:
  assumes "chunk_with_index w = (ci, i, cap)" "chunk_set_slice c i entities cap = (len, c')"
    "entities \<noteq> []"
  shows "0 < len"
proof -
  obtain k where k: "k < 24" "base_of k \<le> unat w" "unat w < base_of k + cap_of k"
    "chunk_with_index w = (of_nat k, of_nat (unat w - base_of k), of_nat (cap_of k))"
    by (rule chunk_with_index_locate)
  with assms located_unat(3) [OF k(1-3)] show ?thesis
    by (auto simp: chunk_set_slice_def Let_def)
qed

function buffer_set_slice :: "free_buffer \<Rightarrow> u32 \<Rightarrow> entity_id list \<Rightarrow> free_buffer" where
  "buffer_set_slice b full_index entities =
     (if entities = [] then b
      else case chunk_with_index full_index of (ci, i, capacity) \<Rightarrow>
           case chunk_set_slice (b ! unat ci) i entities capacity of (len, c') \<Rightarrow>
             buffer_set_slice (b[unat ci := c']) (full_index + of_nat len) (drop len entities))"
  by pat_completeness auto
termination
  by (relation "measure (\<lambda>(b, n, es). length es)")
    (auto dest: chunk_set_slice_progress [OF sym sym])

declare buffer_set_slice.simps [simp del]

definition buffer_inv :: "free_buffer \<Rightarrow> bool" where
  "buffer_inv b \<longleftrightarrow>
     length b = 24 \<and> (\<forall>k<24. \<forall>h. b ! k = Some h \<longrightarrow> length h = cap_of k)"

section \<open>The buffer is an array\<close>

lemma chunk_with_index_eq:
  assumes "k < 24" "base_of k \<le> unat w" "unat w < base_of k + cap_of k"
  shows "chunk_with_index w = (of_nat k, of_nat (unat w - base_of k), of_nat (cap_of k))"
proof -
  obtain j where j: "j < 24" "base_of j \<le> unat w" "unat w < base_of j + cap_of j"
    "chunk_with_index w = (of_nat j, of_nat (unat w - base_of j), of_nat (cap_of j))"
    by (rule chunk_with_index_locate)
  have "j = k"
    using assms j base_of_mono [of j k] base_of_mono [of k j] by (cases j k rule: linorder_cases) auto
  with j(4) show ?thesis by simp
qed

lemma buffer_get_eq:
  assumes "k < 24" "base_of k \<le> unat w" "unat w < base_of k + cap_of k"
  shows "buffer_get b w = (case b ! k of None \<Rightarrow> None
      | Some h \<Rightarrow> if unat w - base_of k < length h then Some (h ! (unat w - base_of k)) else None)"
  by (simp only: buffer_get_def chunk_with_index_eq [OF assms] chunk_get_def prod.case
      located_unat [OF assms])

lemma copy_at_length: "i + length ys \<le> length xs \<Longrightarrow> length (copy_at xs i ys) = length xs"
  by (simp add: copy_at_def)

lemma copy_at_nth:
  "i + length ys \<le> length xs \<Longrightarrow> j < length xs \<Longrightarrow>
     copy_at xs i ys ! j = (if i \<le> j \<and> j < i + length ys then ys ! (j - i) else xs ! j)"
  by (auto simp: copy_at_def nth_append)

definition chunk_head :: "free_buffer \<Rightarrow> nat \<Rightarrow> entity_id list" where
  "chunk_head b k = (case b ! k of None \<Rightarrow> replicate (cap_of k) PLACEHOLDER | Some h \<Rightarrow> h)"

definition room :: "nat \<Rightarrow> u32 \<Rightarrow> nat" where
  "room k w = cap_of k - (unat w - base_of k)"

definition write_chunk :: "free_buffer \<Rightarrow> nat \<Rightarrow> u32 \<Rightarrow> entity_id list \<Rightarrow> free_buffer" where
  "write_chunk b k w es =
     b[k := Some (copy_at (chunk_head b k) (unat w - base_of k) (take (room k w) es))]"

lemma buffer_set_slice_unfold:
  assumes "k < 24" "base_of k \<le> unat w" "unat w < base_of k + cap_of k" "es \<noteq> []"
  shows "buffer_set_slice b w es =
     buffer_set_slice (write_chunk b k w es) (w + of_nat (min (room k w) (length es)))
       (drop (room k w) es)"
proof -
  have "cap_of k < 2 ^ 32"
    using cap_of_le [OF assms(1)] by (cases "k = 0") (simp_all add: base_of_def cap_of_def)
  then have c: "unat (of_nat (cap_of k) :: u32) = cap_of k"
    by (intro unat_of_nat_small) simp
  have t: "take (min (room k w) (length es)) es = take (room k w) es"
    "drop (min (room k w) (length es)) es = drop (room k w) es"
    by (auto simp: min_def)
  have r: "unat (of_nat (cap_of k) - of_nat (unat w - base_of k) :: u32) = room k w"
    by (simp only: room_def located_unat [OF assms(1-3)])
  show ?thesis
    by (subst buffer_set_slice.simps)
      (simp add: assms(4) chunk_with_index_eq [OF assms(1-3)] chunk_set_slice_def chunk_alloc_def
        Let_def c r located_unat(1,2) [OF assms(1-3)] write_chunk_def chunk_head_def t
        del: of_nat_diff split: option.split)
qed

lemma chunk_head_length: "buffer_inv b \<Longrightarrow> k < 24 \<Longrightarrow> length (chunk_head b k) = cap_of k"
  by (auto simp: buffer_inv_def chunk_head_def split: option.splits)

lemma write_chunk_inv:
  assumes "buffer_inv b" "k < 24" "unat w < base_of k + cap_of k"
  shows "buffer_inv (write_chunk b k w es)"
  using assms chunk_head_length [OF assms(1,2)]
  by (auto simp: buffer_inv_def write_chunk_def nth_list_update copy_at_length room_def)

lemma write_chunk_get_in:
  assumes "buffer_inv b" "k < 24" "base_of k \<le> unat w" "unat w < base_of k + cap_of k"
    "unat w \<le> unat j" "unat j < unat w + min (room k w) (length es)"
  shows "buffer_get (write_chunk b k w es) j = Some (es ! (unat j - unat w))"
proof -
  have "base_of k \<le> unat j" "unat j < base_of k + cap_of k"
    using assms by (auto simp: room_def)
  then show ?thesis
    using assms chunk_head_length [OF assms(1,2)]
    by (auto simp: buffer_get_eq [OF assms(2)] write_chunk_def buffer_inv_def copy_at_length
        copy_at_nth room_def)
qed

lemma write_chunk_get_out:
  assumes "buffer_inv b" "k < 24" "base_of k \<le> unat w" "unat w < base_of k + cap_of k"
    "unat j < unat w \<or> unat w + min (room k w) (length es) \<le> unat j" "buffer_get b j = Some v"
  shows "buffer_get (write_chunk b k w es) j = Some v"
proof -
  obtain l where l: "l < 24" "base_of l \<le> unat j" "unat j < base_of l + cap_of l"
    by (rule chunk_with_index_locate)
  have b: "length b = 24"
    using assms(1) by (simp add: buffer_inv_def)
  show ?thesis
  proof (cases "l = k")
    case False
    with b show ?thesis
      using assms(6) by (simp add: buffer_get_eq [OF l] write_chunk_def)
  next
    case True
    with assms(6) obtain h where h: "b ! k = Some h" "v = h ! (unat j - base_of k)"
      by (auto simp: buffer_get_eq [OF l] split: option.splits if_splits)
    with chunk_head_length [OF assms(1,2)] have lh: "length h = cap_of k" "chunk_head b k = h"
      by (auto simp: chunk_head_def)
    with True l assms(2-5) b h(2) show ?thesis
      by (auto simp: buffer_get_eq [OF l] write_chunk_def copy_at_length copy_at_nth room_def)
  qed
qed

lemma room_bound:
  assumes "k < 24" "base_of k \<le> unat w" "unat w < base_of k + cap_of k"
  shows "0 < room k w" "unat w + room k w = base_of k + cap_of k"
  using assms by (auto simp: room_def)

lemma unat_add_small:
  "unat w + n < 2 ^ LENGTH('l) \<Longrightarrow> unat (w + of_nat n) = unat w + n" for w :: "'l::len word"
  by (simp add: unat_word_ariths unat_of_nat_small)

lemma buffer_set_slice_step:
  assumes "buffer_inv b" "unat w + length es < 2 ^ 32" "es \<noteq> []"
  obtains b' n where "0 < n" "n \<le> length es" "buffer_inv b'"
    "buffer_set_slice b w es = buffer_set_slice b' (w + of_nat n) (drop n es)"
    "unat (w + of_nat n) = unat w + n"
    "\<forall>j. unat w \<le> unat j \<and> unat j < unat w + n \<longrightarrow>
       buffer_get b' j = Some (es ! (unat j - unat w))"
    "\<forall>j v. (unat j < unat w \<or> unat w + n \<le> unat j) \<and> buffer_get b j = Some v \<longrightarrow>
       buffer_get b' j = Some v"
proof -
  obtain k where k: "k < 24" "base_of k \<le> unat w" "unat w < base_of k + cap_of k"
    by (rule chunk_with_index_locate)
  let ?n = "min (room k w) (length es)"
  have d: "drop (room k w) es = drop ?n es"
    by (simp add: min_def)
  show ?thesis
  proof (rule that [of ?n "write_chunk b k w es"])
    show "0 < ?n"
      using room_bound [OF k] assms(3) by simp
    show "buffer_inv (write_chunk b k w es)"
      using assms(1) k by (simp add: write_chunk_inv)
    show "buffer_set_slice b w es
        = buffer_set_slice (write_chunk b k w es) (w + of_nat ?n) (drop ?n es)"
      using buffer_set_slice_unfold [OF k assms(3)] by (simp add: d)
    show "unat (w + of_nat ?n) = unat w + ?n"
      using assms(2) by (intro unat_add_small) simp
  qed (use assms(1) k write_chunk_get_in write_chunk_get_out in auto)
qed

lemma buffer_set_slice_laws:
  assumes "buffer_inv b" "unat w + length es < 2 ^ 32"
  shows "buffer_inv (buffer_set_slice b w es)
    \<and> (\<forall>j. unat w \<le> unat j \<and> unat j < unat w + length es \<longrightarrow>
         buffer_get (buffer_set_slice b w es) j = Some (es ! (unat j - unat w)))
    \<and> (\<forall>j v. (unat j < unat w \<or> unat w + length es \<le> unat j) \<and> buffer_get b j = Some v \<longrightarrow>
         buffer_get (buffer_set_slice b w es) j = Some v)"
  using assms
proof (induction "length es" arbitrary: b w es rule: less_induct)
  case less
  show ?case
  proof (cases "es = []")
    case True
    with less.prems show ?thesis
      by (auto simp: buffer_set_slice.simps [of b w])
  next
    case False
    obtain b' n where st: "0 < n" "n \<le> length es" "buffer_inv b'"
      "buffer_set_slice b w es = buffer_set_slice b' (w + of_nat n) (drop n es)"
      "unat (w + of_nat n) = unat w + n"
      and gin: "\<forall>j. unat w \<le> unat j \<and> unat j < unat w + n \<longrightarrow>
        buffer_get b' j = Some (es ! (unat j - unat w))"
      and gout: "\<forall>j v. (unat j < unat w \<or> unat w + n \<le> unat j) \<and> buffer_get b j = Some v \<longrightarrow>
        buffer_get b' j = Some v"
      by (rule buffer_set_slice_step [OF less.prems False])
    have IH: "buffer_inv (buffer_set_slice b w es)
      \<and> (\<forall>j. unat w + n \<le> unat j \<and> unat j < unat w + length es \<longrightarrow>
         buffer_get (buffer_set_slice b w es) j = Some (drop n es ! (unat j - (unat w + n))))
      \<and> (\<forall>j v. (unat j < unat w + n \<or> unat w + length es \<le> unat j) \<and> buffer_get b' j = Some v \<longrightarrow>
         buffer_get (buffer_set_slice b w es) j = Some v)"
      using less.hyps [of "drop n es" b' "w + of_nat n"] st less.prems False by simp
    have "buffer_get (buffer_set_slice b w es) j = Some (es ! (unat j - unat w))"
      if "unat w \<le> unat j" "unat j < unat w + length es" for j
      using that IH gin [rule_format, of j] st(2) by (cases "unat j < unat w + n") auto
    moreover have "buffer_get (buffer_set_slice b w es) j = Some v"
      if "unat j < unat w \<or> unat w + length es \<le> unat j" "buffer_get b j = Some v" for j v
      using that IH gout [rule_format, of j v] st(2) by auto
    ultimately show ?thesis
      using IH by blast
  qed
qed

interpretation fb: slot_array buffer_get buffer_set_slice buffer_inv
  by unfold_locales (use buffer_set_slice_laws in \<open>blast+\<close>)

lemma buffer_new_inv: "buffer_inv buffer_new"
  by (simp add: buffer_inv_def buffer_new_def NUM_CHUNKS_def)

section \<open>Iterating over a range\<close>

record free_buffer_iter =
  it_buffer :: free_buffer
  it_current :: "entity_id list"
  it_start :: u32
  it_end :: u32

text \<open>
  \<^verbatim>\<open>FreeBuffer::iter\<close> and \<^verbatim>\<open>FreeBufferIter::next\<close>. The outer \<open>None\<close> is a read the source leaves
  undefined: a slice from a null chunk, or \<^verbatim>\<open>unwrap_unchecked\<close> on an empty slice.
\<close>

definition buffer_iter :: "free_buffer \<Rightarrow> u32 \<Rightarrow> u32 \<Rightarrow> free_buffer_iter option" where
  "buffer_iter b start stop =
     (if \<not> start < stop
      then Some \<lparr>it_buffer = b, it_current = [], it_start = start, it_end = stop\<rparr>
      else let required = stop - start in
           case chunk_with_index start of (ci, i, capacity) \<Rightarrow>
             map_option
               (\<lambda>slice. \<lparr>it_buffer = b, it_current = slice,
                         it_start = start + of_nat (length slice), it_end = stop\<rparr>)
               (chunk_get_slice (b ! unat ci) i required capacity))"

definition range_len :: "u32 \<Rightarrow> u32 \<Rightarrow> nat" where
  "range_len start stop = (if start < stop then unat (stop - start) else 0)"

definition iter_len :: "free_buffer_iter \<Rightarrow> nat" where
  "iter_len it = length (it_current it) + range_len (it_start it) (it_end it)"

definition slow_next ::
  "free_buffer_iter \<Rightarrow> u32 \<Rightarrow> (entity_id option \<times> free_buffer_iter) option" where
  "slow_next it required =
     (case chunk_with_index (it_start it) of (ci, i, capacity) \<Rightarrow>
        case chunk_get_slice (it_buffer it ! unat ci) i required capacity of
          None \<Rightarrow> None
        | Some [] \<Rightarrow> None
        | Some (e # es) \<Rightarrow>
            Some (Some e, it\<lparr>it_current := es,
                            it_start := it_start it + of_nat (length (e # es))\<rparr>))"

definition iter_next :: "free_buffer_iter \<Rightarrow> (entity_id option \<times> free_buffer_iter) option" where
  "iter_next it =
     (case it_current it of
        e # es \<Rightarrow> Some (Some e, it\<lparr>it_current := es\<rparr>)
      | [] \<Rightarrow>
          let still_need = of_nat (range_len (it_start it) (it_end it)) :: u32
          in if still_need = 0 then Some (None, it) else slow_next it still_need)"

text \<open>Driving the iterator to its end, as \<^verbatim>\<open>collect\<close> and \<^verbatim>\<open>for_each\<close> do, within \<open>fuel\<close> calls of \<^verbatim>\<open>next\<close>.\<close>

fun iter_collect :: "nat \<Rightarrow> free_buffer_iter \<Rightarrow> entity_id list option" where
  "iter_collect 0 it = None"
| "iter_collect (Suc fuel) it =
     (case iter_next it of
        None \<Rightarrow> None
      | Some (None, _) \<Rightarrow> Some []
      | Some (Some e, it') \<Rightarrow> map_option (Cons e) (iter_collect fuel it'))"

text \<open>The elements an iterator still has to yield, and the condition that they can be read.\<close>

definition range_view :: "free_buffer \<Rightarrow> nat \<Rightarrow> nat \<Rightarrow> entity_id list" where
  "range_view b lo hi = map (\<lambda>i. the (buffer_get b (of_nat i))) [lo..<hi]"

definition iter_view :: "free_buffer_iter \<Rightarrow> entity_id list" where
  "iter_view it = it_current it @ range_view (it_buffer it) (unat (it_start it)) (unat (it_end it))"

definition range_ready :: "free_buffer \<Rightarrow> u32 \<Rightarrow> u32 \<Rightarrow> bool" where
  "range_ready b lo hi \<longleftrightarrow>
     buffer_inv b \<and> (\<forall>i. unat lo \<le> i \<and> i < unat hi \<longrightarrow> buffer_get b (of_nat i) \<noteq> None)"

definition iter_ready :: "free_buffer_iter \<Rightarrow> bool" where
  "iter_ready it \<longleftrightarrow> range_ready (it_buffer it) (it_start it) (it_end it)"

lemma range_len_eq: "range_len lo hi = unat hi - unat lo"
  by (auto simp: range_len_def word_less_nat_alt unat_sub word_le_nat_alt)

lemma iter_len_view: "iter_len it = length (iter_view it)"
  by (simp add: iter_len_def iter_view_def range_view_def range_len_eq)

lemma get_slice_view:
  assumes "range_ready b w e" "unat w < unat e"
  obtains ci i cap n where "chunk_with_index w = (ci, i, cap)" "0 < n" "unat w + n \<le> unat e"
    "chunk_get_slice (b ! unat ci) i (of_nat (unat e - unat w)) cap
       = Some (range_view b (unat w) (unat w + n))"
proof -
  obtain k where k: "k < 24" "base_of k \<le> unat w" "unat w < base_of k + cap_of k"
    by (rule chunk_with_index_locate)
  let ?n = "min (room k w) (unat e - unat w)"
  have inv: "buffer_inv b" and some: "\<And>i. unat w \<le> i \<Longrightarrow> i < unat e \<Longrightarrow> buffer_get b (of_nat i) \<noteq> None"
    using assms(1) by (auto simp: range_ready_def)
  have "buffer_get b w \<noteq> None"
    using some [of "unat w"] assms(2) by (simp add: of_nat_unat_id)
  then obtain h where h: "b ! k = Some h"
    by (auto simp: buffer_get_eq [OF k] split: option.splits)
  with inv k have lh: "length h = cap_of k"
    by (auto simp: buffer_inv_def)
  have r: "unat (of_nat (cap_of k) - of_nat (unat w - base_of k) :: u32) = room k w"
    by (simp only: room_def located_unat [OF k])
  have q: "unat (of_nat (unat e - unat w) :: u32) = unat e - unat w"
    using unat_less_power [of e] by (intro unat_of_nat_small) simp
  have rb: "unat w + room k w = base_of k + cap_of k"
    using room_bound [OF k] by simp
  have "take ?n (drop (unat w - base_of k) h) = range_view b (unat w) (unat w + ?n)"
  proof (rule nth_equalityI)
    show "length (take ?n (drop (unat w - base_of k) h)) = length (range_view b (unat w) (unat w + ?n))"
      using lh k by (auto simp: range_view_def room_def)
    fix i assume "i < length (take ?n (drop (unat w - base_of k) h))"
    then have i: "i < ?n" by simp
    then have u: "unat (of_nat (unat w + i) :: u32) = unat w + i"
      using unat_less_power [of e] by (intro unat_of_nat_small) auto
    have "buffer_get b (of_nat (unat w + i)) = Some (h ! (unat w - base_of k + i))"
      using k i h lh rb by (subst buffer_get_eq [OF k(1)]) (simp_all only: u, auto)
    with i k lh rb show "take ?n (drop (unat w - base_of k) h) ! i
        = range_view b (unat w) (unat w + ?n) ! i"
      by (simp add: range_view_def nth_append del: of_nat_add)
  qed
  moreover have "unat w - base_of k + ?n \<le> length h"
    using lh rb k by auto
  ultimately have "chunk_get_slice (b ! k) (of_nat (unat w - base_of k)) (of_nat (unat e - unat w))
      (of_nat (cap_of k)) = Some (range_view b (unat w) (unat w + ?n))"
    unfolding chunk_get_slice_def Let_def r q located_unat(2) [OF k] h by simp
  then show ?thesis
    using that [OF chunk_with_index_eq [OF k], of ?n] room_bound(1) [OF k] assms(2)
    by (simp add: located_unat(1) [OF k] del: of_nat_diff)
qed

lemma range_view_split:
  "lo \<le> mid \<Longrightarrow> mid \<le> hi \<Longrightarrow> range_view b lo hi = range_view b lo mid @ range_view b mid hi"
  using upt_add_eq_append [of lo mid "hi - mid"] by (simp add: range_view_def)

lemma range_view_length [simp]: "length (range_view b lo hi) = hi - lo"
  by (simp add: range_view_def)

lemma unat_advance:
  "unat w + n \<le> unat e \<Longrightarrow> unat (w + of_nat n) = unat w + n" for w e :: u32
  using unat_less_power [of e] by (intro unat_add_small) simp

lemma range_ready_advance:
  "range_ready b w e \<Longrightarrow> unat w + n \<le> unat e \<Longrightarrow> range_ready b (w + of_nat n) e"
  by (auto simp: range_ready_def unat_advance)

lemma iter_next_Nil: "iter_view it = [] \<Longrightarrow> iter_next it = Some (None, it)"
  by (auto simp: iter_view_def iter_next_def range_view_def range_len_eq)

lemma iter_next_Cons:
  assumes "iter_ready it" "iter_view it = v # vs"
  shows "\<exists>it'. iter_next it = Some (Some v, it') \<and> iter_ready it' \<and> iter_view it' = vs"
proof (cases "it_current it")
  case (Cons e es)
  with assms show ?thesis
    by (auto simp: iter_next_def iter_view_def iter_ready_def)
next
  case Nil
  let ?b = "it_buffer it" and ?w = "it_start it" and ?e = "it_end it"
  have view: "range_view ?b (unat ?w) (unat ?e) = v # vs"
    using assms(2) Nil by (simp add: iter_view_def)
  then have lt: "unat ?w < unat ?e"
    using range_view_length [of ?b "unat ?w" "unat ?e"] by (cases "unat ?w < unat ?e") auto
  have rdy: "range_ready ?b ?w ?e"
    using assms(1) by (simp add: iter_ready_def)
  obtain ci i cap n where n: "chunk_with_index ?w = (ci, i, cap)" "0 < n" "unat ?w + n \<le> unat ?e"
    "chunk_get_slice (?b ! unat ci) i (of_nat (unat ?e - unat ?w)) cap
       = Some (range_view ?b (unat ?w) (unat ?w + n))"
    by (rule get_slice_view [OF rdy lt])
  obtain es where es: "range_view ?b (unat ?w) (unat ?w + n) = v # es"
    "vs = es @ range_view ?b (unat ?w + n) (unat ?e)"
    using view range_view_split [of "unat ?w" "unat ?w + n" "unat ?e" ?b] n(2,3)
      range_view_length [of ?b "unat ?w" "unat ?w + n"]
    by (cases "range_view ?b (unat ?w) (unat ?w + n)") auto
  then have len: "Suc (length es) = n"
    using range_view_length [of ?b "unat ?w" "unat ?w + n"] by simp
  have "(of_nat (unat ?e - unat ?w) :: u32) \<noteq> 0"
    using lt unat_of_nat_small [of "unat ?e - unat ?w", where 'l = 32] unat_less_power [of ?e] by auto
  then have "iter_next it = slow_next it (of_nat (unat ?e - unat ?w))"
    using Nil by (simp add: iter_next_def range_len_eq Let_def)
  also have "\<dots> = Some (Some v, it\<lparr>it_current := es, it_start := ?w + of_nat n\<rparr>)"
    unfolding slow_next_def n(1) prod.case n(4) es(1) by (simp add: len del: of_nat_Suc)
  finally show ?thesis
    using rdy es(2) n(3) by (simp add: iter_ready_def iter_view_def range_ready_advance unat_advance)
qed

lemma iter_collect_view:
  "iter_ready it \<Longrightarrow> length (iter_view it) < fuel \<Longrightarrow> iter_collect fuel it = Some (iter_view it)"
proof (induction fuel arbitrary: it)
  case (Suc fuel)
  show ?case
  proof (cases "iter_view it")
    case Nil
    then show ?thesis by (simp add: iter_next_Nil)
  next
    case (Cons v vs)
    with Suc.prems obtain it' where "iter_next it = Some (Some v, it')" "iter_ready it'"
      "iter_view it' = vs"
      using iter_next_Cons by blast
    with Suc Cons show ?thesis by simp
  qed
qed simp

lemma buffer_iter_view:
  assumes "range_ready b lo hi"
  shows "\<exists>it. buffer_iter b lo hi = Some it \<and> iter_ready it
      \<and> iter_view it = range_view b (unat lo) (unat hi)"
proof (cases "unat lo < unat hi")
  case False
  with assms show ?thesis
    by (auto simp: buffer_iter_def word_less_nat_alt iter_ready_def iter_view_def range_view_def)
next
  case True
  obtain ci i cap n where n: "chunk_with_index lo = (ci, i, cap)" "0 < n" "unat lo + n \<le> unat hi"
    "chunk_get_slice (b ! unat ci) i (of_nat (unat hi - unat lo)) cap
       = Some (range_view b (unat lo) (unat lo + n))"
    by (rule get_slice_view [OF assms True])
  have d: "hi - lo = of_nat (unat hi - unat lo)"
    using True by (simp add: of_nat_unat_id)
  have "lo < hi"
    using True by (simp add: word_less_nat_alt)
  then have "buffer_iter b lo hi = Some \<lparr>it_buffer = b,
      it_current = range_view b (unat lo) (unat lo + n), it_start = lo + of_nat n, it_end = hi\<rparr>"
    by (simp add: buffer_iter_def Let_def n(1) d n(4) del: of_nat_diff)
  then show ?thesis
    using assms n(3) range_view_split [of "unat lo" "unat lo + n" "unat hi" b]
    by (simp add: iter_ready_def iter_view_def range_ready_advance unat_advance)
qed

section \<open>Properties\<close>

lemma base_of_sum: "base_of k = (\<Sum>j<k. cap_of j)"
  by (induction k) (simp_all add: base_of_Suc, simp add: base_of_def)

lemma chunck_capacity_eq: "k < 24 \<Longrightarrow> unat (chunck_capacity (of_nat k)) = cap_of k"
proof -
  assume k: "k < 24"
  have "unat (NUM_SKIPPED + of_nat k) = 8 + k"
    using k by (simp add: NUM_SKIPPED_def NUM_CHUNKS_def unat_word_ariths unat_of_nat_small)
  moreover have "(of_nat k :: u32) = 0 \<longleftrightarrow> k = 0"
    using k unat_of_nat_small [of k, where 'l = 32] by auto
  moreover have "unat (push_bit (8 + k) 1 :: u32) = 2 ^ (8 + k)"
  proof -
    have "(2::nat) ^ (8 + k) < 2 ^ 32"
      using k by (intro power_strict_increasing) auto
    then have "unat (of_nat (2 ^ (8 + k)) :: u32) = 2 ^ (8 + k)"
      by (intro unat_of_nat_small) simp
    then show ?thesis
      by (simp add: push_bit_eq_mult)
  qed
  ultimately show ?thesis
    by (simp add: chunck_capacity_def cap_of_def NUM_SKIPPED_def NUM_CHUNKS_def)
qed

text \<open>\<^verbatim>\<open>chunk_with_index\<close> is a bijection between the 32-bit indices and the slots of the chunks: the
  chunk number is below twenty-four, the position is below that chunk's capacity, and the
  index is the total capacity of the chunks before it plus the position.\<close>
theorem chunk_with_index_exact:
  "case chunk_with_index w of (ci, i, cap) \<Rightarrow>
     unat ci < 24 \<and> cap = chunck_capacity ci \<and> unat i < unat cap
     \<and> unat w = (\<Sum>j<unat ci. unat (chunck_capacity (of_nat j))) + unat i"
proof -
  obtain k where k: "k < 24" "base_of k \<le> unat w" "unat w < base_of k + cap_of k"
    "chunk_with_index w = (of_nat k, of_nat (unat w - base_of k), of_nat (cap_of k))"
    by (rule chunk_with_index_locate)
  have c: "of_nat (cap_of k) = chunck_capacity (of_nat k)"
    using chunck_capacity_eq [OF k(1)] by (metis of_nat_unat_id)
  have "(\<Sum>j<k. unat (chunck_capacity (of_nat j))) = base_of k"
    using k(1) by (simp add: base_of_sum chunck_capacity_eq)
  then show ?thesis
    using k c chunck_capacity_eq [OF k(1)] located_unat(1,2) [OF k(1-3)]
    by (simp del: of_nat_diff)
qed

text \<open>C25: the chunked buffer behaves as one array: after \<^verbatim>\<open>set_slice\<close> every index of the written
  range reads the value written there, whatever chunks the range spans, every other index that could
  be read before still reads its old value, and the chunk sizes stay right.\<close>
theorem buffer_set_slice_array:
  assumes "buffer_inv b" "unat w + length es < 2 ^ 32"
  shows "buffer_inv (buffer_set_slice b w es)
    \<and> (unat w \<le> unat j \<and> unat j < unat w + length es \<longrightarrow>
         buffer_get (buffer_set_slice b w es) j = Some (es ! (unat j - unat w)))
    \<and> (unat j < unat w \<or> unat w + length es \<le> unat j \<longrightarrow> buffer_get b j = Some v \<longrightarrow>
         buffer_get (buffer_set_slice b w es) j = Some v)"
  using assms by (simp add: fb.invar_set_slice fb.get_set_slice_in fb.get_set_slice_out)

theorem buffer_set_slice_array_witness:
  "buffer_get (buffer_set_slice buffer_new 510 [new_id 7 1, new_id 8 1, new_id 9 2]) 512
     = Some (new_id 9 2)"
  using buffer_set_slice_array [OF buffer_new_inv,
      of 510 "[new_id 7 1, new_id 8 1, new_id 9 2]" 512]
  by simp

text \<open>Iterating over a readable range of the buffer yields exactly the stored ids in index
  order, crossing chunk boundaries, and stops after as many calls of \<^verbatim>\<open>next\<close> as the exact length
  the iterator reports.\<close>
theorem buffer_iter_collects:
  assumes "range_ready b lo hi"
  shows "\<exists>it. buffer_iter b lo hi = Some it \<and> iter_len it = unat hi - unat lo
    \<and> iter_collect (Suc (iter_len it)) it
        = Some (map (\<lambda>i. the (buffer_get b (of_nat i))) [unat lo..<unat hi])"
proof -
  obtain it where it: "buffer_iter b lo hi = Some it" "iter_ready it"
    "iter_view it = range_view b (unat lo) (unat hi)"
    using buffer_iter_view [OF assms] by blast
  then show ?thesis
    using iter_collect_view [OF it(2), of "Suc (iter_len it)"]
    by (simp add: iter_len_view range_view_def del: iter_collect.simps)
qed

theorem buffer_iter_collects_witness:
  "\<exists>it. buffer_iter (buffer_set_slice buffer_new 0 [new_id 7 1, new_id 8 1]) 0 2 = Some it
    \<and> iter_len it = 2"
proof -
  let ?b = "buffer_set_slice buffer_new 0 [new_id 7 1, new_id 8 1]"
  have "buffer_inv ?b"
    using fb.invar_set_slice [OF buffer_new_inv, of 0 "[new_id 7 1, new_id 8 1]"] by simp
  moreover have "buffer_get ?b (of_nat i) \<noteq> None" if "i < 2" for i
    using fb.get_set_slice_in [OF buffer_new_inv, of 0 "[new_id 7 1, new_id 8 1]" "of_nat i"] that
    by (simp add: unat_of_nat_small)
  ultimately have "range_ready ?b 0 2"
    by (simp add: range_ready_def)
  from buffer_iter_collects [OF this] show ?thesis
    by auto
qed

end
