(* ===== verification/Free_List.thy ===== *)
theory Free_List
  imports Free_Buffer
begin

text \<open>
  The free list of the entity allocator (\<^verbatim>\<open>FreeCountState\<close>, \<^verbatim>\<open>FreeCount\<close>, \<^verbatim>\<open>FreeList\<close> of
  \<^verbatim>\<open>zlim-core/src/entity/allocator.rs\<close>): one \<^verbatim>\<open>u64\<close> packs a biased length (33 bits), a disable flag
  (bit 33) and a generation counter (30 bits), beside the chunked buffer. The first part reads the
  three fields as numbers and gives the effect of every operation on them; the second part
  shows that the list is a stack, through the array contract of the buffer.
\<close>

section \<open>The packed counter\<close>

type_synonym free_count_state = u64

definition DISABLING_BIT :: u64 where
  "DISABLING_BIT = push_bit 33 1"

definition LENGTH_MASK :: u64 where
  "LENGTH_MASK = push_bit 32 1 OR 0xFFFFFFFF"

definition LENGTH_0 :: u64 where
  "LENGTH_0 = push_bit 32 1"

definition GENERATION_LEAST_BIT :: u64 where
  "GENERATION_LEAST_BIT = push_bit 34 1"

definition fc_length :: "free_count_state \<Rightarrow> u32" where
  "fc_length s = (let unsigned_length = s AND LENGTH_MASK
                  in ucast (saturating_sub unsigned_length LENGTH_0))"

definition is_disabled :: "free_count_state \<Rightarrow> bool" where
  "is_disabled s \<longleftrightarrow> s AND DISABLING_BIT > 0"

definition with_length :: "free_count_state \<Rightarrow> u32 \<Rightarrow> free_count_state" where
  "with_length s l = (let l' = ucast l OR LENGTH_0 in (s AND NOT LENGTH_MASK) OR l')"

definition encode_generation :: "u32 \<Rightarrow> u64" where
  "encode_generation num = (let subtract_length = ucast num in subtract_length OR GENERATION_LEAST_BIT)"

definition fc_pop :: "free_count_state \<Rightarrow> u32 \<Rightarrow> free_count_state" where
  "fc_pop s num = s - encode_generation num"

text \<open>The atomic operations of \<^verbatim>\<open>FreeCount\<close>: each returns the state it found and the state it leaves.\<close>

definition pop_for_state :: "u64 \<Rightarrow> u32 \<Rightarrow> free_count_state \<times> u64" where
  "pop_for_state c num = (c, c - encode_generation num)"

definition disable_for_state :: "u64 \<Rightarrow> free_count_state \<times> u64" where
  "disable_for_state c = (c, c OR DISABLING_BIT)"

definition set_state_risky :: "u64 \<Rightarrow> free_count_state \<Rightarrow> u64" where
  "set_state_risky c s = s"

definition try_set_state ::
  "u64 \<Rightarrow> free_count_state \<Rightarrow> free_count_state \<Rightarrow> (free_count_state, unit) outcome \<times> u64" where
  "try_set_state c expected target = (if c = expected then (Ok (), target) else (Err c, c))"

section \<open>The fields as numbers\<close>

definition fc_field :: "u64 \<Rightarrow> nat" where
  "fc_field s = unat s mod 2 ^ 33"

definition fc_gen :: "u64 \<Rightarrow> nat" where
  "fc_gen s = unat s div 2 ^ 34"

lemma LENGTH_MASK_mask: "LENGTH_MASK = mask 33"
  by (simp add: LENGTH_MASK_def mask_eq_exp_minus_1)

lemma unat_and_mask: "unat (s AND LENGTH_MASK) = fc_field s"
  unfolding LENGTH_MASK_mask take_bit_eq_mask [symmetric] unsigned_take_bit_eq
  by (simp add: fc_field_def take_bit_eq_mod)

lemma fc_field_less: "fc_field s < 2 ^ 33"
  by (simp add: fc_field_def)

lemma unat_fc_length [alloc_simps]: "unat (fc_length s) = fc_field s - 2 ^ 32"
proof -
  have "unat (saturating_sub (s AND LENGTH_MASK) LENGTH_0) = fc_field s - 2 ^ 32"
    unfolding saturating_sub_unat unat_and_mask by (simp add: LENGTH_0_def push_bit_eq_mult)
  moreover have "fc_field s - 2 ^ 32 < 2 ^ 32"
    using fc_field_less [of s] by simp
  ultimately show ?thesis
    by (simp add: fc_length_def Let_def unsigned_ucast_eq take_bit_nat_eq_self)
qed

lemma is_disabled_bit: "is_disabled s \<longleftrightarrow> bit s 33"
proof -
  have "s AND push_bit 33 1 > 0 \<longleftrightarrow> s AND push_bit 33 1 \<noteq> 0"
    by (simp add: word_gt_0)
  also have "\<dots> \<longleftrightarrow> bit s 33"
    by (simp add: bit_iff_and_push_bit_not_eq_0)
  finally show ?thesis
    by (simp only: is_disabled_def DISABLING_BIT_def)
qed

lemma is_disabled_odd: "is_disabled s \<longleftrightarrow> odd (unat s div 2 ^ 33)"
  by (simp add: is_disabled_bit bit_unat_iff bit_iff_odd)

lemma fc_gen_div: "fc_gen s = unat s div 2 ^ 33 div 2"
  by (simp add: fc_gen_def div_mult2_eq [symmetric])

lemma fc_split: "unat s = fc_field s + 2 ^ 33 * of_bool (is_disabled s) + 2 ^ 34 * fc_gen s"
proof -
  define q where "q = unat s div 2 ^ 33"
  have "unat s = q * 2 ^ 33 + fc_field s"
    by (simp add: q_def fc_field_def)
  moreover have "q = 2 * fc_gen s + of_bool (is_disabled s)"
    by (simp add: q_def fc_gen_div is_disabled_odd flip: odd_iff_mod_2_eq_one mod_2_eq_odd)
  ultimately show ?thesis
    by (simp add: algebra_simps)
qed

lemma fc_fields_unique:
  assumes "unat s = f + 2 ^ 33 * of_bool d + 2 ^ 34 * g" "f < 2 ^ 33"
  shows "fc_field s = f" "is_disabled s = d" "fc_gen s = g"
proof -
  have s: "unat s = f + 2 ^ 33 * (of_bool d + 2 * g)"
    using assms(1) by simp
  show "fc_field s = f"
    using assms(2) unfolding fc_field_def s by (simp only: mod_mult_self2 mod_less)
  have q: "unat s div 2 ^ 33 = of_bool d + 2 * g"
    using assms(2) unfolding s by (simp only: div_mult_self2 div_less)
  show "is_disabled s = d" "fc_gen s = g"
    unfolding is_disabled_odd fc_gen_div q by auto
qed

lemma fc_gen_less: "fc_gen s < 2 ^ 30"
proof -
  have "unat s < 2 ^ 64"
    using unat_less_power [of s] by simp
  then show ?thesis
    by (simp add: fc_gen_def div_less_iff_less_mult)
qed

lemma with_length_unat:
  "unat (with_length s l) = unat s div 2 ^ 33 * 2 ^ 33 + (2 ^ 32 + unat l)"
proof -
  let ?x = "ucast l OR LENGTH_0 :: u64"
  have "\<not> bit (ucast l :: u64) 32"
    by (auto simp: bit_simps dest: bit_imp_le_length)
  then have "set_bit 32 (ucast l :: u64) = ucast l + 2 ^ 32"
    by (simp add: set_bit_eq)
  then have "?x = ucast l + 2 ^ 32"
    by (simp add: LENGTH_0_def set_bit_eq_or)
  then have x: "unat ?x = 2 ^ 32 + unat l"
    using unat_less_power [of l]
    by (simp add: unat_word_ariths unsigned_ucast_eq take_bit_nat_eq_self)
  then have x33: "unat ?x < 2 ^ 33"
    using unat_less_power [of l] by simp
  let ?y = "with_length s l"
  have y: "?y = (s AND NOT (mask 33)) OR ?x"
    by (simp only: with_length_def Let_def LENGTH_MASK_mask)
  have "drop_bit 33 ?y = drop_bit 33 s"
    by (rule bit_word_eqI) (use bit_above_top [OF x33] in \<open>auto simp: y bit_simps dest: bit_imp_le_length\<close>)
  then have "unat (drop_bit 33 ?y) = unat (drop_bit 33 s)"
    by simp
  then have "drop_bit 33 (unat ?y) = drop_bit 33 (unat s)"
    using unat_less_power [of ?y] unat_less_power [of s]
    by (simp only: unsigned_drop_bit_eq take_bit_nat_eq_self)
  moreover have "take_bit 33 ?y = ?x"
    by (rule bit_word_eqI) (use bit_above_top [OF x33] in \<open>auto simp: y bit_simps not_less dest: bit_imp_le_length\<close>)
  then have "take_bit 33 (unat ?y) = unat ?x"
    by (metis unsigned_take_bit_eq)
  ultimately show ?thesis
    using div_mult_mod_eq [of "unat ?y" "2 ^ 33"] x by (simp add: drop_bit_eq_div take_bit_eq_mod)
qed

lemma with_length_fields [alloc_simps]:
  "fc_field (with_length s l) = 2 ^ 32 + unat l"
  "is_disabled (with_length s l) = is_disabled s"
  "fc_gen (with_length s l) = fc_gen s"
proof -
  have q: "unat s div 2 ^ 33 = 2 * fc_gen s + of_bool (is_disabled s)"
    by (simp add: fc_gen_div is_disabled_odd flip: mod_2_eq_odd)
  have "unat (with_length s l) = (2 ^ 32 + unat l) + 2 ^ 33 * of_bool (is_disabled s)
      + 2 ^ 34 * fc_gen s"
    unfolding with_length_unat q by simp
  moreover have "2 ^ 32 + unat l < 2 ^ 33"
    using unat_less_power [of l] by simp
  ultimately show "fc_field (with_length s l) = 2 ^ 32 + unat l"
    "is_disabled (with_length s l) = is_disabled s" "fc_gen (with_length s l) = fc_gen s"
    by (rule fc_fields_unique)+
qed

lemma encode_generation_unat: "unat (encode_generation n) = unat n + 2 ^ 34"
proof -
  have "\<not> bit (ucast n :: u64) 34"
    by (auto simp: bit_simps dest: bit_imp_le_length)
  then have "set_bit 34 (ucast n :: u64) = ucast n + 2 ^ 34"
    by (simp add: set_bit_eq)
  then have "encode_generation n = ucast n + 2 ^ 34"
    by (simp add: encode_generation_def GENERATION_LEAST_BIT_def set_bit_eq_or Let_def)
  then show ?thesis
    using unat_less_power [of n]
    by (simp add: unat_word_ariths unsigned_ucast_eq take_bit_nat_eq_self)
qed

text \<open>
  A pop lowers the length field and moves the generation by one, modulo \<open>2 ^ 30\<close>, as long as the
  field does not borrow from the disable flag.
\<close>

lemma fc_pop_fields [alloc_simps]:
  assumes "unat n \<le> fc_field s"
  shows "fc_field (fc_pop s n) = fc_field s - unat n"
    "is_disabled (fc_pop s n) = is_disabled s"
    "fc_gen (fc_pop s n) = (fc_gen s + (2 ^ 30 - 1)) mod 2 ^ 30"
proof -
  let ?g = "(fc_gen s + (2 ^ 30 - 1)) mod 2 ^ 30"
  have split: "unat s = fc_field s + 2 ^ 33 * of_bool (is_disabled s) + 2 ^ 34 * fc_gen s"
    by (rule fc_split)
  have f: "fc_field s < 2 ^ 33" and g: "fc_gen s < 2 ^ 30"
    by (rule fc_field_less, rule fc_gen_less)
  have "unat (fc_pop s n) = (fc_field s - unat n) + 2 ^ 33 * of_bool (is_disabled s) + 2 ^ 34 * ?g"
  proof (cases "fc_gen s = 0")
    case True
    have "\<not> unat n + 2 ^ 34 \<le> unat s"
      using split f True by (cases "is_disabled s") auto
    with True split assms f show ?thesis
      by (cases "is_disabled s")
        (auto simp: fc_pop_def unat_sub_if_size encode_generation_unat word_size)
  next
    case False
    then have "?g = fc_gen s - 1"
      using g by (cases "fc_gen s") auto
    moreover have "unat n + 2 ^ 34 \<le> unat s"
      using split assms False by (cases "fc_gen s") auto
    ultimately show ?thesis
      using split assms False
      by (cases "fc_gen s") (auto simp: fc_pop_def unat_sub_if_size encode_generation_unat)
  qed
  moreover have "fc_field s - unat n < 2 ^ 33"
    using fc_field_less [of s] by simp
  ultimately show "fc_field (fc_pop s n) = fc_field s - unat n"
    "is_disabled (fc_pop s n) = is_disabled s" "fc_gen (fc_pop s n) = ?g"
    by (rule fc_fields_unique)+
qed

section \<open>The list\<close>

record free_list =
  fl_buffer :: free_buffer
  fl_len :: u64

definition free_list_new :: free_list where
  "free_list_new = \<lparr>fl_buffer = buffer_new, fl_len = LENGTH_0\<rparr>"

definition free_list_free :: "free_list \<Rightarrow> entity_id list \<Rightarrow> free_list" where
  "free_list_free fl entities =
     (case disable_for_state (fl_len fl) of (state, c1) \<Rightarrow>
        let full_index = fc_length state;
            b = buffer_set_slice (fl_buffer fl) full_index entities;
            len = full_index + of_nat (length entities);
            new_state = with_length state len
        in \<lparr>fl_buffer = b, fl_len = set_state_risky c1 new_state\<rparr>)"

text \<open>
  \<^verbatim>\<open>alloc\<close> gives no id on an empty list; a read of a slot that was never written, undefined in
  the source, is \<open>Err\<close>.
\<close>

datatype fault = UndefinedRead

definition free_list_alloc :: "free_list \<Rightarrow> (fault, entity_id option) outcome \<times> free_list" where
  "free_list_alloc fl =
     (case pop_for_state (fl_len fl) 1 of (state, c) \<Rightarrow>
        let fl' = fl\<lparr>fl_len := c\<rparr> in
        case checked_sub (fc_length state) 1 of
          None \<Rightarrow> (Ok None, fl')
        | Some i \<Rightarrow>
            (case buffer_get (fl_buffer fl) i of
               None \<Rightarrow> (Err UndefinedRead, fl')
             | Some e \<Rightarrow> (Ok (Some e), fl')))"

definition free_list_alloc_many ::
  "free_list \<Rightarrow> u32 \<Rightarrow> (fault, free_buffer_iter) outcome \<times> free_list" where
  "free_list_alloc_many fl count =
     (case pop_for_state (fl_len fl) count of (state, c) \<Rightarrow>
        let fl' = fl\<lparr>fl_len := c\<rparr>;
            len = fc_length state;
            i = saturating_sub len count
        in case buffer_iter (fl_buffer fl) i len of
             None \<Rightarrow> (Err UndefinedRead, fl')
           | Some it \<Rightarrow> (Ok it, fl'))"

text \<open>The ids a free list holds, bottom first, and its invariant.\<close>

definition fl_size :: "free_list \<Rightarrow> nat" where
  "fl_size fl = unat (fc_length (fl_len fl))"

definition fl_stack :: "free_list \<Rightarrow> entity_id list" where
  "fl_stack fl = slots buffer_get (fl_buffer fl) (fl_size fl)"

definition fl_inv :: "free_list \<Rightarrow> bool" where
  "fl_inv fl \<longleftrightarrow> buffer_inv (fl_buffer fl) \<and> filled buffer_get (fl_buffer fl) (fl_size fl)
     \<and> \<not> is_disabled (fl_len fl)"

lemma fl_stack_length [simp]: "length (fl_stack fl) = fl_size fl"
  by (simp add: fl_stack_def slots_def)

lemma free_list_new_stack: "fl_inv free_list_new \<and> fl_stack free_list_new = [] \<and>
    fc_field (fl_len free_list_new) = 2 ^ 32"
proof -
  have "fc_field LENGTH_0 = 2 ^ 32"
    by (simp add: fc_field_def LENGTH_0_def push_bit_eq_mult)
  moreover have "\<not> is_disabled LENGTH_0"
    by (simp add: is_disabled_def LENGTH_0_def DISABLING_BIT_def push_bit_eq_mult)
  ultimately show ?thesis
    by (simp add: fl_inv_def fl_stack_def fl_size_def free_list_new_def buffer_new_inv filled_def
        slots_def unat_fc_length)
qed

lemma free_list_free_len:
  "fl_len (free_list_free fl es) =
     with_length (fl_len fl) (fc_length (fl_len fl) + of_nat (length es))"
  "fl_buffer (free_list_free fl es) =
     buffer_set_slice (fl_buffer fl) (fc_length (fl_len fl)) es"
  by (simp_all add: free_list_free_def disable_for_state_def set_state_risky_def Let_def)

lemma fl_size_with_length [simp]: "unat (fc_length (with_length s l)) = unat l"
  by (simp add: unat_fc_length with_length_fields)

lemma free_list_free_stack:
  assumes "fl_inv fl" "fl_size fl + length es < 2 ^ 32"
  shows "fl_inv (free_list_free fl es) \<and> fl_stack (free_list_free fl es) = fl_stack fl @ es
    \<and> fc_field (fl_len (free_list_free fl es)) = 2 ^ 32 + fl_size fl + length es"
proof -
  let ?n = "fc_length (fl_len fl)"
  have n: "unat (?n + of_nat (length es)) = unat ?n + length es"
    using assms(2) by (intro unat_add_small) (simp add: fl_size_def)
  have bound: "unat ?n + length es < 2 ^ 32"
    using assms(2) by (simp add: fl_size_def)
  have pre: "buffer_inv (fl_buffer fl)" "filled buffer_get (fl_buffer fl) (unat ?n)"
    using assms(1) by (simp_all add: fl_inv_def fl_size_def)
  show ?thesis
    using fb.invar_set_slice [OF pre(1) bound] fb.filled_append [OF pre bound]
      fb.slots_append [OF pre bound] assms(1)
    by (simp add: fl_inv_def fl_stack_def fl_size_def free_list_free_len n with_length_fields)
qed

lemma slots_take: "m \<le> n \<Longrightarrow> slots get b m = take m (slots get b n)"
  by (simp add: slots_def take_map)

lemma filled_mono: "m \<le> n \<Longrightarrow> filled get b n \<Longrightarrow> filled get b m"
  by (simp add: filled_def)

lemma fl_pop_inv:
  assumes "fl_inv fl" "unat n \<le> fc_field (fl_len fl)"
  shows "fl_inv (fl\<lparr>fl_len := fc_pop (fl_len fl) n\<rparr>)"
    "fl_size (fl\<lparr>fl_len := fc_pop (fl_len fl) n\<rparr>) = fl_size fl - unat n"
    "fl_stack (fl\<lparr>fl_len := fc_pop (fl_len fl) n\<rparr>) = take (fl_size fl - unat n) (fl_stack fl)"
    "fc_field (fc_pop (fl_len fl) n) = fc_field (fl_len fl) - unat n"
proof -
  show sz: "fl_size (fl\<lparr>fl_len := fc_pop (fl_len fl) n\<rparr>) = fl_size fl - unat n"
    using assms(2) by (simp add: fl_size_def alloc_simps)
  then show "fl_inv (fl\<lparr>fl_len := fc_pop (fl_len fl) n\<rparr>)"
    using assms filled_mono [of "fl_size fl - unat n" "fl_size fl" buffer_get "fl_buffer fl"]
    by (auto simp: fl_inv_def fc_pop_fields)
  show "fl_stack (fl\<lparr>fl_len := fc_pop (fl_len fl) n\<rparr>) = take (fl_size fl - unat n) (fl_stack fl)"
    unfolding fl_stack_def sz by (simp add: slots_take [of "fl_size fl - unat n" "fl_size fl"])
  show "fc_field (fc_pop (fl_len fl) n) = fc_field (fl_len fl) - unat n"
    using assms(2) by (rule fc_pop_fields)
qed

lemma pop_for_state_eq: "pop_for_state c n = (c, fc_pop c n)"
  by (simp add: pop_for_state_def fc_pop_def)

lemma free_list_alloc_stack:
  assumes "fl_inv fl"
  shows "free_list_alloc fl =
     (Ok (if fl_stack fl = [] then None else Some (last (fl_stack fl))),
      fl\<lparr>fl_len := fc_pop (fl_len fl) 1\<rparr>)"
proof (cases "fl_size fl = 0")
  case True
  then have "checked_sub (fc_length (fl_len fl)) 1 = None" "fl_stack fl = []"
    by (simp_all add: checked_sub_None_iff fl_size_def fl_stack_def slots_def)
  then show ?thesis
    by (simp add: free_list_alloc_def pop_for_state_eq)
next
  case False
  let ?l = "fc_length (fl_len fl)"
  have c: "checked_sub ?l 1 = Some (?l - 1)" "unat (?l - 1) = fl_size fl - 1"
    using False by (auto simp: checked_sub_def fl_size_def word_le_nat_alt unat_sub)
  have i: "?l - 1 = of_nat (fl_size fl - 1)"
    using c(2) of_nat_unat_id by metis
  have "buffer_get (fl_buffer fl) (of_nat (fl_size fl - 1)) \<noteq> None"
    using assms False unfolding fl_inv_def filled_def by (metis diff_less less_one not_gr_zero)
  then obtain e where e: "buffer_get (fl_buffer fl) (of_nat (fl_size fl - 1)) = Some e"
    by blast
  have "last (fl_stack fl) = e"
    using False e by (simp add: fl_stack_def slots_def last_map del: of_nat_diff)
  moreover have "fl_stack fl \<noteq> []"
    using False by (simp flip: length_0_conv)
  ultimately show ?thesis
    unfolding free_list_alloc_def pop_for_state_eq prod.case c(1) Let_def i option.case e by simp
qed

lemma free_list_alloc_many_stack:
  assumes "fl_inv fl"
  shows "\<exists>it. free_list_alloc_many fl n = (Ok it, fl\<lparr>fl_len := fc_pop (fl_len fl) n\<rparr>)
    \<and> iter_ready it \<and> iter_view it = drop (fl_size fl - unat n) (fl_stack fl)"
proof -
  let ?l = "fc_length (fl_len fl)"
  have i: "unat (saturating_sub ?l n) = fl_size fl - unat n"
    by (simp add: saturating_sub_unat fl_size_def)
  have "range_ready (fl_buffer fl) (saturating_sub ?l n) ?l"
    using assms by (auto simp: range_ready_def fl_inv_def filled_def fl_size_def)
  then obtain it where it: "buffer_iter (fl_buffer fl) (saturating_sub ?l n) ?l = Some it"
    "iter_ready it" "iter_view it = range_view (fl_buffer fl) (fl_size fl - unat n) (fl_size fl)"
    using buffer_iter_view i by (metis fl_size_def)
  moreover have "range_view (fl_buffer fl) m k = drop m (slots buffer_get (fl_buffer fl) k)" for m k
    by (simp add: range_view_def slots_def drop_map)
  ultimately show ?thesis
    by (auto simp: free_list_alloc_many_def pop_for_state_eq Let_def fl_stack_def)
qed

section \<open>Properties\<close>

text \<open>C30: the packed counter behaves as its three fields: \<^verbatim>\<open>with_length\<close> sets the length and keeps
  the flag and the generation, a pop of no more than the length field holds lowers the length,
  clamped at zero, keeps the flag, and steps the generation backwards modulo \<open>2 ^ 30\<close>, so that the
  packed state always changes.\<close>
theorem free_count_fields:
  assumes "unat n \<le> fc_field s"
  shows "fc_length (with_length s l) = l \<and> is_disabled (with_length s l) = is_disabled s
      \<and> fc_gen (with_length s l) = fc_gen s
    \<and> unat (fc_length (fc_pop s n)) = unat (fc_length s) - unat n
      \<and> is_disabled (fc_pop s n) = is_disabled s
      \<and> fc_gen (fc_pop s n) = (fc_gen s + (2 ^ 30 - 1)) mod 2 ^ 30 \<and> fc_pop s n \<noteq> s"
proof -
  have "fc_length (with_length s l) = l"
    by (metis fl_size_with_length of_nat_unat_id)
  moreover have "(fc_gen s + (2 ^ 30 - 1)) mod 2 ^ 30 \<noteq> fc_gen s"
    using fc_gen_less [of s] by (cases "fc_gen s") auto
  then have "fc_pop s n \<noteq> s"
    using fc_pop_fields(3) [OF assms] by auto
  ultimately show ?thesis
    using assms by (simp add: alloc_simps add.commute)
qed

theorem free_count_fields_witness:
  "unat (fc_length (fc_pop (with_length LENGTH_0 5) 2)) = 3"
proof -
  have "unat (2 :: u32) \<le> fc_field (with_length LENGTH_0 5)"
    by (simp add: with_length_fields)
  from free_count_fields [OF this] show ?thesis
    by simp
qed

text \<open>C19: the free list is a last-in first-out stack of ids: \<^verbatim>\<open>free\<close> pushes the whole slice,
  \<^verbatim>\<open>alloc\<close> returns and removes the top (or reports an empty list), and \<^verbatim>\<open>alloc_many\<close> yields the
  topmost ids, never reading a slot that was not written.\<close>
theorem free_list_is_stack:
  assumes "fl_inv fl" "fl_size fl + length es < 2 ^ 32" "unat n \<le> fc_field (fl_len fl)"
    "0 < fc_field (fl_len fl)"
  shows "fl_inv (free_list_free fl es) \<and> fl_stack (free_list_free fl es) = fl_stack fl @ es
    \<and> fst (free_list_alloc fl) = Ok (if fl_stack fl = [] then None else Some (last (fl_stack fl)))
    \<and> fl_inv (snd (free_list_alloc fl))
    \<and> fl_stack (snd (free_list_alloc fl)) = butlast (fl_stack fl)
    \<and> (\<exists>it. fst (free_list_alloc_many fl n) = Ok it
          \<and> iter_collect (Suc (iter_len it)) it = Some (drop (fl_size fl - unat n) (fl_stack fl)))
    \<and> fl_inv (snd (free_list_alloc_many fl n))
    \<and> fl_stack (snd (free_list_alloc_many fl n)) = take (fl_size fl - unat n) (fl_stack fl)"
proof -
  have one: "unat (1 :: u32) \<le> fc_field (fl_len fl)"
    using assms(4) by simp
  obtain it where it: "free_list_alloc_many fl n = (Ok it, fl\<lparr>fl_len := fc_pop (fl_len fl) n\<rparr>)"
    "iter_ready it" "iter_view it = drop (fl_size fl - unat n) (fl_stack fl)"
    using free_list_alloc_many_stack [OF assms(1)] by blast
  then have "iter_collect (Suc (iter_len it)) it = Some (drop (fl_size fl - unat n) (fl_stack fl))"
    using iter_collect_view [OF it(2), of "Suc (iter_len it)"]
    by (simp add: iter_len_view del: iter_collect.simps)
  then show ?thesis
    using free_list_free_stack [OF assms(1,2)] free_list_alloc_stack [OF assms(1)]
      fl_pop_inv [OF assms(1) one] fl_pop_inv [OF assms(1,3)] it(1)
    by (simp add: butlast_conv_take del: iter_collect.simps)
qed

theorem free_list_is_stack_witness:
  "fst (free_list_alloc (free_list_free free_list_new [new_id 4 1, new_id 5 2]))
     = Ok (Some (new_id 5 2))"
proof -
  have n: "fl_inv free_list_new" "fl_size free_list_new = 0"
    "fl_stack free_list_new = []"
    using free_list_new_stack by (auto simp flip: fl_stack_length)
  let ?fl = "free_list_free free_list_new [new_id 4 1, new_id 5 2]"
  have f: "fl_inv ?fl" "fl_stack ?fl = [new_id 4 1, new_id 5 2]" "fc_field (fl_len ?fl) = 2 ^ 32 + 2"
    using free_list_free_stack [of free_list_new "[new_id 4 1, new_id 5 2]"] n by simp_all
  have "fl_size ?fl = 2"
    using f(2) by (simp flip: fl_stack_length)
  then show ?thesis
    using free_list_is_stack [OF f(1), of "[]" 0] f by simp
qed

end
