(* ===== verification/Entity_Allocator.thy ===== *)
theory Entity_Allocator
  imports Free_List "HOL-Library.Multiset"
begin

text \<open>
  The entity allocator (\<^verbatim>\<open>FreshAllocator\<close>, \<^verbatim>\<open>AllocEntitiesIter\<close>, \<^verbatim>\<open>EntityAllocator\<close> of
  \<^verbatim>\<open>zlim-core/src/entity/allocator.rs\<close>) as the thread that owns it sees it: recycled ids come from the free
  list, new ones from a counter, and two local buffers of 127 ids batch the traffic. The relation
  \<open>alloc_step\<close> is every way a caller may use the allocator, with the set of slot indices handed
  out and not yet given back as a ghost; its invariant gives that no index is handed out twice.
  The fetch-and-modify operations of the atomic counter are single steps here; interleaving with other
  threads is the subject of theory \<open>Allocator_Concurrency\<close>.
\<close>

section \<open>Fresh ids\<close>

definition fresh_new :: u32 where
  "fresh_new = 1"

definition fresh_alloc :: "u32 \<Rightarrow> (fault, entity_id) outcome \<times> u32" where
  "fresh_alloc n =
     (case checked_add n 1 of
        Some n' \<Rightarrow> (Ok (new_id n 1), n')
      | None \<Rightarrow> (Panic, n))"

type_synonym fresh_entity_iter = "u32 \<times> u32"

definition fresh_alloc_many :: "u32 \<Rightarrow> u32 \<Rightarrow> (fault, fresh_entity_iter) outcome \<times> u32" where
  "fresh_alloc_many n cnt =
     (case checked_add n cnt of
        Some n' \<Rightarrow> (Ok (n, n + cnt), n')
      | None \<Rightarrow> (Panic, n))"

definition fresh_next :: "fresh_entity_iter \<Rightarrow> entity_id option \<times> fresh_entity_iter" where
  "fresh_next r = (case r of (start, stop) \<Rightarrow>
     if start < stop then (Some (new_id start 1), (start + 1, stop)) else (None, r))"

definition fresh_len :: "fresh_entity_iter \<Rightarrow> nat" where
  "fresh_len r = range_len (fst r) (snd r)"

fun fresh_collect :: "nat \<Rightarrow> fresh_entity_iter \<Rightarrow> entity_id list" where
  "fresh_collect 0 r = []"
| "fresh_collect (Suc n) r =
     (case fresh_next r of (None, _) \<Rightarrow> [] | (Some e, r') \<Rightarrow> e # fresh_collect n r')"

section \<open>The allocator\<close>

definition LOCAL_SIZE :: nat where
  "LOCAL_SIZE = 127"

record entity_allocator =
  ea_free :: free_list
  ea_fresh :: u32
  ea_closed :: bool
  ea_free_buf :: "entity_id list"
  ea_alloc_buf :: "entity_id list"

definition allocator_new :: entity_allocator where
  "allocator_new = \<lparr>ea_free = free_list_new, ea_fresh = fresh_new, ea_closed = False,
     ea_free_buf = [], ea_alloc_buf = []\<rparr>"

definition allocator_drop :: "entity_allocator \<Rightarrow> entity_allocator" where
  "allocator_drop a = a\<lparr>ea_closed := True\<rparr>"

definition allocator_free :: "entity_allocator \<Rightarrow> entity_id \<Rightarrow> entity_allocator" where
  "allocator_free a entity =
     (let a' = (if length (ea_free_buf a) = LOCAL_SIZE
                then a\<lparr>ea_free := free_list_free (ea_free a) (ea_free_buf a), ea_free_buf := []\<rparr>
                else a)
      in a'\<lparr>ea_free_buf := ea_free_buf a' @ [entity]\<rparr>)"

definition allocator_free_many :: "entity_allocator \<Rightarrow> entity_id list \<Rightarrow> entity_allocator" where
  "allocator_free_many a entities = a\<lparr>ea_free := free_list_free (ea_free a) entities\<rparr>"

definition allocator_alloc ::
  "entity_allocator \<Rightarrow> (fault, entity_id) outcome \<times> entity_allocator" where
  "allocator_alloc a =
     (case free_list_alloc (ea_free a) of
        (Ok (Some e), fl) \<Rightarrow> (Ok e, a\<lparr>ea_free := fl\<rparr>)
      | (Ok None, fl) \<Rightarrow>
          (case fresh_alloc (ea_fresh a) of (r, n) \<Rightarrow> (r, a\<lparr>ea_free := fl, ea_fresh := n\<rparr>))
      | (Err x, fl) \<Rightarrow> (Err x, a\<lparr>ea_free := fl\<rparr>)
      | (Panic, fl) \<Rightarrow> (Panic, a\<lparr>ea_free := fl\<rparr>))"

text \<open>\<^verbatim>\<open>AllocEntitiesIter\<close>: the recycled ids, then the fresh ones.\<close>

type_synonym alloc_entities_iter = "free_buffer_iter \<times> fresh_entity_iter"

definition allocator_alloc_many ::
  "entity_allocator \<Rightarrow> u32 \<Rightarrow> (fault, alloc_entities_iter) outcome \<times> entity_allocator" where
  "allocator_alloc_many a cnt =
     (case free_list_alloc_many (ea_free a) cnt of
        (Ok reused, fl) \<Rightarrow>
          let still_need = cnt - of_nat (iter_len reused) in
          (case fresh_alloc_many (ea_fresh a) still_need of
             (Ok fresh, n) \<Rightarrow> (Ok (reused, fresh), a\<lparr>ea_free := fl, ea_fresh := n\<rparr>)
           | (Err x, n) \<Rightarrow> (Err x, a\<lparr>ea_free := fl, ea_fresh := n\<rparr>)
           | (Panic, n) \<Rightarrow> (Panic, a\<lparr>ea_free := fl, ea_fresh := n\<rparr>))
      | (Err x, fl) \<Rightarrow> (Err x, a\<lparr>ea_free := fl\<rparr>)
      | (Panic, fl) \<Rightarrow> (Panic, a\<lparr>ea_free := fl\<rparr>))"

definition alloc_iter_next ::
  "alloc_entities_iter \<Rightarrow> (entity_id option \<times> alloc_entities_iter) option" where
  "alloc_iter_next it =
     (case it of (reused, fresh) \<Rightarrow>
        case iter_next reused of
          None \<Rightarrow> None
        | Some (Some e, reused') \<Rightarrow> Some (Some e, (reused', fresh))
        | Some (None, reused') \<Rightarrow>
            (case fresh_next fresh of (r, fresh') \<Rightarrow> Some (r, (reused', fresh'))))"

definition alloc_iter_len :: "alloc_entities_iter \<Rightarrow> nat" where
  "alloc_iter_len it = iter_len (fst it) + fresh_len (snd it)"

fun alloc_iter_collect :: "nat \<Rightarrow> alloc_entities_iter \<Rightarrow> entity_id list option" where
  "alloc_iter_collect 0 it = None"
| "alloc_iter_collect (Suc fuel) it =
     (case alloc_iter_next it of
        None \<Rightarrow> None
      | Some (None, _) \<Rightarrow> Some []
      | Some (Some e, it') \<Rightarrow> map_option (Cons e) (alloc_iter_collect fuel it'))"

text \<open>
  \<^verbatim>\<open>alloc_mut\<close> serves from the local buffer; when that is empty it takes one id more than the buffer
  holds, returns the first and pushes the rest.
\<close>

definition alloc_mut_slow ::
  "entity_allocator \<Rightarrow> (fault, entity_id) outcome \<times> entity_allocator" where
  "alloc_mut_slow a =
     (case allocator_alloc_many a (of_nat LOCAL_SIZE + 1) of
        (Ok (reused, fresh), a') \<Rightarrow>
          (case alloc_iter_next (reused, fresh) of
             Some (Some e, (reused', fresh')) \<Rightarrow>
               (case iter_collect (Suc (iter_len reused')) reused' of
                  Some rs \<Rightarrow>
                    (Ok e, a'\<lparr>ea_alloc_buf :=
                       ea_alloc_buf a' @ rs @ fresh_collect (fresh_len fresh') fresh'\<rparr>)
                | None \<Rightarrow> (Err UndefinedRead, a'))
           | _ \<Rightarrow> (Err UndefinedRead, a'))
      | (Err x, a') \<Rightarrow> (Err x, a')
      | (Panic, a') \<Rightarrow> (Panic, a'))"

definition allocator_alloc_mut ::
  "entity_allocator \<Rightarrow> (fault, entity_id) outcome \<times> entity_allocator" where
  "allocator_alloc_mut a =
     (if ea_alloc_buf a \<noteq> []
      then (Ok (last (ea_alloc_buf a)), a\<lparr>ea_alloc_buf := butlast (ea_alloc_buf a)\<rparr>)
      else alloc_mut_slow a)"

definition max_index :: "entity_allocator \<Rightarrow> u32" where
  "max_index a = ea_fresh a - 1"

section \<open>Fresh ranges\<close>

definition fresh_view :: "fresh_entity_iter \<Rightarrow> entity_id list" where
  "fresh_view r = map (\<lambda>i. new_id (of_nat i) 1) [unat (fst r)..<unat (snd r)]"

lemma fresh_next_view:
  "fresh_next r =
     (case fresh_view r of [] \<Rightarrow> (None, r) | e # es \<Rightarrow> (Some e, (fst r + 1, snd r)))"
proof (cases "unat (fst r) < unat (snd r)")
  case True
  then show ?thesis
    by (auto simp: fresh_next_def fresh_view_def word_less_nat_alt upt_conv_Cons of_nat_unat_id
        split: prod.split)
next
  case False
  then show ?thesis
    by (auto simp: fresh_next_def fresh_view_def word_less_nat_alt split: prod.split)
qed

lemma fresh_view_Cons:
  assumes "fresh_view r = e # es"
  shows "fresh_view (fst r + 1, snd r) = es"
proof -
  have lt: "unat (fst r) < unat (snd r)"
    using assms by (cases "unat (fst r) < unat (snd r)") (auto simp: fresh_view_def)
  then have "unat (fst r + of_nat 1) = unat (fst r) + 1"
    by (intro unat_advance [of _ _ "snd r"]) simp
  then show ?thesis
    using assms lt by (simp add: fresh_view_def upt_conv_Cons)
qed

lemma fresh_len_view: "fresh_len r = length (fresh_view r)"
  by (simp add: fresh_len_def fresh_view_def range_len_eq)

lemma fresh_collect_view: "length (fresh_view r) \<le> n \<Longrightarrow> fresh_collect n r = fresh_view r"
proof (induction n arbitrary: r)
  case (Suc n)
  then show ?case
    by (cases "fresh_view r") (auto simp: fresh_next_view fresh_view_Cons)
qed simp

section \<open>The combined iterator\<close>

definition alloc_iter_view :: "alloc_entities_iter \<Rightarrow> entity_id list" where
  "alloc_iter_view it = iter_view (fst it) @ fresh_view (snd it)"

lemma alloc_iter_len_view: "alloc_iter_len it = length (alloc_iter_view it)"
  by (simp add: alloc_iter_len_def alloc_iter_view_def iter_len_view fresh_len_view)

lemma alloc_iter_next_Cons:
  assumes "iter_ready (fst it)" "alloc_iter_view it = e # es"
  obtains it' where "alloc_iter_next it = Some (Some e, it')" "iter_ready (fst it')"
    "alloc_iter_view it' = es"
proof (cases "iter_view (fst it)")
  case Nil
  with assms have "fresh_view (snd it) = e # es"
    by (simp add: alloc_iter_view_def)
  with assms(1) Nil show ?thesis
    by (intro that [of "(fst it, fst (snd it) + 1, snd (snd it))"])
      (auto simp: alloc_iter_next_def iter_next_Nil fresh_next_view alloc_iter_view_def
        fresh_view_Cons split: prod.split)
next
  case (Cons x xs)
  then obtain r where r: "iter_next (fst it) = Some (Some x, r)" "iter_ready r" "iter_view r = xs"
    using iter_next_Cons [OF assms(1)] by blast
  with Cons assms(2) show ?thesis
    by (intro that [of "(r, snd it)"])
      (auto simp: alloc_iter_next_def alloc_iter_view_def split: prod.split)
qed

lemma alloc_iter_next_Nil:
  "alloc_iter_view it = [] \<Longrightarrow> alloc_iter_next it = Some (None, it)"
  by (auto simp: alloc_iter_next_def alloc_iter_view_def iter_next_Nil fresh_next_view
      split: prod.split)

lemma alloc_iter_collect_view:
  "iter_ready (fst it) \<Longrightarrow> length (alloc_iter_view it) < fuel \<Longrightarrow>
     alloc_iter_collect fuel it = Some (alloc_iter_view it)"
proof (induction fuel arbitrary: it)
  case (Suc fuel)
  show ?case
  proof (cases "alloc_iter_view it")
    case Nil
    then show ?thesis by (simp add: alloc_iter_next_Nil)
  next
    case (Cons e es)
    with Suc.prems(1) obtain it' where "alloc_iter_next it = Some (Some e, it')"
      "iter_ready (fst it')" "alloc_iter_view it' = es"
      by (rule alloc_iter_next_Cons)
    with Suc Cons show ?thesis by simp
  qed
qed simp

section \<open>The invariant\<close>

text \<open>Everything the allocator may hand out without minting a new index.\<close>

definition pool :: "entity_allocator \<Rightarrow> entity_id list" where
  "pool a = fl_stack (ea_free a) @ ea_free_buf a @ ea_alloc_buf a"

text \<open>
  \<open>L\<close> is the set of slot indices handed out and not given back. The length field of the packed
  counter may fall below its bias, by one for every id that had to be minted; since ids are minted at
  most \<open>2 ^ 32\<close> times it never reaches the disable flag.
\<close>

definition indices_ok :: "entity_id list \<Rightarrow> u32 set \<Rightarrow> u32 \<Rightarrow> bool" where
  "indices_ok ids L fresh \<longleftrightarrow>
     distinct (map index ids) \<and> index ` set ids \<inter> L = {}
     \<and> (\<forall>i\<in>index ` set ids \<union> L. 1 \<le> unat i \<and> unat i < unat fresh)"

definition alloc_inv :: "entity_allocator \<Rightarrow> u32 set \<Rightarrow> bool" where
  "alloc_inv a L \<longleftrightarrow>
     fl_inv (ea_free a) \<and> 2 ^ 32 < fc_field (fl_len (ea_free a)) + unat (ea_fresh a)
     \<and> 1 \<le> unat (ea_fresh a)
     \<and> length (ea_free_buf a) \<le> LOCAL_SIZE \<and> length (ea_alloc_buf a) \<le> LOCAL_SIZE
     \<and> indices_ok (pool a) L (ea_fresh a)"

text \<open>The ids a batch of \<open>n\<close> takes, and the allocator it leaves.\<close>

definition missing :: "entity_allocator \<Rightarrow> u32 \<Rightarrow> nat" where
  "missing a n = unat n - fl_size (ea_free a)"

definition taken :: "entity_allocator \<Rightarrow> u32 \<Rightarrow> entity_id list" where
  "taken a n =
     drop (fl_size (ea_free a) - unat n) (fl_stack (ea_free a)) @
     map (\<lambda>i. new_id (of_nat i) 1) [unat (ea_fresh a)..<unat (ea_fresh a) + missing a n]"

definition after_take :: "entity_allocator \<Rightarrow> u32 \<Rightarrow> entity_allocator" where
  "after_take a n = a\<lparr>ea_free := (ea_free a)\<lparr>fl_len := fc_pop (fl_len (ea_free a)) n\<rparr>,
     ea_fresh := ea_fresh a + of_nat (missing a n)\<rparr>"

lemma indices_ok_length:
  assumes "indices_ok ids L fresh" "1 \<le> unat fresh"
  shows "length ids < unat fresh"
proof -
  have "length (map index ids) = card (index ` set ids)"
    using assms(1) distinct_card [of "map index ids"] by (simp add: indices_ok_def)
  also have "\<dots> = card (unat ` index ` set ids)"
    by (rule card_image [symmetric]) (simp add: inj_on_def word_unat_eq_iff)
  also have "\<dots> \<le> card {1..<unat fresh}"
    using assms(1) by (intro card_mono) (auto simp: indices_ok_def)
  finally show ?thesis
    using assms(2) by simp
qed

lemma indices_ok_fresh:
  assumes "indices_ok ids L n" "unat n + m < 2 ^ 32" "1 \<le> unat n"
  shows "indices_ok (ids @ map (\<lambda>i. new_id (of_nat i) 1) [unat n..<unat n + m]) L (n + of_nat m)"
proof -
  define N where "N = map (\<lambda>i. new_id (of_nat i) 1) [unat n..<unat n + m]"
  have u: "unat (n + of_nat m) = unat n + m"
    using assms(2) by (intro unat_add_small) simp
  have i: "unat (of_nat i :: u32) = i" if "i < unat n + m" for i
    using that assms(2) by (intro unat_of_nat_small) simp
  have old: "1 \<le> unat x \<and> unat x < unat n" if "x \<in> index ` set ids \<union> L" for x
    using assms(1) that by (auto simp: indices_ok_def)
  have new: "unat n \<le> unat x \<and> unat x < unat n + m" if "x \<in> index ` set N" for x
    using that i by (auto simp: N_def)
  have "inj_on (\<lambda>i. of_nat i :: u32) {unat n..<unat n + m}"
    by (rule inj_onI) (metis atLeastLessThan_iff i)
  then have "distinct (map index N)"
    by (simp add: N_def distinct_map comp_def)
  moreover have "index ` set ids \<inter> index ` set N = {}"
    using old new by fastforce
  ultimately have "distinct (map index (ids @ N))"
    using assms(1) by (simp add: indices_ok_def)
  moreover have "index ` set (ids @ N) \<inter> L = {}"
  proof -
    have "index ` set N \<inter> L = {}"
      using old new by fastforce
    with assms(1) show ?thesis
      by (auto simp: indices_ok_def)
  qed
  moreover have "1 \<le> unat x \<and> unat x < unat (n + of_nat m)"
    if "x \<in> index ` set (ids @ N) \<union> L" for x
  proof -
    from that consider "x \<in> index ` set ids \<union> L" | "x \<in> index ` set N"
      by auto
    then show ?thesis
      using old [of x] new [of x] assms(3) u by cases auto
  qed
  ultimately show ?thesis
    by (simp add: indices_ok_def flip: N_def)
qed

lemma indices_ok_move:
  assumes "indices_ok (xs @ ys) L n"
  shows "indices_ok xs (L \<union> index ` set ys) n" "distinct (map index ys)" "index ` set ys \<inter> L = {}"
  using assms by (auto simp: indices_ok_def)

lemma indices_ok_mset:
  "mset xs = mset ys \<Longrightarrow> indices_ok xs L n = indices_ok ys L n"
  by (metis (no_types, lifting) distinct_count_atmost_1 indices_ok_def mset_eq_setD mset_map)

text \<open>A batch that the counter can serve takes ids that are distinct and not handed out.\<close>

lemma take_batch:
  assumes inv: "alloc_inv a L" and ok: "unat (ea_fresh a) + missing a n < 2 ^ 32"
  shows "unat n \<le> fc_field (fl_len (ea_free a))" "length (taken a n) = unat n"
    "alloc_inv (after_take a n) (L \<union> index ` set (taken a n))"
    "distinct (map index (taken a n))" "index ` set (taken a n) \<inter> L = {}"
    "unat (ea_fresh (after_take a n)) = unat (ea_fresh a) + missing a n"
proof -
  let ?fl = "ea_free a" and ?m = "missing a n"
  let ?k = "fl_size ?fl - unat n"
  have sz: "fl_size ?fl = fc_field (fl_len ?fl) - 2 ^ 32"
    by (simp add: fl_size_def unat_fc_length)
  show le: "unat n \<le> fc_field (fl_len ?fl)"
    using inv ok sz by (auto simp: alloc_inv_def missing_def)
  show len: "length (taken a n) = unat n"
    by (simp add: taken_def missing_def)
  show fr: "unat (ea_fresh (after_take a n)) = unat (ea_fresh a) + ?m"
    using ok by (simp add: after_take_def unat_add_small)
  have fli: "fl_inv ?fl"
    using inv by (simp add: alloc_inv_def)
  note pop = fl_pop_inv [OF fli le]
  have pool': "pool (after_take a n) = take ?k (fl_stack ?fl) @ ea_free_buf a @ ea_alloc_buf a"
    by (simp add: pool_def after_take_def pop(3))
  have "indices_ok (pool a @ map (\<lambda>i. new_id (of_nat i) 1)
      [unat (ea_fresh a)..<unat (ea_fresh a) + ?m]) L (ea_fresh (after_take a n))"
    using indices_ok_fresh [of "pool a" L "ea_fresh a" ?m] inv ok
    by (simp add: alloc_inv_def after_take_def)
  moreover have "mset (pool a) = mset (pool (after_take a n)) + mset (drop ?k (fl_stack ?fl))"
  proof -
    have "mset (fl_stack ?fl) = mset (take ?k (fl_stack ?fl)) + mset (drop ?k (fl_stack ?fl))"
      by (metis append_take_drop_id mset_append)
    then show ?thesis
      unfolding pool' by (simp add: pool_def)
  qed
  ultimately have ok': "indices_ok (pool (after_take a n) @ taken a n) L (ea_fresh (after_take a n))"
    by (subst indices_ok_mset [where ys = "pool a @ map (\<lambda>i. new_id (of_nat i) 1)
          [unat (ea_fresh a)..<unat (ea_fresh a) + ?m]"]) (simp_all add: taken_def)
  note mv = indices_ok_move [OF ok']
  show "distinct (map index (taken a n))" "index ` set (taken a n) \<inter> L = {}"
    by (fact mv(2), fact mv(3))
  have "2 ^ 32 < fc_field (fl_len (ea_free (after_take a n))) + unat (ea_fresh (after_take a n))"
    using inv le sz unfolding fr by (auto simp: after_take_def pop(4) alloc_inv_def missing_def)
  then show "alloc_inv (after_take a n) (L \<union> index ` set (taken a n))"
    using inv mv(1) pop(1) fr by (simp add: alloc_inv_def after_take_def)
qed

lemma indices_ok_give:
  assumes "indices_ok xs L n" "index ` set ys \<subseteq> L" "distinct (map index ys)"
  shows "indices_ok (xs @ ys) (L - index ` set ys) n"
  using assms by (auto simp: indices_ok_def)

section \<open>The operations keep the invariant\<close>

lemma fl_size_bound: "alloc_inv a L \<Longrightarrow> length (pool a) < 2 ^ 32"
  using indices_ok_length [of "pool a" L "ea_fresh a"] unat_less_power [of "ea_fresh a"]
  by (simp add: alloc_inv_def)

lemma allocator_new_inv: "alloc_inv allocator_new {}"
  using free_list_new_stack
  by (simp add: alloc_inv_def allocator_new_def fresh_new_def pool_def indices_ok_def)

lemma flush_inv:
  assumes "alloc_inv a L" "mset (fl_stack (ea_free a) @ ys @ zs) = mset (pool a)"
    "length ys + length zs \<le> length (ea_free_buf a) + length (ea_alloc_buf a)"
  shows "fl_inv (free_list_free (ea_free a) ys) \<and>
     fl_stack (free_list_free (ea_free a) ys) = fl_stack (ea_free a) @ ys \<and>
     2 ^ 32 \<le> fc_field (fl_len (free_list_free (ea_free a) ys))"
proof -
  have "fl_size (ea_free a) + length ys < 2 ^ 32"
    using fl_size_bound [OF assms(1)] assms(2,3) by (auto simp: pool_def)
  then show ?thesis
    using free_list_free_stack [of "ea_free a" ys] assms(1) by (simp add: alloc_inv_def)
qed

lemma allocator_free_inv:
  assumes inv: "alloc_inv a L" and e: "index e \<in> L"
  shows "alloc_inv (allocator_free a e) (L - {index e})"
proof -
  let ?g = "\<lambda>b. b\<lparr>ea_free_buf := ea_free_buf b @ [e]\<rparr>"
  have give: "alloc_inv (?g b) (L - {index e})"
    if "alloc_inv b L" "length (ea_free_buf b) < LOCAL_SIZE" for b
  proof -
    have "indices_ok (pool b @ [e]) (L - index ` set [e]) (ea_fresh b)"
      using that(1) e by (intro indices_ok_give) (simp_all add: alloc_inv_def)
    then have "indices_ok (pool (?g b)) (L - {index e}) (ea_fresh b)"
      by (subst indices_ok_mset [where ys = "pool b @ [e]"]) (simp_all add: pool_def)
    then show ?thesis
      using that by (simp add: alloc_inv_def)
  qed
  show ?thesis
  proof (cases "length (ea_free_buf a) = LOCAL_SIZE")
    case False
    then show ?thesis
      using give [OF inv] inv by (simp add: allocator_free_def alloc_inv_def)
  next
    case True
    let ?b = "a\<lparr>ea_free := free_list_free (ea_free a) (ea_free_buf a), ea_free_buf := []\<rparr>"
    have fl: "fl_inv (ea_free ?b)" "fl_stack (ea_free ?b) = fl_stack (ea_free a) @ ea_free_buf a"
      "2 ^ 32 \<le> fc_field (fl_len (ea_free ?b))"
      using flush_inv [OF inv, of "ea_free_buf a" "ea_alloc_buf a"] by (simp_all add: pool_def)
    have "pool ?b = pool a"
      using fl(2) by (simp add: pool_def)
    with fl inv have "alloc_inv ?b L"
      by (simp add: alloc_inv_def)
    from give [OF this] True show ?thesis
      by (simp add: allocator_free_def LOCAL_SIZE_def)
  qed
qed

lemma allocator_free_many_inv:
  assumes inv: "alloc_inv a L" and es: "index ` set es \<subseteq> L" "distinct (map index es)"
  shows "alloc_inv (allocator_free_many a es) (L - index ` set es)"
proof -
  let ?b = "allocator_free_many a es"
  have ok: "indices_ok (pool a @ es) (L - index ` set es) (ea_fresh a)"
    using inv es by (intro indices_ok_give) (simp_all add: alloc_inv_def)
  have "length (pool a @ es) < 2 ^ 32"
    using indices_ok_length [OF ok] inv unat_less_power [of "ea_fresh a"]
    by (simp add: alloc_inv_def)
  then have "fl_size (ea_free a) + length es < 2 ^ 32"
    by (simp add: pool_def)
  then have fl: "fl_inv (ea_free ?b)" "fl_stack (ea_free ?b) = fl_stack (ea_free a) @ es"
    "2 ^ 32 \<le> fc_field (fl_len (ea_free ?b))"
    using free_list_free_stack [of "ea_free a" es] inv
    by (simp_all add: alloc_inv_def allocator_free_many_def)
  have "mset (pool ?b) = mset (pool a @ es)"
    using fl(2) by (simp add: pool_def) (simp add: allocator_free_many_def)
  then have "indices_ok (pool ?b) (L - index ` set es) (ea_fresh a)"
    using ok indices_ok_mset by metis
  with fl inv show ?thesis
    by (simp add: alloc_inv_def) (simp add: allocator_free_many_def)
qed

lemma allocator_alloc_many_result:
  assumes inv: "alloc_inv a L"
  shows "if unat (ea_fresh a) + missing a n < 2 ^ 32
    then \<exists>it. allocator_alloc_many a n = (Ok it, after_take a n) \<and> iter_ready (fst it)
           \<and> alloc_iter_view it = taken a n
    else fst (allocator_alloc_many a n) = Panic"
proof -
  obtain it where it: "free_list_alloc_many (ea_free a) n
      = (Ok it, (ea_free a)\<lparr>fl_len := fc_pop (fl_len (ea_free a)) n\<rparr>)" "iter_ready it"
    "iter_view it = drop (fl_size (ea_free a) - unat n) (fl_stack (ea_free a))"
    using free_list_alloc_many_stack inv by (auto simp: alloc_inv_def)
  have "n - of_nat (iter_len it) = of_nat (missing a n)"
  proof -
    have "iter_len it = min (unat n) (fl_size (ea_free a))"
      by (simp add: iter_len_view it(3))
    moreover have "missing a n = unat n - min (unat n) (fl_size (ea_free a))"
      by (simp add: missing_def)
    ultimately show ?thesis
      by (simp add: of_nat_unat_id)
  qed
  moreover have "unat (of_nat (missing a n) :: u32) = missing a n"
    using unat_less_power [of n] by (intro unat_of_nat_small) (simp add: missing_def)
  moreover have "checked_add (ea_fresh a) (of_nat (missing a n)) =
      (if unat (ea_fresh a) + missing a n < 2 ^ 32
       then Some (ea_fresh a + of_nat (missing a n)) else None)"
    using calculation(2) by (simp add: checked_add_def)
  ultimately show ?thesis
    using it by (auto simp: allocator_alloc_many_def Let_def fresh_alloc_many_def after_take_def
        alloc_iter_view_def fresh_view_def taken_def unat_add_small)
qed

lemma allocator_alloc_result:
  assumes inv: "alloc_inv a L"
  shows "if unat (ea_fresh a) + missing a 1 < 2 ^ 32
    then \<exists>e. allocator_alloc a = (Ok e, after_take a 1) \<and> taken a 1 = [e]
    else fst (allocator_alloc a) = Panic"
proof (cases "fl_stack (ea_free a) = []")
  case True
  then have "fl_size (ea_free a) = 0"
    by (simp flip: fl_stack_length)
  then have m: "missing a 1 = 1" "taken a 1 = [new_id (ea_fresh a) 1]"
    using True by (simp_all add: missing_def taken_def of_nat_unat_id)
  have fl: "free_list_alloc (ea_free a) = (Ok None, (ea_free a)\<lparr>fl_len := fc_pop (fl_len (ea_free a)) 1\<rparr>)"
    using True free_list_alloc_stack [of "ea_free a"] inv by (simp add: alloc_inv_def)
  show ?thesis
    using m fl
    by (auto simp: allocator_alloc_def fresh_alloc_def checked_add_def after_take_def)
next
  case False
  then have sz: "0 < fl_size (ea_free a)"
    by (simp flip: fl_stack_length)
  then have m: "missing a 1 = 0"
    by (simp add: missing_def)
  have t: "taken a 1 = [last (fl_stack (ea_free a))]"
  proof -
    have "drop (fl_size (ea_free a) - 1) (fl_stack (ea_free a)) = [last (fl_stack (ea_free a))]"
      using False by (metis append_butlast_last_id append_eq_conv_conj fl_stack_length
          length_butlast)
    then show ?thesis
      using m by (simp add: taken_def)
  qed
  show ?thesis
    using False m t free_list_alloc_stack [of "ea_free a"] inv unat_less_power [of "ea_fresh a"]
    by (simp add: allocator_alloc_def after_take_def alloc_inv_def)
qed

lemma allocator_alloc_mut_result:
  assumes inv: "alloc_inv a L"
  shows "if ea_alloc_buf a \<noteq> []
    then allocator_alloc_mut a
      = (Ok (last (ea_alloc_buf a)), a\<lparr>ea_alloc_buf := butlast (ea_alloc_buf a)\<rparr>)
    else if unat (ea_fresh a) + missing a 128 < 2 ^ 32
    then allocator_alloc_mut a
      = (Ok (hd (taken a 128)), (after_take a 128)\<lparr>ea_alloc_buf := tl (taken a 128)\<rparr>)
    else fst (allocator_alloc_mut a) = Panic"
proof (cases "ea_alloc_buf a = []")
  case False
  then show ?thesis by (simp add: allocator_alloc_mut_def)
next
  case True
  have c: "of_nat LOCAL_SIZE + 1 = (128 :: u32)"
    by (simp add: LOCAL_SIZE_def)
  show ?thesis
  proof (cases "unat (ea_fresh a) + missing a 128 < 2 ^ 32")
    case ok: False
    then have "fst (allocator_alloc_many a 128) = Panic"
      using allocator_alloc_many_result [OF inv, of 128] by simp
    with ok True show ?thesis
      by (auto simp: allocator_alloc_mut_def alloc_mut_slow_def c split: prod.splits)
  next
    case ok: True
    then obtain it where it: "allocator_alloc_many a 128 = (Ok it, after_take a 128)"
      "iter_ready (fst it)" "alloc_iter_view it = taken a 128"
      using allocator_alloc_many_result [OF inv, of 128] by auto
    have "length (taken a 128) = 128"
      using take_batch(2) [OF inv ok] by simp
    then obtain e es where es: "taken a 128 = e # es"
      by (cases "taken a 128") auto
    obtain it' where it': "alloc_iter_next it = Some (Some e, it')" "iter_ready (fst it')"
      "alloc_iter_view it' = es"
      using alloc_iter_next_Cons [OF it(2)] it(3) es by metis
    have "iter_collect (Suc (iter_len (fst it'))) (fst it') = Some (iter_view (fst it'))"
      using iter_collect_view [OF it'(2), of "Suc (iter_len (fst it'))"]
      by (simp add: iter_len_view del: iter_collect.simps)
    moreover have "fresh_collect (fresh_len (snd it')) (snd it') = fresh_view (snd it')"
      by (simp add: fresh_collect_view fresh_len_view)
    ultimately show ?thesis
      using True ok it(1) it'(1,3) es
      by (cases it; cases it')
        (auto simp: allocator_alloc_mut_def alloc_mut_slow_def c alloc_iter_view_def after_take_def
          simp del: iter_collect.simps)
  qed
qed

lemma local_buffer_inv:
  assumes inv: "alloc_inv a L" and "ea_alloc_buf a \<noteq> []"
  shows "alloc_inv (a\<lparr>ea_alloc_buf := butlast (ea_alloc_buf a)\<rparr>)
      (insert (index (last (ea_alloc_buf a))) L)" "index (last (ea_alloc_buf a)) \<notin> L"
proof -
  let ?b = "a\<lparr>ea_alloc_buf := butlast (ea_alloc_buf a)\<rparr>"
  have "pool a = pool ?b @ [last (ea_alloc_buf a)]"
    using assms(2) by (simp add: pool_def)
  with inv have ok: "indices_ok (pool ?b @ [last (ea_alloc_buf a)]) L (ea_fresh a)"
    by (simp add: alloc_inv_def)
  from indices_ok_move [OF ok] inv
  show "alloc_inv ?b (insert (index (last (ea_alloc_buf a))) L)" "index (last (ea_alloc_buf a)) \<notin> L"
    by (auto simp: alloc_inv_def)
qed

lemma refill_inv:
  assumes inv: "alloc_inv a L" and "ea_alloc_buf a = []"
    and ok: "unat (ea_fresh a) + missing a 128 < 2 ^ 32"
  shows "alloc_inv ((after_take a 128)\<lparr>ea_alloc_buf := tl (taken a 128)\<rparr>)
      (insert (index (hd (taken a 128))) L)" "index (hd (taken a 128)) \<notin> L"
proof -
  note t = take_batch [OF inv ok]
  then obtain e es where es: "taken a 128 = e # es"
    by (cases "taken a 128") auto
  let ?b = "(after_take a 128)\<lparr>ea_alloc_buf := es\<rparr>"
  show "index (hd (taken a 128)) \<notin> L"
    using t(5) es by auto
  have "indices_ok (pool (after_take a 128) @ es)
      (L \<union> index ` set (taken a 128) - index ` set es) (ea_fresh ?b)"
    using t(3,4) es by (intro indices_ok_give) (auto simp: alloc_inv_def)
  moreover have "L \<union> index ` set (taken a 128) - index ` set es = insert (index e) L"
    using t(4,5) es by auto
  moreover have "pool ?b = pool (after_take a 128) @ es"
    using assms(2) by (simp add: pool_def after_take_def)
  moreover have "length es \<le> LOCAL_SIZE"
    using t(2) es by (simp add: LOCAL_SIZE_def)
  ultimately show "alloc_inv ((after_take a 128)\<lparr>ea_alloc_buf := tl (taken a 128)\<rparr>)
      (insert (index (hd (taken a 128))) L)"
    using t(3) es by (simp add: alloc_inv_def)
qed

section \<open>Every use of the allocator\<close>

inductive alloc_step ::
  "entity_allocator \<times> u32 set \<Rightarrow> entity_allocator \<times> u32 set \<Rightarrow> bool" where
  step_alloc: "allocator_alloc a = (Ok e, a') \<Longrightarrow> alloc_step (a, L) (a', insert (index e) L)"
| step_alloc_mut: "allocator_alloc_mut a = (Ok e, a') \<Longrightarrow>
    alloc_step (a, L) (a', insert (index e) L)"
| step_alloc_many: "allocator_alloc_many a n = (Ok it, a') \<Longrightarrow>
    alloc_iter_collect (Suc (alloc_iter_len it)) it = Some es \<Longrightarrow>
    alloc_step (a, L) (a', L \<union> index ` set es)"
| step_free: "index e \<in> L \<Longrightarrow> alloc_step (a, L) (allocator_free a e, L - {index e})"
| step_free_many: "index ` set es \<subseteq> L \<Longrightarrow> distinct (map index es) \<Longrightarrow>
    alloc_step (a, L) (allocator_free_many a es, L - index ` set es)"

inductive alloc_reachable :: "entity_allocator \<times> u32 set \<Rightarrow> bool" where
  alloc_start: "alloc_reachable (allocator_new, {})"
| alloc_more: "alloc_reachable s \<Longrightarrow> alloc_step s t \<Longrightarrow> alloc_reachable t"

lemma collect_taken:
  assumes "alloc_inv a L" "allocator_alloc_many a n = (Ok it, a')"
  shows "unat (ea_fresh a) + missing a n < 2 ^ 32" "a' = after_take a n"
    "alloc_iter_collect (Suc (alloc_iter_len it)) it = Some (taken a n)"
proof -
  show ok: "unat (ea_fresh a) + missing a n < 2 ^ 32"
    using allocator_alloc_many_result [OF assms(1), of n] assms(2) by (auto split: if_splits)
  show "a' = after_take a n"
    using allocator_alloc_many_result [OF assms(1), of n] assms(2) ok by auto
  have "iter_ready (fst it)" "alloc_iter_view it = taken a n"
    using allocator_alloc_many_result [OF assms(1), of n] assms(2) ok by auto
  then show "alloc_iter_collect (Suc (alloc_iter_len it)) it = Some (taken a n)"
    using alloc_iter_collect_view [of it "Suc (alloc_iter_len it)"]
    by (simp add: alloc_iter_len_view del: alloc_iter_collect.simps)
qed

lemma alloc_taken:
  assumes "alloc_inv a L" "allocator_alloc a = (Ok e, a')"
  shows "unat (ea_fresh a) + missing a 1 < 2 ^ 32" "a' = after_take a 1" "taken a 1 = [e]"
  using allocator_alloc_result [OF assms(1)] assms(2) by (auto split: if_splits)

lemma alloc_mut_taken:
  assumes inv: "alloc_inv a L" and "allocator_alloc_mut a = (Ok e, a')"
  shows "alloc_inv a' (insert (index e) L) \<and> index e \<notin> L"
proof (cases "ea_alloc_buf a = []")
  case False
  then show ?thesis
    using allocator_alloc_mut_result [OF inv] assms(2) local_buffer_inv [OF inv False] by auto
next
  case True
  then have ok: "unat (ea_fresh a) + missing a 128 < 2 ^ 32"
    using allocator_alloc_mut_result [OF inv] assms(2) by (auto split: if_splits)
  then show ?thesis
    using True allocator_alloc_mut_result [OF inv] assms(2) refill_inv [OF inv True ok] by auto
qed

lemma alloc_step_inv:
  assumes "alloc_step (a, L) (a', L')" and inv: "alloc_inv a L"
  shows "alloc_inv a' L'"
  using assms(1)
proof cases
  case (step_alloc e)
  with alloc_taken [OF inv] take_batch(3) [OF inv, of 1] show ?thesis
    by force
next
  case (step_alloc_mut e)
  with alloc_mut_taken [OF inv] show ?thesis
    by blast
next
  case (step_alloc_many n it es)
  with collect_taken [OF inv, of n it a'] take_batch(3) [OF inv, of n] show ?thesis
    by (simp del: alloc_iter_collect.simps)
qed (use inv in \<open>auto intro: allocator_free_inv allocator_free_many_inv\<close>)

lemma alloc_reachable_inv: "alloc_reachable s \<Longrightarrow> alloc_inv (fst s) (snd s)"
proof (induction rule: alloc_reachable.induct)
  case alloc_start
  show ?case by (simp add: allocator_new_inv)
next
  case (alloc_more s t)
  then show ?case
    by (metis alloc_step_inv prod.collapse)
qed

section \<open>Properties\<close>

text \<open>C1: however a caller uses the allocator, no slot index is handed out twice: in every
  reachable state, an id returned by \<^verbatim>\<open>alloc\<close>, \<^verbatim>\<open>alloc_mut\<close> or \<^verbatim>\<open>alloc_many\<close> has an index that is
  not among those handed out and not given back, and the ids of one batch have different
  indices.\<close>
theorem allocator_never_aliases:
  assumes "alloc_reachable (a, L)"
  shows "(\<forall>e a'. allocator_alloc a = (Ok e, a') \<longrightarrow> index e \<notin> L)
    \<and> (\<forall>e a'. allocator_alloc_mut a = (Ok e, a') \<longrightarrow> index e \<notin> L)
    \<and> (\<forall>n it a'. allocator_alloc_many a n = (Ok it, a') \<longrightarrow>
         (\<exists>es. alloc_iter_collect (Suc (alloc_iter_len it)) it = Some es
           \<and> length es = unat n \<and> distinct (map index es) \<and> index ` set es \<inter> L = {}))"
proof (intro conjI allI impI)
  have inv: "alloc_inv a L"
    using alloc_reachable_inv [OF assms] by simp
  fix e a' n it
  show "index e \<notin> L" if "allocator_alloc a = (Ok e, a')"
    using alloc_taken [OF inv that] take_batch(5) [OF inv, of 1] by simp
  show "index e \<notin> L" if "allocator_alloc_mut a = (Ok e, a')"
    using alloc_mut_taken [OF inv that] by simp
  show "\<exists>es. alloc_iter_collect (Suc (alloc_iter_len it)) it = Some es
      \<and> length es = unat n \<and> distinct (map index es) \<and> index ` set es \<inter> L = {}"
    if "allocator_alloc_many a n = (Ok it, a')"
    using collect_taken [OF inv that] take_batch(2,4,5) [OF inv, of n]
    by (simp del: alloc_iter_collect.simps)
qed

theorem allocator_never_aliases_witness:
  "\<exists>a. alloc_reachable (a, {1}) \<and> (\<forall>e a'. allocator_alloc a = (Ok e, a') \<longrightarrow> index e \<noteq> 1)"
proof -
  have "taken allocator_new 1 = [new_id 1 1]" "missing allocator_new 1 = 1"
    using free_list_new_stack
    by (simp_all add: taken_def missing_def allocator_new_def fresh_new_def of_nat_unat_id
        flip: fl_stack_length)
  then obtain a where "allocator_alloc allocator_new = (Ok (new_id 1 1), a)"
    using allocator_alloc_result [OF allocator_new_inv]
    by (auto simp: allocator_new_def fresh_new_def)
  from step_alloc [OF this, of "{}"] have "alloc_reachable (a, {1})"
    using alloc_start alloc_more by fastforce
  with allocator_never_aliases [OF this] show ?thesis
    by auto
qed



text \<open>C32: the index space is bounded by use: in every reachable state every index in circulation,
  handed out or pooled, lies between one and \<^verbatim>\<open>max_index\<close>, the local buffers never exceed their
  127 slots, and the length field of the packed counter has not borrowed from the
  disable flag, which is clear.\<close>
theorem allocator_bounds:
  assumes "alloc_reachable (a, L)"
  shows "length (ea_free_buf a) \<le> LOCAL_SIZE \<and> length (ea_alloc_buf a) \<le> LOCAL_SIZE
    \<and> \<not> is_disabled (fl_len (ea_free a))
    \<and> (\<forall>i\<in>index ` set (pool a) \<union> L. 1 \<le> unat i \<and> unat i \<le> unat (max_index a))"
proof -
  have inv: "alloc_inv a L"
    using alloc_reachable_inv [OF assms] by simp
  then have "unat (max_index a) = unat (ea_fresh a) - 1"
    by (simp add: max_index_def alloc_inv_def unat_sub word_le_nat_alt)
  moreover have "1 \<le> unat i \<and> unat i < unat (ea_fresh a)" if "i \<in> index ` set (pool a) \<union> L" for i
    using inv that by (simp add: alloc_inv_def indices_ok_def)
  ultimately have "1 \<le> unat i \<and> unat i \<le> unat (max_index a)"
    if "i \<in> index ` set (pool a) \<union> L" for i
    using that by (metis Suc_diff_1 Suc_leI le_less_trans less_Suc_eq_le zero_le)
  with inv show ?thesis
    by (simp add: alloc_inv_def fl_inv_def)
qed

theorem allocator_bounds_witness:
  "\<not> is_disabled (fl_len (ea_free allocator_new)) \<and> length (ea_alloc_buf allocator_new) \<le> LOCAL_SIZE"
  using allocator_bounds [OF alloc_start] by blast

end
