(* ===== verification/Allocator_Concurrency.thy ===== *)
theory Allocator_Concurrency
  imports Entity_Allocator
begin

text \<open>
  Remote allocation (\<^verbatim>\<open>FreeList::remote_alloc\<close>, \<^verbatim>\<open>RemoteAllocator::alloc\<close>) interleaved with the owner's
  \<^verbatim>\<open>alloc\<close> and \<^verbatim>\<open>free_many\<close>, one step per access to shared memory, under sequential consistency:
  the remote threads load the packed counter, read the slot below its length and claim it by
  compare-and-swap; the owner pops with a fetch-and-subtract, and frees by setting the disable flag, writing
  the buffer and storing the new state. Any number of remote threads run; one thread owns the
  allocator, so that a free, which borrows it mutably, does not overlap with the owner's own
  \<^verbatim>\<open>alloc\<close>. The number of pops is a ghost counter, and a remote thread remembers the count at
  its last load. The generation field has 30 bits, so a claim can be trusted only if fewer than
  \<open>2 ^ 30\<close> pops happened since the load: \<open>window_ok\<close> is that condition.
\<close>

section \<open>The interleaved machine\<close>

datatype remote_pc =
    RIdle
  | RLoaded u64 nat
  | RRead u64 nat entity_id
  | RFresh

datatype owner_pc =
    OIdle
  | OPopped u64
  | ODisabled u64 "entity_id list"
  | OWritten u64 "entity_id list"

record machine =
  c_buf :: free_buffer
  c_len :: u64
  c_fresh :: u32
  c_owner :: owner_pc
  c_remote :: "nat \<Rightarrow> remote_pc"
  c_pops :: nat
  c_live :: "u32 set"

definition machine_init :: machine where
  "machine_init = \<lparr>c_buf = buffer_new, c_len = LENGTH_0, c_fresh = fresh_new, c_owner = OIdle,
     c_remote = (\<lambda>_. RIdle), c_pops = 0, c_live = {}\<rparr>"

definition set_remote :: "machine \<Rightarrow> nat \<Rightarrow> remote_pc \<Rightarrow> machine" where
  "set_remote m t pc = m\<lparr>c_remote := (c_remote m)(t := pc)\<rparr>"

inductive mstep :: "machine \<Rightarrow> machine \<Rightarrow> bool" where
  remote_load: "c_remote m t = RIdle \<Longrightarrow> mstep m (set_remote m t (RLoaded (c_len m) (c_pops m)))"
| remote_wait: "c_remote m t = RLoaded s p \<Longrightarrow> is_disabled s \<Longrightarrow>
    mstep m (set_remote m t (RLoaded (c_len m) (c_pops m)))"
| remote_empty: "c_remote m t = RLoaded s p \<Longrightarrow> \<not> is_disabled s \<Longrightarrow>
    checked_sub (fc_length s) 1 = None \<Longrightarrow> mstep m (set_remote m t RFresh)"
| remote_read: "c_remote m t = RLoaded s p \<Longrightarrow> \<not> is_disabled s \<Longrightarrow>
    checked_sub (fc_length s) 1 = Some i \<Longrightarrow> buffer_get (c_buf m) i = Some e \<Longrightarrow>
    mstep m (set_remote m t (RRead s p e))"
| remote_claim: "c_remote m t = RRead s p e \<Longrightarrow>
    try_set_state (c_len m) s (fc_pop s 1) = (Ok (), c) \<Longrightarrow>
    mstep m ((set_remote m t RIdle)\<lparr>c_len := c, c_pops := Suc (c_pops m),
      c_live := insert (index e) (c_live m)\<rparr>)"
| remote_retry: "c_remote m t = RRead s p e \<Longrightarrow>
    try_set_state (c_len m) s (fc_pop s 1) = (Err actual, c) \<Longrightarrow>
    mstep m (set_remote m t (RLoaded actual (c_pops m)))"
| remote_fresh: "c_remote m t = RFresh \<Longrightarrow> fresh_alloc (c_fresh m) = (Ok e, n) \<Longrightarrow>
    mstep m ((set_remote m t RIdle)\<lparr>c_fresh := n, c_live := insert (index e) (c_live m)\<rparr>)"
| owner_pop: "c_owner m = OIdle \<Longrightarrow> pop_for_state (c_len m) 1 = (old, c) \<Longrightarrow>
    mstep m (m\<lparr>c_len := c, c_pops := Suc (c_pops m), c_owner := OPopped old\<rparr>)"
| owner_take: "c_owner m = OPopped old \<Longrightarrow> checked_sub (fc_length old) 1 = Some i \<Longrightarrow>
    buffer_get (c_buf m) i = Some e \<Longrightarrow>
    mstep m (m\<lparr>c_owner := OIdle, c_live := insert (index e) (c_live m)\<rparr>)"
| owner_fresh: "c_owner m = OPopped old \<Longrightarrow> checked_sub (fc_length old) 1 = None \<Longrightarrow>
    fresh_alloc (c_fresh m) = (Ok e, n) \<Longrightarrow>
    mstep m (m\<lparr>c_owner := OIdle, c_fresh := n, c_live := insert (index e) (c_live m)\<rparr>)"
| owner_disable: "c_owner m = OIdle \<Longrightarrow> index ` set es \<subseteq> c_live m \<Longrightarrow> distinct (map index es) \<Longrightarrow>
    disable_for_state (c_len m) = (old, c) \<Longrightarrow>
    mstep m (m\<lparr>c_len := c, c_owner := ODisabled old es, c_live := c_live m - index ` set es\<rparr>)"
| owner_write: "c_owner m = ODisabled old es \<Longrightarrow>
    mstep m (m\<lparr>c_buf := buffer_set_slice (c_buf m) (fc_length old) es,
      c_owner := OWritten old es\<rparr>)"
| owner_store: "c_owner m = OWritten old es \<Longrightarrow>
    mstep m (m\<lparr>c_len := set_state_risky (c_len m)
        (with_length old (fc_length old + of_nat (length es))), c_owner := OIdle\<rparr>)"

definition window_ok :: "machine \<Rightarrow> bool" where
  "window_ok m \<longleftrightarrow>
     (\<forall>t s p. c_remote m t = RLoaded s p \<longrightarrow> c_pops m - p < 2 ^ 30) \<and>
     (\<forall>t s p e. c_remote m t = RRead s p e \<longrightarrow> c_pops m - p < 2 ^ 30)"

inductive mreachable :: "machine \<Rightarrow> bool" where
  machine_start: "mreachable machine_init"
| machine_step: "mreachable m \<Longrightarrow> mstep m m' \<Longrightarrow> window_ok m' \<Longrightarrow> mreachable m'"

section \<open>The invariant\<close>

definition m_size :: "machine \<Rightarrow> nat" where
  "m_size m = unat (fc_length (c_len m))"

definition m_stack :: "machine \<Rightarrow> entity_id list" where
  "m_stack m = slots buffer_get (c_buf m) (m_size m)"

text \<open>Ids neither on the list nor handed out: being freed, or popped by the owner and not read yet.\<close>

fun in_flight :: "free_buffer \<Rightarrow> owner_pc \<Rightarrow> entity_id list" where
  "in_flight b OIdle = []"
| "in_flight b (OPopped old) =
     (case checked_sub (fc_length old) 1 of None \<Rightarrow> [] | Some i \<Rightarrow> [the (buffer_get b i)])"
| "in_flight b (ODisabled old es) = es"
| "in_flight b (OWritten old es) = es"

fun owner_ok :: "free_buffer \<Rightarrow> u64 \<Rightarrow> owner_pc \<Rightarrow> bool" where
  "owner_ok b c OIdle \<longleftrightarrow> \<not> is_disabled c"
| "owner_ok b c (OPopped old) \<longleftrightarrow> \<not> is_disabled c \<and> filled buffer_get b (unat (fc_length old))
     \<and> fc_field c < fc_field old"
| "owner_ok b c (ODisabled old es) \<longleftrightarrow> \<not> is_disabled old \<and> c = old OR DISABLING_BIT"
| "owner_ok b c (OWritten old es) \<longleftrightarrow> \<not> is_disabled old \<and> c = old OR DISABLING_BIT
     \<and> filled buffer_get b (unat (fc_length old) + length es)
     \<and> slots buffer_get b (unat (fc_length old) + length es) =
         slots buffer_get b (unat (fc_length old)) @ es"

text \<open>The owner has popped an empty list and is about to mint an id.\<close>

fun minting :: "owner_pc \<Rightarrow> nat" where
  "minting (OPopped old) = (if fc_length old = 0 then 1 else 0)"
| "minting pc = 0"

text \<open>What a remote thread knows of the state it loaded.\<close>

definition loaded_ok :: "free_buffer \<Rightarrow> u64 \<Rightarrow> nat \<Rightarrow> u64 \<Rightarrow> nat \<Rightarrow> bool" where
  "loaded_ok b c pops s p \<longleftrightarrow> p \<le> pops
     \<and> (fc_gen c + (pops - p)) mod 2 ^ 30 = fc_gen s
     \<and> filled buffer_get b (unat (fc_length s))
     \<and> (p = pops \<longrightarrow> fc_field s \<le> fc_field c)"

fun remote_ok :: "free_buffer \<Rightarrow> u64 \<Rightarrow> nat \<Rightarrow> remote_pc \<Rightarrow> bool" where
  "remote_ok b c pops (RLoaded s p) \<longleftrightarrow> loaded_ok b c pops s p"
| "remote_ok b c pops (RRead s p e) \<longleftrightarrow> loaded_ok b c pops s p \<and> \<not> is_disabled s
     \<and> 0 < unat (fc_length s)
     \<and> (p = pops \<longrightarrow> buffer_get b (of_nat (unat (fc_length s) - 1)) = Some e)"
| "remote_ok b c pops pc \<longleftrightarrow> True"

definition minv :: "machine \<Rightarrow> bool" where
  "minv m \<longleftrightarrow> buffer_inv (c_buf m) \<and> filled buffer_get (c_buf m) (m_size m)
     \<and> 1 \<le> unat (c_fresh m)
     \<and> 2 ^ 32 < fc_field (c_len m) + unat (c_fresh m) + minting (c_owner m)
     \<and> indices_ok (m_stack m @ in_flight (c_buf m) (c_owner m)) (c_live m) (c_fresh m)
     \<and> owner_ok (c_buf m) (c_len m) (c_owner m)
     \<and> (\<forall>t. remote_ok (c_buf m) (c_len m) (c_pops m) (c_remote m t))"

section \<open>Steps on the counter and the remote threads\<close>

lemma disable_fields:
  assumes "\<not> is_disabled s"
  shows "fc_field (s OR DISABLING_BIT) = fc_field s" "is_disabled (s OR DISABLING_BIT)"
    "fc_gen (s OR DISABLING_BIT) = fc_gen s"
proof -
  have split: "unat s = fc_field s + 2 ^ 34 * fc_gen s"
    using fc_split [of s] assms by simp
  have "s OR DISABLING_BIT = s + 2 ^ 33"
    using assms set_bit_eq [of 33 s] unfolding is_disabled_bit DISABLING_BIT_def
    by (simp only: set_bit_eq_or [symmetric]) simp
  moreover have "unat s + 2 ^ 33 < 2 ^ 64"
    using split fc_field_less [of s] fc_gen_less [of s] by simp
  ultimately have "unat (s OR DISABLING_BIT) = unat s + 2 ^ 33"
    by (simp add: unat_word_ariths)
  then have "unat (s OR DISABLING_BIT)
      = fc_field s + 2 ^ 33 * of_bool True + 2 ^ 34 * fc_gen s"
    using split by simp
  from fc_fields_unique [OF this fc_field_less]
  show "fc_field (s OR DISABLING_BIT) = fc_field s" "is_disabled (s OR DISABLING_BIT)"
    "fc_gen (s OR DISABLING_BIT) = fc_gen s"
    by simp_all
qed

lemma fc_length_field_mono:
  "fc_field s \<le> fc_field c \<Longrightarrow> unat (fc_length s) \<le> unat (fc_length c)"
  by (simp add: unat_fc_length)

lemma fc_length_field_cong: "fc_field s = fc_field c \<Longrightarrow> fc_length s = fc_length c"
  by (simp add: word_unat_eq_iff unat_fc_length)

lemma loaded_ok_now:
  "filled buffer_get b (unat (fc_length c)) \<Longrightarrow> loaded_ok b c pops c pops"
  using fc_gen_less [of c] by (simp add: loaded_ok_def)

lemma loaded_ok_pop:
  assumes "loaded_ok b c pops s p" "1 \<le> fc_field c"
  shows "loaded_ok b (fc_pop c 1) (Suc pops) s p"
proof -
  have "(fc_gen c + (2 ^ 30 - 1) + (Suc pops - p)) mod 2 ^ 30 = (fc_gen c + (pops - p)) mod 2 ^ 30"
  proof -
    have "fc_gen c + (2 ^ 30 - 1) + (Suc pops - p) = fc_gen c + (pops - p) + 2 ^ 30"
      using assms(1) by (simp add: loaded_ok_def)
    then show ?thesis
      by (simp only: mod_add_self2)
  qed
  moreover have "fc_gen (fc_pop c 1) = (fc_gen c + (2 ^ 30 - 1)) mod 2 ^ 30"
    using assms(2) by (intro fc_pop_fields) simp
  ultimately have "(fc_gen (fc_pop c 1) + (Suc pops - p)) mod 2 ^ 30 = fc_gen s"
    using assms(1) by (simp only: mod_add_left_eq loaded_ok_def)
  then show ?thesis
    using assms(1) unfolding loaded_ok_def by auto
qed

lemma remote_ok_pop:
  "remote_ok b c pops pc \<Longrightarrow> 1 \<le> fc_field c \<Longrightarrow> remote_ok b (fc_pop c 1) (Suc pops) pc"
  by (cases pc) (auto simp: loaded_ok_pop, auto simp: loaded_ok_def)

lemma remote_ok_store:
  "remote_ok b c pops pc \<Longrightarrow> fc_gen c' = fc_gen c \<Longrightarrow> fc_field c \<le> fc_field c' \<Longrightarrow>
     remote_ok b c' pops pc"
  by (cases pc) (auto simp: loaded_ok_def)

lemma remote_ok_write:
  assumes "remote_ok b c pops pc" "buffer_inv b" "unat n + length es < 2 ^ 32"
    "unat (fc_length c) \<le> unat n"
  shows "remote_ok (buffer_set_slice b n es) c pops pc"
proof -
  let ?b = "buffer_set_slice b n es"
  have l: "loaded_ok ?b c pops s p" if "loaded_ok b c pops s p" for s p
    using that fb.filled_set_slice [OF assms(2) _ assms(3)] unfolding loaded_ok_def by blast
  show ?thesis
  proof (cases pc)
    case (RRead s p e)
    let ?i = "of_nat (unat (fc_length s) - 1) :: u32"
    have "buffer_get ?b ?i = Some e" if "p = pops"
    proof (rule fb.get_set_slice_out [OF assms(2,3)])
      have "unat ?i = unat (fc_length s) - 1"
        using unat_less_power [of "fc_length s"] by (intro unat_of_nat_small) simp
      moreover have "unat (fc_length s) \<le> unat (fc_length c)" "0 < unat (fc_length s)"
        using assms(1) RRead that by (auto simp: loaded_ok_def intro: fc_length_field_mono)
      ultimately show "unat ?i < unat n \<or> unat n + length es \<le> unat ?i"
        using assms(4) by linarith
      show "buffer_get b ?i = Some e"
        using assms(1) RRead that by (simp del: of_nat_diff)
    qed
    with assms(1) RRead l show ?thesis by (simp del: of_nat_diff)
  qed (use assms(1) l in auto)
qed

lemma claimed_entity:
  assumes "remote_ok b c pops (RRead s p e)" "pops - p < 2 ^ 30" "c = s"
  shows "p = pops \<and> buffer_get b (of_nat (unat (fc_length c) - 1)) = Some e"
proof -
  have "(fc_gen c + (pops - p)) mod 2 ^ 30 = fc_gen c" "p \<le> pops"
    using assms(1,3) by (auto simp: loaded_ok_def)
  moreover have "(fc_gen c + d) mod 2 ^ 30 \<noteq> fc_gen c" if "0 < d" "d < 2 ^ 30" for d :: nat
  proof (cases "fc_gen c + d < 2 ^ 30")
    case False
    then have "(fc_gen c + d) mod 2 ^ 30 = fc_gen c + d - 2 ^ 30"
      using that fc_gen_less [of c] by (simp add: mod_if)
    then show ?thesis
      using that False by simp
  qed (use that in simp)
  ultimately have "\<not> 0 < pops - p"
    using assms(2) by blast
  then have "p = pops"
    using \<open>p \<le> pops\<close> by simp
  with assms show ?thesis by (simp del: of_nat_diff)
qed

section \<open>Every step keeps the invariant\<close>

lemma set_remote_simps [simp]:
  "c_buf (set_remote m t pc) = c_buf m" "c_len (set_remote m t pc) = c_len m"
  "c_fresh (set_remote m t pc) = c_fresh m" "c_owner (set_remote m t pc) = c_owner m"
  "c_pops (set_remote m t pc) = c_pops m" "c_live (set_remote m t pc) = c_live m"
  "c_remote (set_remote m t pc) = (c_remote m)(t := pc)"
  by (simp_all add: set_remote_def)

lemma minv_set_remote:
  assumes "minv m" "remote_ok (c_buf m) (c_len m) (c_pops m) pc"
  shows "minv (set_remote m t pc)"
  using assms by (simp add: minv_def m_size_def m_stack_def)

lemma minv_reload: "minv m \<Longrightarrow> minv (set_remote m t (RLoaded (c_len m) (c_pops m)))"
  by (rule minv_set_remote) (auto simp: minv_def m_size_def intro: loaded_ok_now)

lemma minv_read:
  assumes "minv m" "c_remote m t = RLoaded s p" "\<not> is_disabled s"
    "checked_sub (fc_length s) 1 = Some i" "buffer_get (c_buf m) i = Some e"
  shows "minv (set_remote m t (RRead s p e))"
proof (rule minv_set_remote [OF assms(1)])
  have "loaded_ok (c_buf m) (c_len m) (c_pops m) s p"
    using assms(1,2) unfolding minv_def by (metis remote_ok.simps(1))
  moreover have i: "0 < unat (fc_length s)" "unat i = unat (fc_length s) - 1"
    using checked_sub_unat [OF assms(4)] by auto
  then have "of_nat (unat (fc_length s) - 1) = i"
    using of_nat_unat_id [of i] by simp
  ultimately show "remote_ok (c_buf m) (c_len m) (c_pops m) (RRead s p e)"
    using assms(3,5) i(1) by (simp del: of_nat_diff)
qed

lemma fresh_alloc_inv:
  assumes "indices_ok ids L n" "1 \<le> unat n" "fresh_alloc n = (Ok e, n')"
  shows "indices_ok ids (insert (index e) L) n' \<and> unat n' = unat n + 1"
proof -
  have n': "unat n + 1 < 2 ^ 32" "n' = n + of_nat 1" "e = new_id n 1"
    using assms(3) by (auto simp: fresh_alloc_def checked_add_def split: if_splits)
  have "indices_ok (ids @ [e]) L n'"
    using indices_ok_fresh [OF assms(1) n'(1) assms(2)] n'(2,3) by (simp add: of_nat_unat_id)
  from indices_ok_move(1) [OF this] show ?thesis
    using n' unat_add_small [of n 1] by simp
qed

lemma m_stack_pop:
  assumes "0 < unat (fc_length c)"
  shows "slots get b (unat (fc_length c)) =
     slots get b (unat (fc_length (fc_pop c 1))) @ [the (get b (of_nat (unat (fc_length c) - 1)))]"
    "unat (fc_length (fc_pop c 1)) = unat (fc_length c) - 1"
    "fc_field (fc_pop c 1) = fc_field c - 1" "2 ^ 32 < fc_field c"
proof -
  show f: "2 ^ 32 < fc_field c"
    using assms by (simp add: unat_fc_length)
  then show p: "fc_field (fc_pop c 1) = fc_field c - 1"
    using fc_pop_fields(1) [of 1 c] by simp
  then show l: "unat (fc_length (fc_pop c 1)) = unat (fc_length c) - 1"
    by (simp add: unat_fc_length)
  obtain k where "unat (fc_length c) = Suc k"
    using assms not0_implies_Suc by blast
  with l show "slots get b (unat (fc_length c)) =
     slots get b (unat (fc_length (fc_pop c 1))) @ [the (get b (of_nat (unat (fc_length c) - 1)))]"
    by (simp add: slots_def)
qed

lemma filled_pop:
  assumes "filled get b (unat (fc_length c))" "1 \<le> fc_field c"
  shows "filled get b (unat (fc_length (fc_pop c 1)))"
  using assms fc_pop_fields(1) [of 1 c] by (auto simp: unat_fc_length intro: filled_mono [rotated])

lemma minv_claim:
  assumes inv: "minv m" and w: "window_ok m" and r: "c_remote m t = RRead s p e" and c: "c_len m = s"
  shows "minv ((set_remote m t RIdle)\<lparr>c_len := fc_pop s 1, c_pops := Suc (c_pops m),
      c_live := insert (index e) (c_live m)\<rparr>)"
    "e = last (m_stack m)" "m_stack m \<noteq> []" "index e \<notin> c_live m"
proof -
  let ?c = "c_len m" and ?b = "c_buf m"
  have rok: "remote_ok ?b ?c (c_pops m) (RRead s p e)"
    using inv r unfolding minv_def by metis
  have top: "buffer_get ?b (of_nat (unat (fc_length ?c) - 1)) = Some e"
    using claimed_entity [OF rok _ c] w r unfolding window_ok_def by blast
  have pos: "0 < unat (fc_length ?c)" and nd: "\<not> is_disabled ?c"
    using rok c by auto
  note pop = m_stack_pop [OF pos]
  have stack: "m_stack m = slots buffer_get ?b (unat (fc_length (fc_pop ?c 1))) @ [e]"
    using pop(1) [of buffer_get ?b] top by (simp add: m_stack_def m_size_def)
  then show "e = last (m_stack m)" "m_stack m \<noteq> []"
    by simp_all
  let ?st = "slots buffer_get ?b (unat (fc_length (fc_pop ?c 1)))"
  have "indices_ok ((?st @ in_flight ?b (c_owner m)) @ [e]) (c_live m) (c_fresh m)"
    using inv by (subst indices_ok_mset [where ys = "m_stack m @ in_flight ?b (c_owner m)"])
      (simp_all add: stack minv_def)
  note mv = indices_ok_move [OF this]
  then show "index e \<notin> c_live m" by simp
  have own: "owner_ok ?b (fc_pop ?c 1) (c_owner m)"
    using inv nd pop(3,4) fc_pop_fields(2) [of 1 ?c]
    by (cases "c_owner m") (auto simp: minv_def disable_fields)
  have f: "1 \<le> fc_field ?c"
    using pop(4) by simp
  show "minv ((set_remote m t RIdle)\<lparr>c_len := fc_pop s 1, c_pops := Suc (c_pops m),
      c_live := insert (index e) (c_live m)\<rparr>)"
    using inv mv(1) own pop(3,4) f c remote_ok_pop [of ?b ?c "c_pops m"]
      filled_pop [of buffer_get ?b ?c]
    by (auto simp: minv_def m_size_def m_stack_def)
qed

lemma minv_owner_pop:
  assumes inv: "minv m" and o: "c_owner m = OIdle"
  shows "minv (m\<lparr>c_len := fc_pop (c_len m) 1, c_pops := Suc (c_pops m),
      c_owner := OPopped (c_len m)\<rparr>)"
proof -
  let ?c = "c_len m" and ?b = "c_buf m"
  have f: "1 \<le> fc_field ?c"
    using inv o unat_less_power [of "c_fresh m"] by (simp add: minv_def)
  note pf = fc_pop_fields [of 1 ?c]
  have rem: "\<forall>t. remote_ok ?b (fc_pop ?c 1) (Suc (c_pops m)) (c_remote m t)"
    using inv f remote_ok_pop by (simp add: minv_def)
  have own: "owner_ok ?b (fc_pop ?c 1) (OPopped ?c)"
    using inv o pf f by (auto simp: minv_def m_size_def)
  show ?thesis
  proof (cases "fc_length ?c = 0")
    case True
    then have "checked_sub (fc_length ?c) 1 = None"
      by (simp add: checked_sub_None_iff)
    moreover have "fc_length (fc_pop ?c 1) = 0"
      using True pf(1) f by (simp add: word_unat_eq_iff unat_fc_length)
    ultimately show ?thesis
      using inv o True rem own pf f filled_pop [of buffer_get ?b ?c]
      by (auto simp: minv_def m_size_def m_stack_def)
  next
    case False
    then have pos: "0 < unat (fc_length ?c)"
      by (simp add: unat_gt_0)
    have i: "checked_sub (fc_length ?c) 1 = Some (of_nat (unat (fc_length ?c) - 1))"
      using pos by (simp add: checked_sub_def word_le_nat_alt of_nat_unat_id)
    note pop = m_stack_pop [OF pos]
    have "indices_ok (slots buffer_get ?b (unat (fc_length (fc_pop ?c 1)))
        @ in_flight ?b (OPopped ?c)) (c_live m) (c_fresh m)"
      using inv o pop(1) [of buffer_get ?b] i
      by (simp add: minv_def m_size_def m_stack_def del: of_nat_diff)
    then show ?thesis
      using inv o False rem own pop(3,4) f filled_pop [of buffer_get ?b ?c]
      by (auto simp: minv_def m_size_def m_stack_def)
  qed
qed

lemma minv_owner_take:
  assumes inv: "minv m" and o: "c_owner m = OPopped old"
    and i: "checked_sub (fc_length old) 1 = Some i" and e: "buffer_get (c_buf m) i = Some e"
  shows "minv (m\<lparr>c_owner := OIdle, c_live := insert (index e) (c_live m)\<rparr>)" "index e \<notin> c_live m"
proof -
  have "fc_length old \<noteq> 0"
    using checked_sub_unat [OF i] by auto
  moreover have "indices_ok (m_stack m @ [e]) (c_live m) (c_fresh m)"
    using inv o i e by (simp add: minv_def)
  note mv = indices_ok_move [OF this]
  ultimately show "minv (m\<lparr>c_owner := OIdle, c_live := insert (index e) (c_live m)\<rparr>)"
    "index e \<notin> c_live m"
    using inv o mv by (auto simp: minv_def m_size_def m_stack_def)
qed

lemma minv_owner_fresh:
  assumes inv: "minv m" and o: "c_owner m = OPopped old"
    and i: "checked_sub (fc_length old) 1 = None" and e: "fresh_alloc (c_fresh m) = (Ok e, n)"
  shows "minv (m\<lparr>c_owner := OIdle, c_fresh := n, c_live := insert (index e) (c_live m)\<rparr>)"
proof -
  have "indices_ok (m_stack m) (c_live m) (c_fresh m)"
    using inv o i by (simp add: minv_def)
  from fresh_alloc_inv [OF this _ e] inv o show ?thesis
    by (auto simp: minv_def m_size_def m_stack_def split: if_splits)
qed

lemma minv_remote_fresh:
  assumes inv: "minv m" and e: "fresh_alloc (c_fresh m) = (Ok e, n)"
  shows "minv ((set_remote m t RIdle)\<lparr>c_fresh := n, c_live := insert (index e) (c_live m)\<rparr>)"
  using fresh_alloc_inv [OF _ _ e] inv by (auto simp: minv_def m_size_def m_stack_def)

lemma minv_disable:
  assumes inv: "minv m" and o: "c_owner m = OIdle"
    and es: "index ` set es \<subseteq> c_live m" "distinct (map index es)"
  shows "minv (m\<lparr>c_len := c_len m OR DISABLING_BIT, c_owner := ODisabled (c_len m) es,
      c_live := c_live m - index ` set es\<rparr>)"
proof -
  have nd: "\<not> is_disabled (c_len m)"
    using inv o by (simp add: minv_def)
  note d = disable_fields [OF nd]
  have "indices_ok (m_stack m @ es) (c_live m - index ` set es) (c_fresh m)"
    using inv o es by (intro indices_ok_give) (simp_all add: minv_def)
  moreover have "remote_ok (c_buf m) (c_len m OR DISABLING_BIT) (c_pops m) (c_remote m t)" for t
    using inv d remote_ok_store [of "c_buf m" "c_len m"] by (simp add: minv_def)
  ultimately show ?thesis
    using inv o nd d fc_length_field_cong [OF d(1)]
    by (simp add: minv_def m_size_def m_stack_def)
qed

lemma minv_write:
  assumes inv: "minv m" and o: "c_owner m = ODisabled old es"
  shows "minv (m\<lparr>c_buf := buffer_set_slice (c_buf m) (fc_length old) es,
      c_owner := OWritten old es\<rparr>)"
proof -
  let ?b = "c_buf m"
  have nd: "\<not> is_disabled old" and c: "c_len m = old OR DISABLING_BIT"
    using inv o by (auto simp: minv_def)
  have len: "fc_length (c_len m) = fc_length old"
    unfolding c using disable_fields(1) [OF nd] by (rule fc_length_field_cong)
  have b: "buffer_inv ?b" and fl: "filled buffer_get ?b (unat (fc_length old))"
    using inv len by (auto simp: minv_def m_size_def)
  have ok: "indices_ok (m_stack m @ es) (c_live m) (c_fresh m)"
    using inv o by (simp add: minv_def)
  have bound: "unat (fc_length old) + length es < 2 ^ 32"
    using indices_ok_length [OF ok] inv len unat_less_power [of "c_fresh m"]
    by (simp add: minv_def m_stack_def m_size_def slots_def)
  have st: "slots buffer_get (buffer_set_slice ?b (fc_length old) es) (unat (fc_length old))
      = slots buffer_get ?b (unat (fc_length old))"
    using fb.slots_set_slice_above [OF b fl _ bound] by simp
  have "\<forall>t. remote_ok (buffer_set_slice ?b (fc_length old) es) (c_len m) (c_pops m) (c_remote m t)"
    using inv len remote_ok_write [OF _ b bound] by (simp add: minv_def)
  then show ?thesis
    using inv o len nd c st ok fb.invar_set_slice [OF b bound] fb.filled_append [OF b fl bound]
      fb.slots_append [OF b fl bound] fb.filled_set_slice [OF b fl bound]
    by (simp add: minv_def m_size_def m_stack_def)
qed

lemma minv_store:
  assumes inv: "minv m" and o: "c_owner m = OWritten old es"
  shows "minv (m\<lparr>c_len := with_length old (fc_length old + of_nat (length es)),
      c_owner := OIdle\<rparr>)"
proof -
  let ?c = "with_length old (fc_length old + of_nat (length es))"
  have nd: "\<not> is_disabled old" and c: "c_len m = old OR DISABLING_BIT"
    using inv o by (auto simp: minv_def)
  note d = disable_fields [OF nd]
  have len: "fc_length (c_len m) = fc_length old"
    unfolding c using d(1) by (rule fc_length_field_cong)
  have ok: "indices_ok (m_stack m @ es) (c_live m) (c_fresh m)"
    using inv o by (simp add: minv_def)
  have bound: "unat (fc_length old) + length es < 2 ^ 32"
    using indices_ok_length [OF ok] inv len unat_less_power [of "c_fresh m"]
    by (simp add: minv_def m_stack_def m_size_def slots_def)
  then have u: "unat (fc_length old + of_nat (length es)) = unat (fc_length old) + length es"
    by (intro unat_add_small) simp
  have "fc_field (c_len m) \<le> fc_field ?c"
    unfolding c d(1) by (simp add: with_length_fields u unat_fc_length)
  moreover have "fc_gen ?c = fc_gen (c_len m)"
    unfolding c d(3) by (simp add: with_length_fields)
  ultimately have "remote_ok (c_buf m) ?c (c_pops m) (c_remote m t)" for t
    using inv remote_ok_store [of "c_buf m" "c_len m"] by (simp add: minv_def)
  then show ?thesis
    using inv o len nd u ok
    by (simp add: minv_def m_size_def m_stack_def with_length_fields)
qed

lemma mstep_inv:
  assumes "mstep m m'" "minv m" "window_ok m"
  shows "minv m'"
  using assms
proof cases
  case (remote_load t)
  with assms show ?thesis by (simp add: minv_reload)
next
  case (remote_wait t s p)
  with assms show ?thesis by (simp add: minv_reload)
next
  case (remote_empty t s p)
  with assms show ?thesis by (simp add: minv_set_remote)
next
  case (remote_read t s p i e)
  with assms show ?thesis by (simp add: minv_read)
next
  case (remote_claim t s p e c)
  with assms minv_claim(1) [OF assms(2,3)] show ?thesis
    by (auto simp: try_set_state_def split: if_splits)
next
  case (remote_retry t s p e actual c)
  with assms show ?thesis
    by (auto simp: try_set_state_def minv_reload split: if_splits)
next
  case (remote_fresh t e n)
  with assms show ?thesis by (simp add: minv_remote_fresh)
next
  case (owner_pop old c)
  with assms show ?thesis by (auto simp: pop_for_state_eq minv_owner_pop)
next
  case (owner_take old i e)
  with assms show ?thesis by (simp add: minv_owner_take)
next
  case (owner_fresh old e n)
  with assms show ?thesis by (simp add: minv_owner_fresh)
next
  case (owner_disable es old c)
  with assms show ?thesis by (auto simp: disable_for_state_def minv_disable)
next
  case (owner_write old es)
  with assms show ?thesis by (simp add: minv_write)
next
  case (owner_store old es)
  with assms show ?thesis by (simp add: set_state_risky_def minv_store)
qed

lemma machine_init_inv: "minv machine_init"
proof -
  have "fc_field LENGTH_0 = 2 ^ 32" "\<not> is_disabled LENGTH_0" "fl_size free_list_new = 0"
    using free_list_new_stack by (auto simp: free_list_new_def fl_inv_def simp flip: fl_stack_length)
  then show ?thesis
    by (simp add: minv_def machine_init_def m_size_def m_stack_def fresh_new_def indices_ok_def
        buffer_new_inv filled_def slots_def fl_size_def free_list_new_def)
qed

lemma mreachable_inv: "mreachable m \<Longrightarrow> minv m \<and> window_ok m"
proof (induction rule: mreachable.induct)
  case machine_start
  show ?case
    by (simp add: machine_init_inv) (simp add: machine_init_def window_ok_def)
next
  case (machine_step m m')
  then show ?case by (blast intro: mstep_inv)
qed

section \<open>Properties\<close>

text \<open>C5: a remote claim takes the right id: in every reachable interleaving, when the
  compare-and-swap of a remote thread is about to succeed, the id it read earlier is still the top
  of the free list, its index is not handed out, and no free is in progress.\<close>
theorem remote_claim_safe:
  assumes "mreachable m" "c_remote m t = RRead s p e"
    "try_set_state (c_len m) s (fc_pop s 1) = (Ok (), c)"
  shows "m_stack m \<noteq> [] \<and> e = last (m_stack m) \<and> index e \<notin> c_live m
    \<and> \<not> is_disabled (c_len m)"
proof -
  have inv: "minv m" "window_ok m"
    using mreachable_inv [OF assms(1)] by auto
  have c: "c_len m = s"
    using assms(3) by (auto simp: try_set_state_def split: if_splits)
  have "remote_ok (c_buf m) (c_len m) (c_pops m) (RRead s p e)"
    using inv(1) assms(2) unfolding minv_def by metis
  then show ?thesis
    using minv_claim(2-4) [OF inv assms(2) c] c by simp
qed

text \<open>A run in which the owner mints an id, frees it, and a remote thread reads it.\<close>

lemma freed_id_read:
  obtains m c where "mreachable m" "c_remote m 0 = RRead (c_len m) 1 (new_id 1 1)"
    "try_set_state (c_len m) (c_len m) (fc_pop (c_len m) 1) = (Ok (), c)"
proof -
  let ?e = "new_id 1 1"
  define l1 where "l1 = fc_pop LENGTH_0 1"
  define b where "b = buffer_set_slice buffer_new 0 [?e]"
  have f0: "fc_field LENGTH_0 = 2 ^ 32"
    using free_list_new_stack by (simp add: free_list_new_def)
  have z0: "fc_length LENGTH_0 = 0"
    by (simp add: word_unat_eq_iff unat_fc_length f0)
  have "fc_field l1 = 2 ^ 32 - 1"
    using fc_pop_fields(1) [of 1 LENGTH_0] by (simp add: l1_def f0)
  then have z1: "fc_length l1 = 0"
    by (simp add: word_unat_eq_iff unat_fc_length)
  have nd: "\<not> is_disabled l1"
    using fc_pop_fields(2) [of 1 LENGTH_0] free_list_new_stack
    by (simp add: l1_def f0 free_list_new_def fl_inv_def)
  let ?l2 = "with_length l1 1"
  have z2: "fc_length ?l2 = 1"
    using fl_size_with_length [of l1 1] by (simp add: word_unat_eq_iff)
  have g: "buffer_get b 0 = Some ?e"
    unfolding b_def using fb.get_set_slice_in [OF buffer_new_inv, of 0 "[?e]" 0] by simp
  have fr: "fresh_alloc 1 = (Ok ?e, 2)"
    by (simp add: fresh_alloc_def checked_add_def)
  let ?m1 = "machine_init\<lparr>c_len := l1, c_pops := 1, c_owner := OPopped LENGTH_0\<rparr>"
  let ?m2 = "machine_init\<lparr>c_len := l1, c_pops := 1, c_fresh := 2, c_live := {1}\<rparr>"
  let ?m3 = "machine_init\<lparr>c_len := l1 OR DISABLING_BIT, c_pops := 1, c_fresh := 2,
    c_owner := ODisabled l1 [?e]\<rparr>"
  let ?m4 = "machine_init\<lparr>c_len := l1 OR DISABLING_BIT, c_pops := 1, c_fresh := 2, c_buf := b,
    c_owner := OWritten l1 [?e]\<rparr>"
  let ?m5 = "machine_init\<lparr>c_len := ?l2, c_pops := 1, c_fresh := 2, c_buf := b\<rparr>"
  let ?m6 = "set_remote ?m5 0 (RLoaded ?l2 1)" and ?m7 = "set_remote ?m5 0 (RRead ?l2 1 ?e)"
  have w: "window_ok ?m1" "window_ok ?m2" "window_ok ?m3" "window_ok ?m4" "window_ok ?m5"
    "window_ok ?m6" "window_ok ?m7"
    by (simp_all add: window_ok_def machine_init_def)
  have "mstep machine_init ?m1"
    using mstep.owner_pop [of machine_init LENGTH_0 l1]
    by (simp add: machine_init_def pop_for_state_eq l1_def)
  then have r1: "mreachable ?m1"
    by (rule machine_step [OF machine_start _ w(1)])
  have "mstep ?m1 ?m2"
    using mstep.owner_fresh [of ?m1 LENGTH_0 ?e 2] fr
    by (simp add: machine_init_def z0 checked_sub_None_iff fresh_new_def)
  then have r2: "mreachable ?m2"
    by (rule machine_step [OF r1 _ w(2)])
  have "mstep ?m2 ?m3"
    using mstep.owner_disable [of ?m2 "[?e]"] by (simp add: machine_init_def disable_for_state_def)
  then have r3: "mreachable ?m3"
    by (rule machine_step [OF r2 _ w(3)])
  have "mstep ?m3 ?m4"
    using mstep.owner_write [of ?m3 l1 "[?e]"] by (simp add: machine_init_def z1 b_def)
  then have r4: "mreachable ?m4"
    by (rule machine_step [OF r3 _ w(4)])
  have "mstep ?m4 ?m5"
    using mstep.owner_store [of ?m4 l1 "[?e]"]
    by (simp add: machine_init_def set_state_risky_def z1)
  then have r5: "mreachable ?m5"
    by (rule machine_step [OF r4 _ w(5)])
  have "mstep ?m5 ?m6"
    using mstep.remote_load [of ?m5 0] by (simp add: machine_init_def)
  then have r6: "mreachable ?m6"
    by (rule machine_step [OF r5 _ w(6)])
  have "mstep ?m6 ?m7"
    using mstep.remote_read [of ?m6 0 ?l2 1 0 ?e] g nd
    by (simp add: z2 checked_sub_def with_length_fields set_remote_def)
  then have "mreachable ?m7"
    by (rule machine_step [OF r6 _ w(7)])
  then show ?thesis
    by (rule that) (simp_all add: try_set_state_def)
qed

theorem remote_claim_safe_witness:
  "\<exists>m. mreachable m \<and> m_stack m \<noteq> [] \<and> new_id 1 1 = last (m_stack m)"
proof -
  obtain m c where m: "mreachable m" "c_remote m 0 = RRead (c_len m) 1 (new_id 1 1)"
    "try_set_state (c_len m) (c_len m) (fc_pop (c_len m) 1) = (Ok (), c)"
    by (rule freed_id_read)
  from remote_claim_safe [OF this] m(1) show ?thesis
    by blast
qed



end
