(* ===== verification/Slice_Search.thy ===== *)
theory Slice_Search
  imports Entity_Id
begin

text \<open>
  Chunked parallel slice operations (\<^verbatim>\<open>zlim-task/src/slice.rs\<close>) and the entity searches that use
  them (\<^verbatim>\<open>zlim-core/src/utils/helper.rs\<close>). A slice is cut into chunks, one task per chunk runs a
  clone of the closure, and the results are combined in the order the tasks were spawned. A
  closure that implements \<^verbatim>\<open>FnMut\<close> is a function that also takes and returns its captured state,
  so that a clone is a task starting again from the initial captured state. \<open>threads\<close> is
  \<open>None\<close> in builds without the \<^verbatim>\<open>multi_thread\<close> path, otherwise the thread count of the pool.
\<close>

section \<open>Chunks and closures\<close>

text \<open>\<^verbatim>\<open>slice::chunks\<close>, whose chunk size is not zero.\<close>

function chunks :: "nat \<Rightarrow> 'a list \<Rightarrow> 'a list list" where
  "chunks n xs = (if xs = [] \<or> n = 0 then [] else take n xs # chunks n (drop n xs))"
  by pat_completeness auto
termination
  by (relation "measure (\<lambda>(n, xs). length xs)") auto

declare chunks.simps [simp del]

fun run_map :: "('s \<Rightarrow> 'a \<Rightarrow> 'r \<times> 's) \<Rightarrow> 's \<Rightarrow> 'a list \<Rightarrow> 'r list" where
  "run_map f s [] = []"
| "run_map f s (x # xs) = (case f s x of (r, s') \<Rightarrow> r # run_map f s' xs)"

fun run_position :: "('s \<Rightarrow> 'a \<Rightarrow> bool \<times> 's) \<Rightarrow> 's \<Rightarrow> 'a list \<Rightarrow> nat option" where
  "run_position f s [] = None"
| "run_position f s (x # xs) =
     (case f s x of (r, s') \<Rightarrow> if r then Some 0 else map_option Suc (run_position f s' xs))"

definition par_chunk_size :: "nat \<Rightarrow> 'a list \<Rightarrow> nat" where
  "par_chunk_size threads xs = max (length xs div max threads 1) 1"

definition par_chunks :: "nat \<Rightarrow> 'a list \<Rightarrow> 'a list list" where
  "par_chunks threads xs = chunks (par_chunk_size threads xs) xs"

section \<open>The operations\<close>

definition par_contains :: "nat option \<Rightarrow> 'a list \<Rightarrow> 'a \<Rightarrow> bool" where
  "par_contains threads xs v =
     (case threads of
        Some t \<Rightarrow> list_ex id (map (\<lambda>c. v \<in> set c) (par_chunks t xs))
      | None \<Rightarrow> v \<in> set xs)"

fun first_offset :: "nat \<Rightarrow> (nat \<times> nat option) list \<Rightarrow> nat option" where
  "first_offset sz [] = None"
| "first_offset sz ((i, Some offset) # rs) = Some (i * sz + offset)"
| "first_offset sz ((i, None) # rs) = first_offset sz rs"

definition par_position ::
  "nat option \<Rightarrow> ('s \<Rightarrow> 'a \<Rightarrow> bool \<times> 's) \<Rightarrow> 's \<Rightarrow> 'a list \<Rightarrow> nat option" where
  "par_position threads f s xs =
     (case threads of
        Some t \<Rightarrow>
          first_offset (par_chunk_size t xs)
            (map (\<lambda>(i, c). (i, run_position f s c)) (List.enumerate 0 (par_chunks t xs)))
      | None \<Rightarrow> run_position f s xs)"

text \<open>A closure over mutable elements returns the new element with its result.\<close>

definition par_each_mut ::
  "nat option \<Rightarrow> ('s \<Rightarrow> 'a \<Rightarrow> 'a \<times> 's) \<Rightarrow> 's \<Rightarrow> 'a list \<Rightarrow> 'a list" where
  "par_each_mut threads f s xs =
     (case threads of
        Some t \<Rightarrow> concat (map (run_map f s) (par_chunks t xs))
      | None \<Rightarrow> run_map f s xs)"

definition par_map :: "nat option \<Rightarrow> ('s \<Rightarrow> 'a \<Rightarrow> 'r \<times> 's) \<Rightarrow> 's \<Rightarrow> 'a list \<Rightarrow> 'r list" where
  "par_map threads f s xs =
     (case threads of
        Some t \<Rightarrow> foldl (\<lambda>result items. result @ items) [] (map (run_map f s) (par_chunks t xs))
      | None \<Rightarrow> run_map f s xs)"

definition par_map_mut ::
  "nat option \<Rightarrow> ('s \<Rightarrow> 'a \<Rightarrow> ('r \<times> 'a) \<times> 's) \<Rightarrow> 's \<Rightarrow> 'a list \<Rightarrow> 'r list \<times> 'a list" where
  "par_map_mut threads f s xs =
     (case threads of
        Some t \<Rightarrow>
          let outs = map (run_map f s) (par_chunks t xs)
          in (foldl (\<lambda>result items. result @ map fst items) [] outs,
              concat (map (map snd) outs))
      | None \<Rightarrow> let d = run_map f s xs in (map fst d, map snd d))"

definition par_splat_map :: "nat option \<Rightarrow> ('a list \<Rightarrow> 'r) \<Rightarrow> 'a list \<Rightarrow> 'r list" where
  "par_splat_map threads f xs =
     (case threads of Some t \<Rightarrow> map f (par_chunks t xs) | None \<Rightarrow> [f xs])"

definition par_splat_map_mut ::
  "nat option \<Rightarrow> ('a list \<Rightarrow> 'r \<times> 'a list) \<Rightarrow> 'a list \<Rightarrow> 'r list \<times> 'a list" where
  "par_splat_map_mut threads f xs =
     (case threads of
        Some t \<Rightarrow> (map (fst \<circ> f) (par_chunks t xs), concat (map (snd \<circ> f) (par_chunks t xs)))
      | None \<Rightarrow> ([fst (f xs)], snd (f xs)))"

section \<open>Searches over entity slices\<close>

definition THRESHOLD :: nat where
  "THRESHOLD = 64000"

definition contains_entity :: "nat option \<Rightarrow> entity_id \<Rightarrow> entity_id list \<Rightarrow> bool" where
  "contains_entity threads x xs =
     (if threads \<noteq> None \<and> THRESHOLD < length xs
      then par_contains threads (map to_bits xs) (to_bits x)
      else to_bits x \<in> set (map to_bits xs))"

fun rposition :: "('a \<Rightarrow> bool) \<Rightarrow> 'a list \<Rightarrow> nat option" where
  "rposition P [] = None"
| "rposition P (x # xs) =
     (case rposition P xs of Some i \<Rightarrow> Some (Suc i) | None \<Rightarrow> if P x then Some 0 else None)"

definition position_entity :: "nat option \<Rightarrow> entity_id \<Rightarrow> entity_id list \<Rightarrow> nat option" where
  "position_entity threads x xs =
     (let v = to_bits x; arr = map to_bits xs
      in if threads \<noteq> None \<and> THRESHOLD < length xs
         then par_position threads (\<lambda>_ e. (e = v, ())) () arr
         else rposition (\<lambda>e. e = v) arr)"

section \<open>Chunks cover the slice\<close>

lemma par_chunk_size_pos [simp]: "0 < par_chunk_size t xs"
  by (simp add: par_chunk_size_def)

lemma concat_chunks: "0 < n \<Longrightarrow> concat (chunks n xs) = xs"
proof (induction n xs rule: chunks.induct)
  case (1 n xs)
  then show ?case
    by (subst chunks.simps) auto
qed

lemma concat_par_chunks [simp]: "concat (par_chunks t xs) = xs"
  by (simp add: par_chunks_def concat_chunks)

lemma set_par_chunks: "(\<Union>c\<in>set (par_chunks t xs). set c) = set xs"
  by (metis concat_par_chunks set_concat)

lemma foldl_append_concat: "foldl (\<lambda>r x. r @ g x) acc xs = acc @ concat (map g xs)"
  by (induction xs arbitrary: acc) auto

lemma foldl_append: "foldl (@) acc xs = acc @ concat xs"
  using foldl_append_concat [of "\<lambda>x. x" acc xs] by simp

lemma run_map_pure:
  assumes "\<And>s x. fst (f s x) = g x"
  shows "run_map f s = map g"
proof
  show "run_map f s xs = map g xs" for xs
    using assms by (induction xs arbitrary: s) (auto simp: split_beta)
qed

definition position :: "('a \<Rightarrow> bool) \<Rightarrow> 'a list \<Rightarrow> nat option" where
  "position P xs = (let n = length (takeWhile (\<lambda>x. \<not> P x) xs) in if n < length xs then Some n else None)"

lemma position_simps [simp]:
  "position P [] = None"
  "position P (x # xs) = (if P x then Some 0 else map_option Suc (position P xs))"
  by (auto simp: position_def Let_def)

lemma position_None_iff: "position P xs = None \<longleftrightarrow> (\<forall>x\<in>set xs. \<not> P x)"
  by (induction xs) auto

lemma position_SomeD: "position P xs = Some i \<Longrightarrow> i < length xs \<and> P (xs ! i) \<and> (\<forall>j<i. \<not> P (xs ! j))"
proof (induction xs arbitrary: i)
  case (Cons x xs)
  then show ?case
    by (auto simp: less_Suc_eq_0_disj split: if_splits)
qed simp

lemma run_position_pure: "(\<And>s x. fst (f s x) = P x) \<Longrightarrow> run_position f s xs = position P xs"
  by (induction xs arbitrary: s) (auto simp: split_beta)

lemma map_option_plus_0 [simp]: "map_option ((+) (0 :: nat)) x = x"
  by (cases x) auto

lemma position_append:
  "position P (xs @ ys) =
     (case position P xs of Some i \<Rightarrow> Some i | None \<Rightarrow> map_option ((+) (length xs)) (position P ys))"
proof (induction xs)
  case Nil
  then show ?case
    by simp
next
  case (Cons x xs)
  then show ?case
    by (auto simp: option.map_comp comp_def split: option.splits intro!: map_option_cong)
qed

lemma first_offset_chunks:
  assumes "0 < n"
  shows "first_offset n (map (\<lambda>(i, c). (i, position P c)) (List.enumerate k (chunks n xs)))
    = map_option ((+) (k * n)) (position P xs)"
  using assms
proof (induction n xs arbitrary: k rule: chunks.induct)
  case (1 n xs)
  show ?case
  proof (cases "xs = []")
    case True
    then show ?thesis by (simp add: chunks.simps)
  next
    case False
    with 1 have step: "chunks n xs = take n xs # chunks n (drop n xs)"
      by (subst chunks.simps) simp
    have split: "position P xs = (case position P (take n xs) of Some i \<Rightarrow> Some i
        | None \<Rightarrow> map_option ((+) (length (take n xs))) (position P (drop n xs)))"
      by (metis append_take_drop_id position_append)
    show ?thesis
    proof (cases "position P (take n xs)")
      case (Some i)
      then show ?thesis by (simp add: step split)
    next
      case None
      have "length (take n xs) = n" if "position P (drop n xs) \<noteq> None"
        using that by (cases "n \<le> length xs") auto
      then show ?thesis
        using None 1 False by (auto simp: step split option.map_comp comp_def ac_simps
            intro!: map_option_cong)
    qed
  qed
qed

lemma par_position_pure:
  assumes "\<And>s x. fst (f s x) = P x"
  shows "par_position threads f s xs = position P xs"
proof (cases threads)
  case None
  then show ?thesis by (simp add: par_position_def run_position_pure [OF assms])
next
  case (Some t)
  then show ?thesis
    using first_offset_chunks [of "par_chunk_size t xs" P 0 xs]
    by (simp add: par_position_def run_position_pure [OF assms] par_chunks_def)
qed

section \<open>Positions of an id\<close>

lemma rposition_None_iff: "rposition P xs = None \<longleftrightarrow> (\<forall>x\<in>set xs. \<not> P x)"
  by (induction xs) (auto split: option.splits)

lemma rposition_SomeD: "rposition P xs = Some i \<Longrightarrow> i < length xs \<and> P (xs ! i) \<and> (\<forall>j<length xs. i < j \<longrightarrow> \<not> P (xs ! j))"
proof (induction xs arbitrary: i)
  case (Cons x xs)
  show ?case
  proof (cases "rposition P xs")
    case None
    then have none: "\<forall>y\<in>set xs. \<not> P y"
      by (simp add: rposition_None_iff)
    from None Cons.prems have "i = 0" "P x"
      by (auto split: if_splits)
    moreover have "\<not> P ((x # xs) ! j)" if "j < length (x # xs)" "0 < j" for j
      using none that by (cases j) auto
    ultimately show ?thesis
      by auto
  next
    case (Some k)
    then show ?thesis
      using Cons by (auto simp: nth_Cons split: nat.splits)
  qed
qed simp

lemma to_bits_eq_iff [simp]: "to_bits a = to_bits b \<longleftrightarrow> a = b"
  by (auto simp: to_bits_def intro: entity_id.expand)

lemma par_contains_iff: "par_contains threads xs v \<longleftrightarrow> v \<in> set xs"
  using set_par_chunks [of _ xs]
  by (auto simp: par_contains_def list_ex_iff split: option.splits)

lemma position_entity_None: "position_entity threads x xs = None \<longleftrightarrow> x \<notin> set xs"
  by (auto simp: position_entity_def Let_def par_position_pure position_None_iff rposition_None_iff)

lemma position_entity_Some:
  "position_entity threads x xs = Some i \<Longrightarrow> i < length xs \<and> xs ! i = x"
  by (auto simp: position_entity_def Let_def par_position_pure dest!: position_SomeD rposition_SomeD
      split: if_splits)

text \<open>\<^verbatim>\<open>Vec::remove\<close>.\<close>

definition vec_remove :: "nat \<Rightarrow> 'a list \<Rightarrow> 'a list" where
  "vec_remove i xs = take i xs @ drop (Suc i) xs"

lemma vec_remove_remove1:
  "i < length xs \<Longrightarrow> distinct xs \<Longrightarrow> vec_remove i xs = remove1 (xs ! i) xs"
proof (induction xs arbitrary: i)
  case (Cons x xs)
  then show ?case
    by (cases i) (auto simp: vec_remove_def)
qed simp

lemma map_par_chunks: "concat (map (map k) (par_chunks n xs)) = map k xs"
  by (metis concat_par_chunks map_concat)

section \<open>Properties\<close>

text \<open>For closures whose answer does not depend on their captured state, every chunked
  operation gives the sequential result for every slice, thread count and build: the same first
  position, the same membership, the same mapped values in order, the same updated slice.\<close>
theorem parallel_slice_sequential:
  assumes "\<And>s x. fst (f s x) = P x" "\<And>s x. fst (g s x) = h x" "\<And>s x. fst (u s x) = (r x, w x)"
  shows "par_position threads f s xs = position P xs
    \<and> (par_contains threads xs v \<longleftrightarrow> v \<in> set xs)
    \<and> par_map threads g t xs = map h xs
    \<and> par_map_mut threads u q xs = (map r xs, map w xs)"
proof -
  have "par_map threads g t xs = map h xs"
    by (simp add: par_map_def foldl_append run_map_pure [OF assms(2)] map_par_chunks split: option.split)
  moreover have "par_map_mut threads u q xs = (map r xs, map w xs)"
    by (simp add: par_map_mut_def foldl_append_concat map_par_chunks run_map_pure [of u, OF assms(3)] comp_def Let_def split: option.split)
  ultimately show ?thesis
    by (simp add: par_position_pure [of f, OF assms(1)] par_contains_iff)
qed

theorem parallel_slice_sequential_witness:
  "par_map (Some 4) (\<lambda>n x. (x * 2, Suc n)) 0 [3, 7, 9, 12, 5 :: nat] = [6, 14, 18, 24, 10]
    \<and> par_position (Some 4) (\<lambda>(_ :: unit) x. (x mod 4 = 0, ())) () [3, 7, 9, 12, 5 :: nat] = Some 3"
  using parallel_slice_sequential [of "\<lambda>(_ :: unit) x. (x mod 4 = 0, ())" "\<lambda>x :: nat. x mod 4 = 0"
      "\<lambda>n x. (x * 2, Suc n)" "\<lambda>x. x * 2" "\<lambda>(_ :: unit) x. ((x, x), ())" "\<lambda>x. x" "\<lambda>x. x"
      "Some 4" "()" "[3, 7, 9, 12, 5]" 7 0 "()"]
  by simp

text \<open>In a slice without duplicates \<^verbatim>\<open>position_entity\<close> finds the one position of the id,
  whichever search is used, so that removing there removes exactly the id; and it finds nothing
  exactly when \<^verbatim>\<open>contains_entity\<close> is false.\<close>
theorem position_entity_unique:
  assumes "distinct xs"
  shows "(case position_entity threads x xs of
      Some i \<Rightarrow> i < length xs \<and> xs ! i = x \<and> vec_remove i xs = remove1 x xs \<and> contains_entity threads x xs
    | None \<Rightarrow> x \<notin> set xs \<and> \<not> contains_entity threads x xs)
    \<and> position_entity threads x xs = position_entity None x xs"
proof -
  have c: "contains_entity threads x xs \<longleftrightarrow> x \<in> set xs"
    by (auto simp: contains_entity_def par_contains_iff)
  have "position_entity threads x xs = position_entity None x xs"
  proof (cases "x \<in> set xs")
    case True
    then obtain i j where "position_entity threads x xs = Some i" "position_entity None x xs = Some j"
      using position_entity_None by fastforce
    then show ?thesis
      using assms position_entity_Some nth_eq_iff_index_eq by metis
  next
    case False
    then show ?thesis by (simp add: position_entity_None [THEN iffD2])
  qed
  then show ?thesis
    using c vec_remove_remove1 [OF _ assms] position_entity_None [of threads x xs]
      position_entity_Some [of threads x xs]
    by (auto split: option.splits)
qed

theorem position_entity_unique_witness:
  "position_entity (Some 8) (new_id 5 1) [new_id 4 1, new_id 5 1] = Some 1"
  using position_entity_unique [of "[new_id 4 1, new_id 5 1]" "new_id 5 1" "Some 8"]
  by (auto simp: position_entity_def to_bits_def split: option.splits)

end
