(* ===== verification/Entity_Tree.thy ===== *)
theory Entity_Tree
  imports Slice_Search
begin

text \<open>
  The entity tree (\<^verbatim>\<open>zlim-core/src/entity/entities.rs\<close>): one node per slot index with the current
  generation, the storage location when spawned, the parent and the children; the ordered set
  of root entities; and the labels. The model is that of a build with debug assertions: an
  assertion that fails is a \<open>Panic\<close>, and an access through \<^verbatim>\<open>get_unchecked\<close> is
  guarded by the assertion in front of it, so that absence of panics below also covers the
  unchecked accesses of a release build. \<open>platform\<close> holds what the code takes from its
  surroundings: how much capacity \<^verbatim>\<open>Vec::reserve\<close> adds beyond what was asked for, and the threads of
  the task pool. Labels are interned, compared by address, and appear as numbers.
\<close>

section \<open>Nodes and errors\<close>

record location =
  table_id :: u32
  table_row :: u32

datatype moved_entity_row = MovedSome entity_id u32 | MovedNone

record entity_node =
  n_generation :: u32
  n_location :: "location option"
  n_parent :: "entity_id option"
  n_children :: "entity_id list"

definition DEFAULT_NODE :: entity_node where
  "DEFAULT_NODE = \<lparr>n_generation = 1, n_location = None, n_parent = None, n_children = []\<rparr>"

type_synonym entity_label = nat

record entities =
  e_root :: "entity_id set"
  e_nodes :: "entity_node list"
  e_labeled :: "entity_label \<rightharpoonup> entity_id"

datatype entity_error =
    NotFound u32
  | MissingLabel entity_label
  | NotSpawned entity_id
  | AlreadySpawned entity_id
  | Mismatch entity_id entity_id
  | CycleHierarchy entity_id entity_id

record platform =
  vec_spare :: "nat \<Rightarrow> nat"
  pool_threads :: "nat option"

definition vec_capacity :: "platform \<Rightarrow> nat \<Rightarrow> nat" where
  "vec_capacity pf n = n + vec_spare pf n"

section \<open>Operations\<close>

definition entities_new :: "platform \<Rightarrow> entities" where
  "entities_new pf =
     \<lparr>e_root = {}, e_nodes = replicate (vec_capacity pf 256) DEFAULT_NODE, e_labeled = Map.empty\<rparr>"

definition reserve :: "platform \<Rightarrow> entities \<Rightarrow> nat \<Rightarrow> entities" where
  "reserve pf e additional =
     (let new_len = vec_capacity pf (length (e_nodes e) + additional)
      in e\<lparr>e_nodes := e_nodes e @ replicate (new_len - length (e_nodes e)) DEFAULT_NODE\<rparr>)"

definition ensure_exist ::
  "platform \<Rightarrow> entities \<Rightarrow> u32 \<Rightarrow> (entity_error, unit) outcome \<times> entities" where
  "ensure_exist pf e i =
     (if length (e_nodes e) \<le> unat i then
        if i \<noteq> 0xFFFFFFFF then (Ok (), reserve pf e (unat i - length (e_nodes e) + 1))
        else (Panic, e)
      else (Ok (), e))"

definition node_at :: "entities \<Rightarrow> u32 \<Rightarrow> entity_node option" where
  "node_at e i = (if unat i < length (e_nodes e) then Some (e_nodes e ! unat i) else None)"

definition set_node :: "entities \<Rightarrow> u32 \<Rightarrow> (entity_node \<Rightarrow> entity_node) \<Rightarrow> entities" where
  "set_node e i f = e\<lparr>e_nodes := (e_nodes e)[unat i := f (e_nodes e ! unat i)]\<rparr>"

definition mismatch :: "entity_node \<Rightarrow> entity_id \<Rightarrow> entity_error" where
  "mismatch info x = Mismatch x (new_id (index x) (n_generation info))"

definition try_locate :: "entities \<Rightarrow> entity_id \<Rightarrow> (entity_error, location option) outcome" where
  "try_locate e x =
     (let info = (case node_at e (index x) of Some n \<Rightarrow> n | None \<Rightarrow> DEFAULT_NODE)
      in if n_generation info \<noteq> generation x then Err (mismatch info x) else Ok (n_location info))"

definition locate :: "entities \<Rightarrow> entity_id \<Rightarrow> (entity_error, location) outcome" where
  "locate e x =
     (case node_at e (index x) of
        None \<Rightarrow> Err (NotFound (index x))
      | Some info \<Rightarrow>
          if n_generation info \<noteq> generation x then Err (mismatch info x)
          else case n_location info of Some l \<Rightarrow> Ok l | None \<Rightarrow> Err (NotSpawned x))"

definition get_node :: "entities \<Rightarrow> entity_id \<Rightarrow> (entity_error, entity_node) outcome" where
  "get_node e x =
     (case node_at e (index x) of
        None \<Rightarrow> Err (NotFound (index x))
      | Some info \<Rightarrow>
          if n_generation info \<noteq> generation x then Err (mismatch info x)
          else if n_location info = None then Err (NotSpawned x)
          else Ok info)"

definition get_by_index :: "entities \<Rightarrow> u32 \<Rightarrow> (entity_error, entity_node) outcome" where
  "get_by_index e i = (case node_at e i of None \<Rightarrow> Err (NotFound i) | Some info \<Rightarrow> Ok info)"

definition contains :: "entities \<Rightarrow> entity_id \<Rightarrow> bool" where
  "contains e x =
     (case node_at e (index x) of
        None \<Rightarrow> False
      | Some info \<Rightarrow> if n_generation info \<noteq> generation x \<or> n_location info = None then False else True)"

definition resolve :: "entities \<Rightarrow> u32 \<Rightarrow> entity_id" where
  "resolve e i = (case node_at e i of Some info \<Rightarrow> new_id i (n_generation info) | None \<Rightarrow> new_id i 1)"

definition count_spawned :: "entities \<Rightarrow> nat" where
  "count_spawned e = length (filter (\<lambda>info. n_location info \<noteq> None) (e_nodes e))"

definition check_spawnable :: "entities \<Rightarrow> entity_id \<Rightarrow> (entity_error, unit) outcome" where
  "check_spawnable e x =
     (let info = (case node_at e (index x) of Some n \<Rightarrow> n | None \<Rightarrow> DEFAULT_NODE)
      in if n_location info \<noteq> None then Err (AlreadySpawned x)
         else if n_generation info \<noteq> generation x then Err (mismatch info x)
         else Ok ())"

definition update_row ::
  "entities \<Rightarrow> moved_entity_row \<Rightarrow> (entity_error, unit) outcome \<times> entities" where
  "update_row e moved =
     (case moved of
        MovedNone \<Rightarrow> (Ok (), e)
      | MovedSome x new_row \<Rightarrow>
          (case node_at e (index x) of
             None \<Rightarrow> (Err (NotFound (index x)), e)
           | Some info \<Rightarrow>
               if n_generation info \<noteq> generation x then (Err (mismatch info x), e)
               else case n_location info of
                 None \<Rightarrow> (Err (NotSpawned x), e)
               | Some l \<Rightarrow>
                   (Ok (), set_node e (index x) (\<lambda>n. n\<lparr>n_location := Some (l\<lparr>table_row := new_row\<rparr>)\<rparr>))))"

text \<open>The slot must not be in use; the \<^verbatim>\<open>expect\<close> panics when the next generation is zero.\<close>

definition free_slot ::
  "platform \<Rightarrow> entities \<Rightarrow> u32 \<Rightarrow> (entity_error, entity_id) outcome \<times> entities" where
  "free_slot pf e i = then_do (ensure_exist pf e i) (\<lambda>_ e1.
     let info = e_nodes e1 ! unat i;
         nxt = next_generation (new_id i (n_generation info))
     in if n_location info \<noteq> None then (Panic, e1)
        else if generation nxt = 0 then (Panic, e1)
        else (Ok nxt, set_node e1 i (\<lambda>n. n\<lparr>n_generation := generation nxt\<rparr>)))"

text \<open>Taking an id off the children of its parent, or off the root set.\<close>

definition unlink_child ::
  "platform \<Rightarrow> entities \<Rightarrow> entity_id \<Rightarrow> entity_id option \<Rightarrow> (entity_error, unit) outcome \<times> entities" where
  "unlink_child pf e x parent =
     (case parent of
        Some p \<Rightarrow>
          (case node_at e (index p) of
             None \<Rightarrow> (Panic, e)
           | Some slot \<Rightarrow>
               if n_location slot = None then (Panic, e)
               else case position_entity (pool_threads pf) x (n_children slot) of
                 Some i \<Rightarrow>
                   (Ok (), set_node e (index p) (\<lambda>n. n\<lparr>n_children := vec_remove i (n_children n)\<rparr>))
               | None \<Rightarrow> (Panic, e))
      | None \<Rightarrow>
          if x \<in> e_root e then (Ok (), e\<lparr>e_root := e_root e - {x}\<rparr>) else (Panic, e))"

text \<open>The loop that hands the children of a removed entity to the root.\<close>

fun release_children ::
  "entity_id \<Rightarrow> entity_id list \<Rightarrow> entities \<Rightarrow> (entity_error, unit) outcome \<times> entities" where
  "release_children x [] e = (Ok (), e)"
| "release_children x (c # cs) e =
     (case node_at e (index c) of
        None \<Rightarrow> (Panic, e)
      | Some slot \<Rightarrow>
          if n_parent slot \<noteq> Some x then (Panic, e)
          else if generation c \<noteq> n_generation slot then (Panic, e)
          else release_children x cs
                 ((set_node e (index c) (\<lambda>n. n\<lparr>n_parent := None\<rparr>))\<lparr>e_root := insert c (e_root e)\<rparr>))"

definition remove_one ::
  "platform \<Rightarrow> entities \<Rightarrow> entity_id \<Rightarrow> (entity_error, location) outcome \<times> entities" where
  "remove_one pf e x = then_do (ensure_exist pf e (index x)) (\<lambda>_ e1.
     case node_at e1 (index x) of
       None \<Rightarrow> (Err (NotFound (index x)), e1)
     | Some info \<Rightarrow>
         if n_generation info \<noteq> generation x then (Err (mismatch info x), e1)
         else case n_location info of
           None \<Rightarrow> (Err (NotSpawned x), e1)
         | Some l \<Rightarrow>
             let e2 = set_node e1 (index x)
                        (\<lambda>n. n\<lparr>n_location := None, n_parent := None, n_children := []\<rparr>)
             in then_do (unlink_child pf e2 x (n_parent info)) (\<lambda>_ e3.
                  then_do (release_children x (n_children info) e3) (\<lambda>_ e4. (Ok l, e4))))"

text \<open>The checks in front of both insertions, in the order of the code.\<close>

definition insert_checks ::
  "entities \<Rightarrow> entity_id \<Rightarrow> entity_id option \<Rightarrow> (entity_error, unit) outcome" where
  "insert_checks e x parent =
     (case (case parent of
              None \<Rightarrow> Ok ()
            | Some p \<Rightarrow>
                if p = x then Err (CycleHierarchy x p)
                else case node_at e (index p) of
                  None \<Rightarrow> Err (NotFound (index p))
                | Some info \<Rightarrow>
                    if n_generation info \<noteq> generation p then Err (mismatch info p)
                    else if n_location info = None then Err (NotSpawned p)
                    else Ok ()) of
        Err err \<Rightarrow> Err err
      | Panic \<Rightarrow> Panic
      | Ok _ \<Rightarrow>
          (case node_at e (index x) of
             None \<Rightarrow> Err (NotFound (index x))
           | Some info \<Rightarrow>
               if n_generation info \<noteq> generation x then Err (mismatch info x)
               else if n_location info \<noteq> None then Err (AlreadySpawned x)
               else Ok ()))"

text \<open>Adding an id to the children of its parent, or to the root set.\<close>

definition link_child ::
  "entities \<Rightarrow> entity_id \<Rightarrow> entity_id option \<Rightarrow> (entity_error, unit) outcome \<times> entities" where
  "link_child e x parent =
     (case parent of
        Some p \<Rightarrow>
          (case node_at e (index p) of
             None \<Rightarrow> (Panic, e)
           | Some slot \<Rightarrow>
               if x \<in> set (n_children slot) then (Panic, e)
               else (Ok (), set_node e (index p) (\<lambda>n. n\<lparr>n_children := n_children n @ [x]\<rparr>)))
      | None \<Rightarrow>
          if x \<in> e_root e then (Panic, e) else (Ok (), e\<lparr>e_root := insert x (e_root e)\<rparr>))"

definition insert_one ::
  "platform \<Rightarrow> entities \<Rightarrow> entity_id \<Rightarrow> entity_id option \<Rightarrow> location
     \<Rightarrow> (entity_error, unit) outcome \<times> entities" where
  "insert_one pf e x parent l = then_do (ensure_exist pf e (index x)) (\<lambda>_ e1.
     then_do (insert_checks e1 x parent, e1) (\<lambda>_ _.
       let e2 = set_node e1 (index x) (\<lambda>n. n\<lparr>n_location := Some l, n_parent := parent\<rparr>)
       in if n_children (e_nodes e2 ! unat (index x)) \<noteq> [] then (Panic, e2)
          else link_child e2 x parent))"

definition insert_uninit ::
  "platform \<Rightarrow> entities \<Rightarrow> entity_id \<Rightarrow> entity_id option \<Rightarrow> location
     \<Rightarrow> (entity_error, unit) outcome \<times> entities" where
  "insert_uninit pf e x parent l = then_do (ensure_exist pf e (index x)) (\<lambda>_ e1.
     then_do (insert_checks e1 x parent, e1) (\<lambda>_ _.
       let e2 = set_node e1 (index x) (\<lambda>n. n\<lparr>n_location := Some l, n_parent := parent\<rparr>)
       in if n_children (e_nodes e2 ! unat (index x)) \<noteq> [] then (Panic, e2) else (Ok (), e2)))"

definition set_labeled_entity ::
  "entities \<Rightarrow> entity_id \<Rightarrow> entity_label \<Rightarrow> (entity_error, unit) outcome \<times> entities" where
  "set_labeled_entity e x label =
     then_do (get_node e x, e) (\<lambda>_ _. (Ok (), e\<lparr>e_labeled := (e_labeled e)(label \<mapsto> x)\<rparr>))"

definition get_labeled_entity :: "entities \<Rightarrow> entity_label \<Rightarrow> (entity_error, entity_id) outcome" where
  "get_labeled_entity e label =
     (case e_labeled e label of
        None \<Rightarrow> Err (MissingLabel label)
      | Some x \<Rightarrow> if \<not> contains e x then Err (MissingLabel label) else Ok x)"

definition update_labeled :: "entities \<Rightarrow> entities" where
  "update_labeled e =
     e\<lparr>e_labeled := (\<lambda>k. case e_labeled e k of
        None \<Rightarrow> None | Some x \<Rightarrow> if contains e x then Some x else None)\<rparr>"

text \<open>\<^verbatim>\<open>BTreeSet::iter\<close> yields the ids in increasing order.\<close>

definition root_entities :: "entities \<Rightarrow> entity_id list" where
  "root_entities e = sorted_list_of_set (e_root e)"

text \<open>
  The walk over the ancestors of the new parent. It may follow a cycle for ever, which is the
  value \<open>None\<close>; an ancestor without a slot would trip the assertion, which is \<open>Some None\<close>.
\<close>

partial_function (option) is_ancestor ::
  "entities \<Rightarrow> entity_id \<Rightarrow> entity_id option \<Rightarrow> bool option option" where
  "is_ancestor e x iter =
     (case iter of
        None \<Rightarrow> Some (Some False)
      | Some p \<Rightarrow>
          if p = x then Some (Some True)
          else case node_at e (index p) of
            None \<Rightarrow> Some None
          | Some info \<Rightarrow> is_ancestor e x (n_parent info))"

definition modify_parent_without_signal ::
  "platform \<Rightarrow> entities \<Rightarrow> entity_id \<Rightarrow> entity_id option
     \<Rightarrow> ((entity_error, bool) outcome \<times> entities) option" where
  "modify_parent_without_signal pf e x parent =
     (case (case parent of None \<Rightarrow> Ok () | Some p \<Rightarrow>
              (case get_node e p of Ok _ \<Rightarrow> Ok () | Err err \<Rightarrow> Err err | Panic \<Rightarrow> Panic)) of
        Err err \<Rightarrow> Some (Err err, e)
      | Panic \<Rightarrow> Some (Panic, e)
      | Ok _ \<Rightarrow>
          (case get_node e x of
             Err err \<Rightarrow> Some (Err err, e)
           | Panic \<Rightarrow> Some (Panic, e)
           | Ok info \<Rightarrow>
               if n_parent info = parent then Some (Ok False, e)
               else case is_ancestor e x parent of
                 None \<Rightarrow> None
               | Some None \<Rightarrow> Some (Panic, e)
               | Some (Some True) \<Rightarrow> Some (Err (CycleHierarchy x (the parent)), e)
               | Some (Some False) \<Rightarrow>
                   Some (then_do
                     (unlink_child pf (set_node e (index x) (\<lambda>n. n\<lparr>n_parent := parent\<rparr>)) x (n_parent info))
                     (\<lambda>_ e2. then_do (link_child e2 x parent) (\<lambda>_ e3. (Ok True, e3))))))"

text \<open>\<^verbatim>\<open>modify_parent\<close> also reports the moved entity as a message; \<open>signals\<close> are the messages written.\<close>

definition modify_parent ::
  "platform \<Rightarrow> entities \<times> entity_id list \<Rightarrow> entity_id \<Rightarrow> entity_id option
     \<Rightarrow> ((entity_error, unit) outcome \<times> entities \<times> entity_id list) option" where
  "modify_parent pf s x parent =
     (case s of (e, signals) \<Rightarrow>
        map_option (\<lambda>r. case r of
            (Ok True, e') \<Rightarrow> (Ok (), e', signals @ [x])
          | (Ok False, e') \<Rightarrow> (Ok (), e', signals)
          | (Err err, e') \<Rightarrow> (Err err, e', signals)
          | (Panic, e') \<Rightarrow> (Panic, e', signals))
        (modify_parent_without_signal pf e x parent))"

section \<open>The slots as a function\<close>

text \<open>
  Slots beyond the vector read as the default node, so that growing the vector is invisible, and
  an operation is an update of finitely many slots.
\<close>

definition slot :: "entities \<Rightarrow> u32 \<Rightarrow> entity_node" where
  "slot e i = (case node_at e i of Some n \<Rightarrow> n | None \<Rightarrow> DEFAULT_NODE)"

definition alive :: "entities \<Rightarrow> entity_id \<Rightarrow> bool" where
  "alive e x \<longleftrightarrow> n_generation (slot e (index x)) = generation x \<and> n_location (slot e (index x)) \<noteq> None"

definition parent_of :: "entities \<Rightarrow> entity_id \<Rightarrow> entity_id option" where
  "parent_of e x = n_parent (slot e (index x))"

definition children_of :: "entities \<Rightarrow> entity_id \<Rightarrow> entity_id list" where
  "children_of e x = n_children (slot e (index x))"

lemma DEFAULT_NODE_sel [simp]:
  "n_generation DEFAULT_NODE = 1" "n_location DEFAULT_NODE = None"
  "n_parent DEFAULT_NODE = None" "n_children DEFAULT_NODE = []"
  by (simp_all add: DEFAULT_NODE_def)

lemma node_at_Some: "node_at e i = Some n \<Longrightarrow> unat i < length (e_nodes e) \<and> n = slot e i"
  by (auto simp: slot_def node_at_def split: if_splits)

lemma node_at_slot: "unat i < length (e_nodes e) \<Longrightarrow> node_at e i = Some (slot e i)"
  by (simp add: slot_def node_at_def)

lemma nth_slot: "unat i < length (e_nodes e) \<Longrightarrow> e_nodes e ! unat i = slot e i"
  by (simp add: slot_def node_at_def)

lemma spawned_in_range: "n_location (slot e i) \<noteq> None \<Longrightarrow> unat i < length (e_nodes e)"
  by (auto simp: slot_def node_at_def split: if_splits)

lemma alive_in_range: "alive e x \<Longrightarrow> unat (index x) < length (e_nodes e)"
  by (simp add: alive_def spawned_in_range)

lemma alive_node_at: "alive e x \<Longrightarrow> node_at e (index x) = Some (slot e (index x))"
  by (simp add: alive_in_range node_at_slot)

lemma alive_same_index: "alive e x \<Longrightarrow> alive e y \<Longrightarrow> index x = index y \<Longrightarrow> x = y"
  by (simp add: alive_def entity_id_eq_iff)

lemma slot_set_node [tree_simps]:
  "unat i < length (e_nodes e) \<Longrightarrow> slot (set_node e i f) j = (if j = i then f (slot e i) else slot e j)"
  by (auto simp: slot_def node_at_def set_node_def nth_list_update word_unat_eq_iff)

lemma set_node_sel [simp, tree_simps]:
  "length (e_nodes (set_node e i f)) = length (e_nodes e)"
  "e_root (set_node e i f) = e_root e" "e_labeled (set_node e i f) = e_labeled e"
  by (simp_all add: set_node_def)

lemma slot_root_update [simp, tree_simps]: "slot (e\<lparr>e_root := r\<rparr>) i = slot e i"
  by (simp add: slot_def node_at_def)

lemma slot_labeled_update [simp, tree_simps]: "slot (e\<lparr>e_labeled := r\<rparr>) i = slot e i"
  by (simp add: slot_def node_at_def)

lemma slot_reserve [simp]: "slot (reserve pf e n) i = slot e i"
  by (auto simp: slot_def node_at_def reserve_def Let_def nth_append)

lemma reserve_sel [simp]:
  "e_root (reserve pf e n) = e_root e" "e_labeled (reserve pf e n) = e_labeled e"
  by (simp_all add: reserve_def Let_def)

lemma ensure_exist_Ok:
  assumes "ensure_exist pf e i = (Ok u, e1)"
  shows "slot e1 = slot e" "e_root e1 = e_root e" "e_labeled e1 = e_labeled e"
    "unat i < length (e_nodes e1)" "length (e_nodes e) \<le> length (e_nodes e1)"
  using assms
  by (auto simp: ensure_exist_def reserve_def Let_def vec_capacity_def fun_eq_iff slot_def node_at_def
      nth_append split: if_splits)

lemma ensure_exist_not_Err: "fst (ensure_exist pf e i) \<noteq> Err x"
  by (simp add: ensure_exist_def)

lemma ensure_exist_Panic: "ensure_exist pf e i = (Panic, e1) \<longleftrightarrow> i = 0xFFFFFFFF \<and> length (e_nodes e) < 2 ^ 32 \<and> e1 = e"
  by (auto simp: ensure_exist_def)

lemma ensure_exist_cases:
  obtains e1 where "ensure_exist pf e i = (Ok (), e1)"
  | "ensure_exist pf e i = (Panic, e)" "i = 0xFFFFFFFF" "length (e_nodes e) < 2 ^ 32"
  by (cases "length (e_nodes e) \<le> unat i"; cases "i = 0xFFFFFFFF") (auto simp: ensure_exist_def)

lemma contains_alive: "contains e x \<longleftrightarrow> alive e x"
  by (auto simp: contains_def alive_def slot_def split: option.splits)

lemma get_node_eq:
  "get_node e x =
     (if alive e x then Ok (slot e (index x))
      else if length (e_nodes e) \<le> unat (index x) then Err (NotFound (index x))
      else if n_generation (slot e (index x)) \<noteq> generation x then Err (mismatch (slot e (index x)) x)
      else Err (NotSpawned x))"
  by (auto simp: get_node_def alive_def slot_def node_at_def)

section \<open>The invariant\<close>

definition parent_rel :: "entities \<Rightarrow> (entity_id \<times> entity_id) set" where
  "parent_rel e = {(p, c). alive e c \<and> parent_of e c = Some p}"

definition tree_inv :: "entities \<Rightarrow> bool" where
  "tree_inv e \<longleftrightarrow>
     (\<forall>i. n_generation (slot e i) \<noteq> 0) \<and>
     (\<forall>i. n_location (slot e i) = None \<longrightarrow> n_parent (slot e i) = None \<and> n_children (slot e i) = []) \<and>
     (\<forall>c p. alive e c \<longrightarrow> parent_of e c = Some p \<longrightarrow> alive e p \<and> c \<in> set (children_of e p)) \<and>
     (\<forall>p c. alive e p \<longrightarrow> c \<in> set (children_of e p) \<longrightarrow> alive e c \<and> parent_of e c = Some p) \<and>
     (\<forall>p. alive e p \<longrightarrow> distinct (children_of e p)) \<and>
     e_root e = {r. alive e r \<and> parent_of e r = None} \<and>
     acyclic (parent_rel e)"

lemma tree_invD:
  assumes "tree_inv e"
  shows "n_generation (slot e i) \<noteq> 0"
    and "n_location (slot e i) = None \<Longrightarrow> n_parent (slot e i) = None \<and> n_children (slot e i) = []"
    and "alive e c \<Longrightarrow> parent_of e c = Some p \<Longrightarrow> alive e p \<and> c \<in> set (children_of e p)"
    and "alive e p \<Longrightarrow> c \<in> set (children_of e p) \<Longrightarrow> alive e c \<and> parent_of e c = Some p"
    and "alive e p \<Longrightarrow> distinct (children_of e p)"
    and "e_root e = {r. alive e r \<and> parent_of e r = None}"
    and "acyclic (parent_rel e)"
  using assms unfolding tree_inv_def by blast+

lemma tree_invI:
  assumes "\<And>i. n_generation (slot e i) \<noteq> 0"
    and "\<And>i. n_location (slot e i) = None \<Longrightarrow> n_parent (slot e i) = None \<and> n_children (slot e i) = []"
    and "\<And>c p. alive e c \<Longrightarrow> parent_of e c = Some p \<Longrightarrow> alive e p \<and> c \<in> set (children_of e p)"
    and "\<And>p c. alive e p \<Longrightarrow> c \<in> set (children_of e p) \<Longrightarrow> alive e c \<and> parent_of e c = Some p"
    and "\<And>p. alive e p \<Longrightarrow> distinct (children_of e p)"
    and "\<And>r. r \<in> e_root e \<longleftrightarrow> alive e r \<and> parent_of e r = None"
    and "acyclic (parent_rel e)"
  shows "tree_inv e"
  using assms unfolding tree_inv_def by blast

text \<open>The invariant depends only on the slots and the root set.\<close>

lemma view_cong:
  assumes "slot e' = slot e"
  shows "alive e' = alive e" "parent_of e' = parent_of e" "children_of e' = children_of e"
    "parent_rel e' = parent_rel e"
  using assms by (simp_all add: alive_def parent_of_def children_of_def parent_rel_def fun_eq_iff)

lemma tree_inv_cong: "slot e' = slot e \<Longrightarrow> e_root e' = e_root e \<Longrightarrow> tree_inv e' \<longleftrightarrow> tree_inv e"
  unfolding tree_inv_def by (simp only: view_cong [of e' e])

lemma ensure_exist_inv:
  assumes "ensure_exist pf e i = (Ok u, e1)"
  shows "tree_inv e1 \<longleftrightarrow> tree_inv e"
proof (rule tree_inv_cong)
  show "slot e1 = slot e"
    using assms by (rule ensure_exist_Ok)
  show "e_root e1 = e_root e"
    using assms by (rule ensure_exist_Ok)
qed

lemma entities_new_inv: "tree_inv (entities_new pf)"
proof -
  have "slot (entities_new pf) i = DEFAULT_NODE" for i
    by (simp add: slot_def node_at_def entities_new_def)
  then show ?thesis
    by (simp add: tree_inv_def alive_def parent_of_def children_of_def parent_rel_def entities_new_def
        acyclic_def)
qed

lemma finite_entity_ids [simp]: "finite (A :: entity_id set)"
proof -
  have "finite (range EntityId)"
    by simp
  moreover have "A \<subseteq> range EntityId"
    by (metis entity_id.exhaust rangeI subsetI)
  ultimately show ?thesis
    by (rule finite_subset [rotated])
qed

lemma parent_rel_wf: "tree_inv e \<Longrightarrow> wf (parent_rel e)"
  by (meson finite_acyclic_wf finite_entity_ids finite_SigmaI finite_subset subset_UNIV tree_invD(7)
      finite_prod)

section \<open>Walking up\<close>

lemmas is_ancestor_step = is_ancestor.simps

lemma is_ancestor_terminates:
  assumes "tree_inv e" "alive e p"
  shows "is_ancestor e x (Some p) = Some (Some ((x, p) \<in> (parent_rel e)\<^sup>*))"
  using parent_rel_wf [OF assms(1)] assms(2)
proof (induction p rule: wf_induct_rule)
  case (less p)
  show ?case
  proof (cases "p = x")
    case True
    then show ?thesis by (subst is_ancestor_step) simp
  next
    case False
    have step: "is_ancestor e x (Some p) = is_ancestor e x (parent_of e p)"
      using False less.prems by (subst is_ancestor_step) (simp add: alive_node_at parent_of_def)
    show ?thesis
    proof (cases "parent_of e p")
      case None
      then have "(x, p) \<notin> (parent_rel e)\<^sup>*"
        using False by (auto simp: parent_rel_def elim: rtranclE)
      then show ?thesis
        using None step by (simp add: is_ancestor_step [of e x None])
    next
      case (Some q)
      then have q: "(q, p) \<in> parent_rel e" "alive e q"
        using less.prems tree_invD(3) [OF assms(1)] by (auto simp: parent_rel_def)
      have "(x, p) \<in> (parent_rel e)\<^sup>* \<longleftrightarrow> (x, q) \<in> (parent_rel e)\<^sup>*"
      proof
        assume "(x, p) \<in> (parent_rel e)\<^sup>*"
        then obtain z where "(x, z) \<in> (parent_rel e)\<^sup>*" "(z, p) \<in> parent_rel e"
          using False by (blast elim: rtranclE)
        with Some show "(x, q) \<in> (parent_rel e)\<^sup>*"
          by (simp add: parent_rel_def)
      qed (use q in auto)
      then show ?thesis
        using less.IH [OF q] step Some by simp
    qed
  qed
qed

section \<open>Relinking\<close>

lemma set_node_cong:
  "unat i < length (e_nodes e) \<Longrightarrow> f (slot e i) = g (slot e i) \<Longrightarrow> set_node e i f = set_node e i g"
  by (simp add: set_node_def nth_slot)

lemma unlink_child_Some:
  assumes "n_location (slot e (index p)) \<noteq> None" "x \<in> set (n_children (slot e (index p)))"
    "distinct (n_children (slot e (index p)))"
  shows "unlink_child pf e x (Some p)
    = (Ok (), set_node e (index p) (\<lambda>n. n\<lparr>n_children := remove1 x (n_children n)\<rparr>))"
proof -
  have r: "unat (index p) < length (e_nodes e)"
    using assms(1) by (rule spawned_in_range)
  obtain i where i: "position_entity (pool_threads pf) x (n_children (slot e (index p))) = Some i"
    using assms(2) position_entity_None by fastforce
  then have "vec_remove i (n_children (slot e (index p))) = remove1 x (n_children (slot e (index p)))"
    using position_entity_Some vec_remove_remove1 [OF _ assms(3)] by metis
  with i r assms(1) show ?thesis
    by (simp add: unlink_child_def node_at_slot) (rule set_node_cong; simp)
qed

lemma unlink_effect:
  assumes only: "\<And>i. x \<in> set (n_children (slot e i)) \<Longrightarrow> map_option index parent = Some i"
    and old: "\<And>p. parent = Some p \<Longrightarrow> n_location (slot e (index p)) \<noteq> None
      \<and> x \<in> set (n_children (slot e (index p))) \<and> distinct (n_children (slot e (index p)))"
    and root: "x \<in> e_root e \<longleftrightarrow> parent = None"
  obtains e' where "unlink_child pf e x parent = (Ok (), e')"
    "\<And>i. slot e' i = (slot e i)\<lparr>n_children := remove1 x (n_children (slot e i))\<rparr>"
    "e_root e' = e_root e - {x}" "e_labeled e' = e_labeled e" "length (e_nodes e') = length (e_nodes e)"
proof (cases parent)
  case None
  then have "x \<notin> set (n_children (slot e i))" for i
    using only by auto
  then show ?thesis
    using that [of "e\<lparr>e_root := e_root e - {x}\<rparr>"] None root
    by (simp add: unlink_child_def remove1_idem)
next
  case (Some p)
  let ?e = "set_node e (index p) (\<lambda>n. n\<lparr>n_children := remove1 x (n_children n)\<rparr>)"
  have "unlink_child pf e x parent = (Ok (), ?e)"
    using unlink_child_Some old Some by blast
  moreover have "slot ?e i = (slot e i)\<lparr>n_children := remove1 x (n_children (slot e i))\<rparr>" for i
  proof (cases "i = index p")
    case True
    then show ?thesis
      using old [OF Some] by (simp add: slot_set_node spawned_in_range)
  next
    case False
    then have "x \<notin> set (n_children (slot e i))"
      using only Some by auto
    then show ?thesis
      using False old [OF Some] by (simp add: slot_set_node spawned_in_range remove1_idem)
  qed
  ultimately show ?thesis
    using that [of ?e] Some root by simp
qed

lemma link_effect:
  assumes new: "\<And>p. parent = Some p \<Longrightarrow> unat (index p) < length (e_nodes e) \<and> x \<notin> set (n_children (slot e (index p)))"
    and root: "x \<notin> e_root e"
  obtains e' where "link_child e x parent = (Ok (), e')"
    "\<And>i. slot e' i = (slot e i)\<lparr>n_children := n_children (slot e i)
       @ (if map_option index parent = Some i then [x] else [])\<rparr>"
    "e_root e' = (if parent = None then insert x (e_root e) else e_root e)" "e_labeled e' = e_labeled e"
    "length (e_nodes e') = length (e_nodes e)"
proof (cases parent)
  case None
  then show ?thesis
    using that [of "e\<lparr>e_root := insert x (e_root e)\<rparr>"] root by (simp add: link_child_def)
next
  case (Some q)
  then have "link_child e x parent = (Ok (), set_node e (index q) (\<lambda>n. n\<lparr>n_children := n_children n @ [x]\<rparr>))"
    using new by (simp add: link_child_def node_at_slot)
  then show ?thesis
    using that [of "set_node e (index q) (\<lambda>n. n\<lparr>n_children := n_children n @ [x]\<rparr>)"] Some new
    by (auto simp: slot_set_node)
qed

lemma release_children_effect:
  assumes "distinct (map index cs)"
    "\<forall>c\<in>set cs. unat (index c) < length (e_nodes e) \<and> n_parent (slot e (index c)) = Some x
       \<and> n_generation (slot e (index c)) = generation c"
  obtains e' where "release_children x cs e = (Ok (), e')"
    "\<And>i. slot e' i = (if i \<in> index ` set cs then (slot e i)\<lparr>n_parent := None\<rparr> else slot e i)"
    "e_root e' = e_root e \<union> set cs" "e_labeled e' = e_labeled e"
    "length (e_nodes e') = length (e_nodes e)"
  using assms
proof (induction cs arbitrary: e thesis)
  case Nil
  then show ?case by simp
next
  case (Cons c cs)
  let ?e = "(set_node e (index c) (\<lambda>n. n\<lparr>n_parent := None\<rparr>))\<lparr>e_root := insert c (e_root e)\<rparr>"
  have c: "unat (index c) < length (e_nodes e)" "n_parent (slot e (index c)) = Some x"
    "n_generation (slot e (index c)) = generation c"
    using Cons.prems(3) by auto
  have s: "slot ?e i = (if i = index c then (slot e i)\<lparr>n_parent := None\<rparr> else slot e i)" for i
    using c(1) by (simp add: slot_set_node)
  have "\<forall>d\<in>set cs. unat (index d) < length (e_nodes ?e) \<and> n_parent (slot ?e (index d)) = Some x
       \<and> n_generation (slot ?e (index d)) = generation d"
  proof
    fix d
    assume "d \<in> set cs"
    then have "index d \<in> index ` set cs"
      by simp
    with Cons.prems(2) have "index d \<noteq> index c"
      by (auto simp del: image_eqI)
    with \<open>d \<in> set cs\<close> show "unat (index d) < length (e_nodes ?e) \<and> n_parent (slot ?e (index d)) = Some x
       \<and> n_generation (slot ?e (index d)) = generation d"
      using Cons.prems(3) s by simp
  qed
  then obtain e' where e': "release_children x cs ?e = (Ok (), e')"
    "\<And>i. slot e' i = (if i \<in> index ` set cs then (slot ?e i)\<lparr>n_parent := None\<rparr> else slot ?e i)"
    "e_root e' = e_root ?e \<union> set cs" "e_labeled e' = e_labeled ?e"
    "length (e_nodes e') = length (e_nodes ?e)"
    using Cons.IH [of ?e] Cons.prems(2) by auto
  show ?case
    by (rule Cons.prems(1) [of e'])
      (use e' c s in \<open>auto simp: node_at_slot\<close>)
qed

section \<open>Removing an entity\<close>

definition detach :: "entity_id \<Rightarrow> entity_node \<Rightarrow> entity_node" where
  "detach x n = n\<lparr>n_parent := (if n_parent n = Some x then None else n_parent n),
     n_children := remove1 x (n_children n)\<rparr>"

definition cleared :: "entity_node \<Rightarrow> entity_node" where
  "cleared n = n\<lparr>n_location := None, n_parent := None, n_children := []\<rparr>"

lemma detach_sel [simp]:
  "n_generation (detach x n) = n_generation n" "n_location (detach x n) = n_location n"
  "n_parent (detach x n) = (if n_parent n = Some x then None else n_parent n)"
  "n_children (detach x n) = remove1 x (n_children n)"
  by (simp_all add: detach_def)

lemma cleared_sel [simp]:
  "n_generation (cleared n) = n_generation n" "n_location (cleared n) = None"
  "n_parent (cleared n) = None" "n_children (cleared n) = []"
  by (simp_all add: cleared_def)

lemma no_self_parent: "tree_inv e \<Longrightarrow> alive e x \<Longrightarrow> parent_of e x \<noteq> Some x"
  using tree_invD(7) [of e] by (auto simp: acyclic_def parent_rel_def)

lemma no_two_cycle:
  assumes "tree_inv e" "alive e x" "alive e y" "parent_of e x = Some y"
  shows "parent_of e y \<noteq> Some x"
proof
  assume "parent_of e y = Some x"
  with assms have "(x, y) \<in> parent_rel e" "(y, x) \<in> parent_rel e"
    by (simp_all add: parent_rel_def)
  then have "(x, x) \<in> (parent_rel e)\<^sup>+"
    by auto
  with tree_invD(7) [OF assms(1)] show False
    by (simp add: acyclic_def)
qed

lemma slot_alive: "n_location (slot e i) \<noteq> None \<Longrightarrow> alive e (new_id i (n_generation (slot e i)))"
  by (simp add: alive_def)

lemma slot_parent_alive:
  assumes "tree_inv e" "n_parent (slot e i) = Some p"
  shows "alive e (new_id i (n_generation (slot e i)))" "alive e p"
    "new_id i (n_generation (slot e i)) \<in> set (children_of e p)"
proof -
  have "n_location (slot e i) \<noteq> None"
    using tree_invD(2) [OF assms(1), of i] assms(2) by auto
  then show a: "alive e (new_id i (n_generation (slot e i)))"
    by (rule slot_alive)
  show "alive e p" "new_id i (n_generation (slot e i)) \<in> set (children_of e p)"
    using tree_invD(3) [OF assms(1) a, of p] assms(2) by (simp_all add: parent_of_def)
qed

lemma slot_child_alive:
  assumes "tree_inv e" "c \<in> set (n_children (slot e i))"
  shows "alive e (new_id i (n_generation (slot e i)))" "alive e c"
    "parent_of e c = Some (new_id i (n_generation (slot e i)))"
proof -
  have "n_location (slot e i) \<noteq> None"
    using tree_invD(2) [OF assms(1), of i] assms(2) by fastforce
  then show a: "alive e (new_id i (n_generation (slot e i)))"
    by (rule slot_alive)
  show "alive e c" "parent_of e c = Some (new_id i (n_generation (slot e i)))"
    using tree_invD(4) [OF assms(1) a, of c] assms(2) by (simp_all add: children_of_def)
qed

lemma children_indices:
  assumes "tree_inv e" "alive e x"
  shows "distinct (map index (children_of e x))"
    "i \<in> index ` set (children_of e x) \<longleftrightarrow> n_parent (slot e i) = Some x"
proof -
  have "inj_on index (set (children_of e x))"
    using tree_invD(4) [OF assms] alive_same_index by (meson inj_onI)
  with tree_invD(5) [OF assms] show "distinct (map index (children_of e x))"
    by (simp add: distinct_map)
  show "i \<in> index ` set (children_of e x) \<longleftrightarrow> n_parent (slot e i) = Some x"
  proof
    assume "i \<in> index ` set (children_of e x)"
    then show "n_parent (slot e i) = Some x"
      using tree_invD(4) [OF assms] by (auto simp: parent_of_def)
  next
    assume "n_parent (slot e i) = Some x"
    from slot_parent_alive(3) [OF assms(1) this] show "i \<in> index ` set (children_of e x)"
      by force
  qed
qed

lemma remove_one_effect:
  assumes inv: "tree_inv e" and x: "alive e x"
  obtains e' l where "remove_one pf e x = (Ok l, e')" "n_location (slot e (index x)) = Some l"
    "\<And>i. slot e' i = (if i = index x then cleared (slot e i) else detach x (slot e i))"
    "e_root e' = e_root e - {x} \<union> set (children_of e x)" "e_labeled e' = e_labeled e"
    "length (e_nodes e') = length (e_nodes e)"
proof -
  let ?cs = "children_of e x"
  obtain l where l: "n_location (slot e (index x)) = Some l"
    using x by (auto simp: alive_def)
  have rx: "unat (index x) < length (e_nodes e)"
    using x by (rule alive_in_range)
  define e2 where "e2 = set_node e (index x) (\<lambda>n. n\<lparr>n_location := None, n_parent := None, n_children := []\<rparr>)"
  have s2: "slot e2 i = (if i = index x then cleared (slot e i) else slot e i)" for i
    using rx by (simp add: e2_def slot_set_node cleared_def)
  have len2: "length (e_nodes e2) = length (e_nodes e)" and root2: "e_root e2 = e_root e"
    and lab2: "e_labeled e2 = e_labeled e"
    by (simp_all add: e2_def)
  have up: "alive e p \<and> index p \<noteq> index x \<and> x \<in> set (children_of e p)" if "parent_of e x = Some p" for p
    using tree_invD(3) [OF inv x that] alive_same_index [OF _ x, of p] no_self_parent [OF inv x] that by auto
  have h1: "map_option index (parent_of e x) = Some i" if "x \<in> set (n_children (slot e2 i))" for i
    using that slot_child_alive(3) [OF inv, of x i] by (auto simp: s2 split: if_splits)
  have h2: "n_location (slot e2 (index p)) \<noteq> None \<and> x \<in> set (n_children (slot e2 (index p)))
      \<and> distinct (n_children (slot e2 (index p)))" if "parent_of e x = Some p" for p
    using up [OF that] tree_invD(5) [OF inv, of p] by (simp add: s2 alive_def children_of_def)
  have h3: "x \<in> e_root e2 \<longleftrightarrow> parent_of e x = None"
    using x tree_invD(6) [OF inv] by (simp add: root2)
  obtain e3 where e3: "unlink_child pf e2 x (parent_of e x) = (Ok (), e3)"
    "\<And>i. slot e3 i = (slot e2 i)\<lparr>n_children := remove1 x (n_children (slot e2 i))\<rparr>"
    "e_root e3 = e_root e2 - {x}" "e_labeled e3 = e_labeled e2" "length (e_nodes e3) = length (e_nodes e2)"
    by (rule unlink_effect [OF h1 h2 h3, of pf]) (assumption | rule that)+
  have nox: "index c \<noteq> index x" if "c \<in> set ?cs" for c
    using tree_invD(4) [OF inv x that] alive_same_index [of e c x] x no_self_parent [OF inv x] by auto
  have "\<forall>c\<in>set ?cs. unat (index c) < length (e_nodes e3) \<and> n_parent (slot e3 (index c)) = Some x
       \<and> n_generation (slot e3 (index c)) = generation c"
    using tree_invD(4) [OF inv x] nox
    by (auto simp: e3 s2 len2 alive_in_range alive_def parent_of_def)
  then obtain e4 where e4: "release_children x ?cs e3 = (Ok (), e4)"
    "\<And>i. slot e4 i = (if i \<in> index ` set ?cs then (slot e3 i)\<lparr>n_parent := None\<rparr> else slot e3 i)"
    "e_root e4 = e_root e3 \<union> set ?cs" "e_labeled e4 = e_labeled e3"
    "length (e_nodes e4) = length (e_nodes e3)"
    using release_children_effect [OF children_indices(1) [OF inv x]] by blast
  have "remove_one pf e x = (Ok l, e4)"
    using x l e3(1) e4(1) rx
    by (simp add: remove_one_def ensure_exist_def node_at_slot alive_def e2_def parent_of_def children_of_def)
  moreover have "slot e4 i = (if i = index x then cleared (slot e i) else detach x (slot e i))" for i
  proof (cases "i = index x")
    case True
    then have "i \<notin> index ` set ?cs"
      using nox by force
    with True show ?thesis by (simp add: e4 e3 s2 cleared_def)
  next
    case False
    then show ?thesis
      using children_indices(2) [OF inv x, of i] by (simp add: e4 e3 s2 detach_def)
  qed
  ultimately show ?thesis
    using that [of l e4] l by (simp add: e3 e4 root2 lab2 len2)
qed

text \<open>What a removal does to the tree as clients see it.\<close>

lemma removed_view:
  assumes inv: "tree_inv e" and x: "alive e x"
    and s: "\<And>i. slot e' i = (if i = index x then cleared (slot e i) else detach x (slot e i))"
  shows "alive e' y \<longleftrightarrow> alive e y \<and> y \<noteq> x"
    and "alive e' y \<Longrightarrow> parent_of e' y = (if parent_of e y = Some x then None else parent_of e y)"
    and "alive e' y \<Longrightarrow> children_of e' y = remove1 x (children_of e y)"
proof -
  show a: "alive e' y \<longleftrightarrow> alive e y \<and> y \<noteq> x" for y
  proof (cases "index y = index x")
    case True
    then have "\<not> alive e' y"
      by (simp add: alive_def s)
    moreover have "alive e y \<Longrightarrow> y = x"
      using True x by (blast intro: alive_same_index)
    ultimately show ?thesis by blast
  next
    case False
    then have "alive e' y \<longleftrightarrow> alive e y" "y \<noteq> x"
      by (auto simp: alive_def s)
    then show ?thesis by blast
  qed
  have i: "index y \<noteq> index x" if "alive e' y"
    using that by (auto simp: alive_def s)
  show "alive e' y \<Longrightarrow> parent_of e' y = (if parent_of e y = Some x then None else parent_of e y)"
    using i by (simp add: parent_of_def s)
  show "alive e' y \<Longrightarrow> children_of e' y = remove1 x (children_of e y)"
    using i by (simp add: children_of_def s)
qed

lemma remove_one_inv:
  assumes inv: "tree_inv e" and x: "alive e x" and r: "remove_one pf e x = (Ok l, e')"
  shows "tree_inv e'"
proof -
  have s: "\<And>i. slot e' i = (if i = index x then cleared (slot e i) else detach x (slot e i))"
    and root: "e_root e' = e_root e - {x} \<union> set (children_of e x)"
    by (rule remove_one_effect [OF inv x, of pf], use r in simp)+
  note v = removed_view [OF inv x s]
  have rel: "parent_rel e' \<subseteq> parent_rel e"
    using v by (auto simp: parent_rel_def split: if_splits)
  show ?thesis
  proof (rule tree_invI)
    fix i c p r
    show "n_generation (slot e' i) \<noteq> 0"
      using tree_invD(1) [OF inv] by (simp add: s)
    show "n_parent (slot e' i) = None \<and> n_children (slot e' i) = []" if "n_location (slot e' i) = None"
      using that tree_invD(2) [OF inv, of i] by (cases "i = index x") (auto simp: s)
    show "alive e' p \<and> c \<in> set (children_of e' p)" if "alive e' c" "parent_of e' c = Some p"
    proof -
      have "parent_of e c = Some p" "p \<noteq> x" "alive e c" "c \<noteq> x"
        using that v(1,2) by (auto split: if_splits)
      moreover from this have "alive e p" "c \<in> set (children_of e p)" "distinct (children_of e p)"
        using tree_invD(3,5) [OF inv] by blast+
      ultimately show ?thesis
        using v(1,3) by simp
    qed
    show "alive e' c \<and> parent_of e' c = Some p" if "alive e' p" "c \<in> set (children_of e' p)"
    proof -
      have p: "alive e p" "p \<noteq> x" "distinct (children_of e p)"
        using that v(1) tree_invD(5) [OF inv] by auto
      then have "c \<in> set (children_of e p)" "c \<noteq> x"
        using that v(3) by (simp_all add: set_remove1_eq)
      then show ?thesis
        using tree_invD(4) [OF inv p(1)] p v(1,2) by auto
    qed
    show "distinct (children_of e' p)" if "alive e' p"
      using that v(1,3) tree_invD(5) [OF inv] by simp
    have "r \<in> set (children_of e x) \<longleftrightarrow> alive e r \<and> parent_of e r = Some x"
      using tree_invD(3,4) [OF inv] x by blast
    moreover have "parent_of e x \<noteq> Some x"
      by (rule no_self_parent [OF inv x])
    ultimately show "r \<in> e_root e' \<longleftrightarrow> alive e' r \<and> parent_of e' r = None"
      using v(1) [of r] v(2) [of r] unfolding root tree_invD(6) [OF inv]
      by (cases "r = x"; cases "parent_of e r = Some x") auto
    show "acyclic (parent_rel e')"
      using tree_invD(7) [OF inv] rel by (rule acyclic_subset)
  qed
qed

lemma remove_one_total:
  assumes "tree_inv e"
  shows "fst (remove_one pf e x) =
    (if index x = 0xFFFFFFFF \<and> length (e_nodes e) < 2 ^ 32 then Panic
     else if alive e x then Ok (the (n_location (slot e (index x))))
     else if n_generation (slot e (index x)) \<noteq> generation x then Err (mismatch (slot e (index x)) x)
     else Err (NotSpawned x))"
proof (cases "alive e x")
  case True
  have "\<not> (index x = 0xFFFFFFFF \<and> length (e_nodes e) < 2 ^ 32)"
    using alive_in_range [OF True] by auto
  moreover have "fst (remove_one pf e x) = Ok (the (n_location (slot e (index x))))"
    by (rule remove_one_effect [OF assms True, of pf]) simp
  ultimately show ?thesis
    using True by simp
next
  case False
  show ?thesis
  proof (cases rule: ensure_exist_cases [of pf e "index x"])
    case (1 e1)
    have "\<not> (index x = 0xFFFFFFFF \<and> length (e_nodes e) < 2 ^ 32)"
      using 1 ensure_exist_Panic [of pf e "index x" e] by auto
    then show ?thesis
      using 1 False ensure_exist_Ok(1,4) [OF 1]
      by (auto simp: remove_one_def node_at_slot alive_def split: option.split)
  next
    case 2
    then show ?thesis by (simp add: remove_one_def)
  qed
qed

section \<open>Inserting an entity\<close>

definition valid_parent :: "entities \<Rightarrow> entity_id \<Rightarrow> entity_id option \<Rightarrow> bool" where
  "valid_parent e x parent \<longleftrightarrow> (case parent of None \<Rightarrow> True | Some p \<Rightarrow> p \<noteq> x \<and> alive e p)"

lemma insert_checks_Ok:
  "insert_checks e x parent = Ok () \<longleftrightarrow>
     valid_parent e x parent \<and> unat (index x) < length (e_nodes e)
       \<and> n_generation (slot e (index x)) = generation x \<and> n_location (slot e (index x)) = None"
  by (auto simp: insert_checks_def valid_parent_def alive_def slot_def node_at_def split: option.splits)

lemma insert_checks_not_Panic: "insert_checks e x parent \<noteq> Panic"
  by (auto simp: insert_checks_def split: option.splits)

definition attached :: "entity_id \<Rightarrow> entity_id option \<Rightarrow> location \<Rightarrow> u32 \<Rightarrow> entity_node \<Rightarrow> entity_node" where
  "attached x parent l i n =
     (if i = index x then n\<lparr>n_location := Some l, n_parent := parent\<rparr>
      else case parent of
        Some p \<Rightarrow> if i = index p then n\<lparr>n_children := n_children n @ [x]\<rparr> else n
      | None \<Rightarrow> n)"

lemma insert_one_effect:
  assumes inv: "tree_inv e" and ok: "valid_parent e x parent"
    and gen: "n_generation (slot e (index x)) = generation x" and free: "n_location (slot e (index x)) = None"
    and ex: "ensure_exist pf e (index x) = (Ok (), e1)"
  obtains e' where "insert_one pf e x parent l = (Ok (), e')"
    "\<And>i. slot e' i = attached x parent l i (slot e i)"
    "e_root e' = (if parent = None then insert x (e_root e) else e_root e)" "e_labeled e' = e_labeled e"
    "length (e_nodes e') = length (e_nodes e1)"
proof -
  note e1 = ensure_exist_Ok [OF ex]
  define e2 where "e2 = set_node e1 (index x) (\<lambda>n. n\<lparr>n_location := Some l, n_parent := parent\<rparr>)"
  have s2: "slot e2 i = (if i = index x then (slot e i)\<lparr>n_location := Some l, n_parent := parent\<rparr> else slot e i)" for i
    using e1 by (simp add: e2_def slot_set_node)
  have "insert_checks e1 x parent = Ok ()"
    using ok gen free e1 view_cong(1) [OF e1(1)]
    by (auto simp: insert_checks_Ok valid_parent_def split: option.splits)
  moreover have "n_children (slot e (index x)) = []"
    using tree_invD(2) [OF inv free] by simp
  then have "n_children (e_nodes e2 ! unat (index x)) = []"
    using e1 s2 by (subst nth_slot) (simp_all add: e2_def)
  ultimately have ins: "insert_one pf e x parent l = link_child e2 x parent"
    by (simp add: insert_one_def ex e2_def Let_def)
  have dead: "\<not> alive e x"
    using free by (simp add: alive_def)
  have px: "alive e p \<and> index p \<noteq> index x" if "parent = Some p" for p
    using that ok free by (auto simp: valid_parent_def alive_def)
  have h1: "unat (index p) < length (e_nodes e2) \<and> x \<notin> set (n_children (slot e2 (index p)))"
    if "parent = Some p" for p
    using px [OF that] slot_child_alive(2) [OF inv, of x "index p"] dead alive_in_range [of e p] e1(5)
    by (auto simp: s2) (simp add: e2_def)
  have h2: "x \<notin> e_root e2"
    using tree_invD(6) [OF inv] dead e1(2) by (simp add: e2_def)
  obtain e3 where e3: "link_child e2 x parent = (Ok (), e3)"
    "\<And>i. slot e3 i = (slot e2 i)\<lparr>n_children := n_children (slot e2 i)
       @ (if map_option index parent = Some i then [x] else [])\<rparr>"
    "e_root e3 = (if parent = None then insert x (e_root e2) else e_root e2)" "e_labeled e3 = e_labeled e2"
    "length (e_nodes e3) = length (e_nodes e2)"
    by (rule link_effect [of parent e2 x, OF h1 h2]) (assumption | rule that)+
  have "slot e3 i = attached x parent l i (slot e i)" for i
    using px by (auto simp: e3 s2 attached_def split: option.split)
  then show ?thesis
    using that [of e3] ins e3 e1 by (simp add: e2_def)
qed

lemma inserted_view:
  assumes free: "n_location (slot e (index x)) = None" and gen: "n_generation (slot e (index x)) = generation x"
    and ok: "valid_parent e x parent" and s: "\<And>i. slot e' i = attached x parent l i (slot e i)"
  shows "alive e' y \<longleftrightarrow> alive e y \<or> y = x"
    and "alive e' y \<Longrightarrow> parent_of e' y = (if y = x then parent else parent_of e y)"
    and "alive e' y \<Longrightarrow> children_of e' y = children_of e y @ (if parent = Some y then [x] else [])"
proof -
  show a: "alive e' y \<longleftrightarrow> alive e y \<or> y = x" for y
    using free gen by (auto simp: alive_def s attached_def entity_id_eq_iff split: option.splits)
  have i: "index y = index x \<longleftrightarrow> y = x" if "alive e' y" for y
    using that a free by (auto simp: alive_def)
  show "alive e' y \<Longrightarrow> parent_of e' y = (if y = x then parent else parent_of e y)"
    using i by (auto simp: parent_of_def s attached_def split: option.splits)
  show "alive e' y \<Longrightarrow> children_of e' y = children_of e y @ (if parent = Some y then [x] else [])"
  proof (cases parent)
    case (Some p)
    assume y: "alive e' y"
    have "p \<noteq> x" "alive e' p"
      using ok Some a by (auto simp: valid_parent_def)
    with y have "index y = index p \<longleftrightarrow> y = p" "index p \<noteq> index x"
      using i alive_same_index [of e' y p] by auto
    then show ?thesis
      using Some by (auto simp: children_of_def s attached_def)
  qed (simp add: children_of_def s attached_def)
qed

text \<open>Adding one edge to the forest, for insertions and moves.\<close>

lemma grown_tree_inv:
  assumes inv: "tree_inv e"
    and gen: "\<And>i. n_generation (slot e' i) = n_generation (slot e i)"
    and unused: "\<And>i. n_location (slot e' i) = None \<Longrightarrow>
      n_location (slot e i) = None \<and> n_parent (slot e' i) = n_parent (slot e i) \<and> n_children (slot e' i) = n_children (slot e i)"
    and alive: "\<And>y. alive e' y \<longleftrightarrow> alive e y \<or> y = x"
    and par: "\<And>y. alive e' y \<Longrightarrow> parent_of e' y = (if y = x then parent else parent_of e y)"
    and chi: "\<And>y. alive e' y \<Longrightarrow> children_of e' y = remove1 x (children_of e y) @ (if parent = Some y then [x] else [])"
    and root: "e_root e' = (if parent = None then insert x (e_root e) else e_root e - {x})"
    and ok: "\<And>p. parent = Some p \<Longrightarrow> alive e p \<and> (x, p) \<notin> (parent_rel e)\<^sup>*"
    and nochild: "\<not> alive e x \<Longrightarrow> children_of e x = []"
  shows "tree_inv e'"
proof (rule tree_invI)
  have edge: "c \<in> set (children_of e p) \<longleftrightarrow> alive e c \<and> parent_of e c = Some p" if "alive e' p" for c p
  proof (cases "alive e p")
    case True
    then show ?thesis
      using tree_invD(3,4) [OF inv] by blast
  next
    case False
    then have "p = x"
      using that alive by blast
    then show ?thesis
      using False nochild tree_invD(3) [OF inv, of c x] by auto
  qed
  have dist: "distinct (children_of e p)" if "alive e' p" for p
    using that tree_invD(5) [OF inv, of p] nochild alive [of p] by (cases "alive e p") auto
  have mem: "c \<in> set (children_of e' p) \<longleftrightarrow> (if c = x then parent = Some p else c \<in> set (children_of e p))"
    if "alive e' p" for c p
  proof -
    have "set (children_of e' p) = (set (children_of e p) - {x}) \<union> (if parent = Some p then {x} else {})"
      unfolding chi [OF that] set_append set_remove1_eq [OF dist [OF that]]
      by (cases "parent = Some p") simp_all
    then show ?thesis
      by (cases "parent = Some p") auto
  qed
  fix i c p r
  show "n_generation (slot e' i) \<noteq> 0"
    using tree_invD(1) [OF inv] by (simp add: gen)
  show "n_parent (slot e' i) = None \<and> n_children (slot e' i) = []" if "n_location (slot e' i) = None"
    using that tree_invD(2) [OF inv, of i] unused by auto
  show "alive e' p \<and> c \<in> set (children_of e' p)" if "alive e' c" "parent_of e' c = Some p"
  proof -
    have "alive e' p"
      using that alive ok par tree_invD(3) [OF inv] by (metis)
    moreover have "if c = x then parent = Some p else c \<in> set (children_of e p)"
      using that par [OF that(1)] alive [of c] edge [OF \<open>alive e' p\<close>, of c] by auto
    ultimately show ?thesis
      using mem [of p c] by blast
  qed
  show "alive e' c \<and> parent_of e' c = Some p" if "alive e' p" "c \<in> set (children_of e' p)"
    using mem [OF that(1), of c] that(2) edge [OF that(1), of c] alive [of c] par [of c]
    by (cases "c = x") auto
  show "distinct (children_of e' p)" if "alive e' p"
    unfolding chi [OF that] using dist [OF that]
    by (cases "parent = Some p") (simp_all add: set_remove1_eq)
  show "r \<in> e_root e' \<longleftrightarrow> alive e' r \<and> parent_of e' r = None"
    using alive [of r] par [of r] unfolding root tree_invD(6) [OF inv]
    by (cases "r = x"; cases parent) auto
  have "parent_rel e' \<subseteq> (case parent of Some p \<Rightarrow> insert (p, x) (parent_rel e) | None \<Rightarrow> parent_rel e)"
    using alive par by (auto simp: parent_rel_def split: option.splits if_splits)
  moreover have "acyclic (case parent of Some p \<Rightarrow> insert (p, x) (parent_rel e) | None \<Rightarrow> parent_rel e)"
    using ok tree_invD(7) [OF inv] by (auto split: option.split)
  ultimately show "acyclic (parent_rel e')"
    using acyclic_subset by blast
qed

lemma insert_one_inv:
  assumes inv: "tree_inv e" and ok: "valid_parent e x parent"
    and gen: "n_generation (slot e (index x)) = generation x" and free: "n_location (slot e (index x)) = None"
    and r: "insert_one pf e x parent l = (Ok (), e')"
  shows "tree_inv e'"
proof -
  obtain e1 where ex: "ensure_exist pf e (index x) = (Ok (), e1)"
    using r by (auto simp: insert_one_def then_do_Ok_iff)
  have s: "\<And>i. slot e' i = attached x parent l i (slot e i)"
    and root: "e_root e' = (if parent = None then insert x (e_root e) else e_root e)"
    by (rule insert_one_effect [OF inv ok gen free ex, of l], use r in simp)+
  note v = inserted_view [OF free gen ok s]
  have dead: "\<not> alive e x"
    using free by (simp add: alive_def)
  have nochild: "x \<notin> set (children_of e y)" for y
    using slot_child_alive(2) [OF inv, of x "index y"] dead by (auto simp: children_of_def)
  have out: "(x, z) \<notin> (parent_rel e)" for z
    using dead tree_invD(3) [OF inv] by (auto simp: parent_rel_def)
  show ?thesis
  proof (rule grown_tree_inv [OF inv, of e' x parent])
    fix i y p
    show "n_generation (slot e' i) = n_generation (slot e i)"
      by (simp add: s attached_def split: option.split)
    show "n_location (slot e i) = None \<and> n_parent (slot e' i) = n_parent (slot e i)
        \<and> n_children (slot e' i) = n_children (slot e i)" if "n_location (slot e' i) = None"
    proof (cases parent)
      case (Some q)
      then have "n_location (slot e (index q)) \<noteq> None"
        using ok by (simp add: valid_parent_def alive_def)
      with that Some show ?thesis
        by (auto simp: s attached_def split: if_splits)
    qed (use that in \<open>auto simp: s attached_def split: if_splits\<close>)
    show "children_of e' y = remove1 x (children_of e y) @ (if parent = Some y then [x] else [])"
      if "alive e' y"
      using v(3) [OF that] nochild by (simp add: remove1_idem)
    show "e_root e' = (if parent = None then insert x (e_root e) else e_root e - {x})"
      using dead tree_invD(6) [OF inv] by (auto simp: root)
    show "alive e p \<and> (x, p) \<notin> (parent_rel e)\<^sup>*" if "parent = Some p"
      using that ok out by (auto simp: valid_parent_def elim: converse_rtranclE)
    show "children_of e x = []"
      using tree_invD(2) [OF inv free] by (simp add: children_of_def)
    show "alive e' y \<longleftrightarrow> alive e y \<or> y = x"
      by (rule v(1))
    show "parent_of e' y = (if y = x then parent else parent_of e y)" if "alive e' y"
      using that by (rule v(2))
  qed
qed

section \<open>Moving an entity\<close>

lemma modify_parent_move:
  assumes inv: "tree_inv e" and x: "alive e x" and p: "\<And>p. parent = Some p \<Longrightarrow> alive e p"
    and new: "parent_of e x \<noteq> parent" and up: "\<And>p. parent = Some p \<Longrightarrow> (x, p) \<notin> (parent_rel e)\<^sup>*"
  obtains e' where "modify_parent_without_signal pf e x parent = Some (Ok True, e')" "tree_inv e'"
    "\<And>y. alive e' y \<longleftrightarrow> alive e y"
    "\<And>y. alive e y \<Longrightarrow> parent_of e' y = (if y = x then parent else parent_of e y)"
    "\<And>i. n_location (slot e' i) = n_location (slot e i)" "\<And>i. n_generation (slot e' i) = n_generation (slot e i)"
    "e_labeled e' = e_labeled e"
proof -
  have rx: "unat (index x) < length (e_nodes e)"
    using x by (rule alive_in_range)
  define e1 where "e1 = set_node e (index x) (\<lambda>n. n\<lparr>n_parent := parent\<rparr>)"
  have s1: "slot e1 i = (if i = index x then (slot e i)\<lparr>n_parent := parent\<rparr> else slot e i)" for i
    using rx by (simp add: e1_def slot_set_node)
  have h1: "map_option index (parent_of e x) = Some i" if "x \<in> set (n_children (slot e1 i))" for i
    using that slot_child_alive(3) [OF inv, of x i] by (auto simp: s1 split: if_splits)
  have h2: "n_location (slot e1 (index q)) \<noteq> None \<and> x \<in> set (n_children (slot e1 (index q)))
      \<and> distinct (n_children (slot e1 (index q)))" if "parent_of e x = Some q" for q
    using tree_invD(3) [OF inv x that] tree_invD(5) [OF inv, of q]
    by (auto simp: s1 alive_def children_of_def)
  have h3: "x \<in> e_root e1 \<longleftrightarrow> parent_of e x = None"
    using x tree_invD(6) [OF inv] by (simp add: e1_def)
  obtain e2 where e2: "unlink_child pf e1 x (parent_of e x) = (Ok (), e2)"
    "\<And>i. slot e2 i = (slot e1 i)\<lparr>n_children := remove1 x (n_children (slot e1 i))\<rparr>"
    "e_root e2 = e_root e1 - {x}" "e_labeled e2 = e_labeled e1" "length (e_nodes e2) = length (e_nodes e1)"
    by (rule unlink_effect [OF h1 h2 h3, of pf]) (assumption | rule that)+
  have nx: "x \<notin> set (n_children (slot e2 i))" for i
  proof (cases "x \<in> set (n_children (slot e i))")
    case True
    have "distinct (n_children (slot e i))"
      using tree_invD(5) [OF inv slot_child_alive(1) [OF inv True]] by (simp add: children_of_def)
    then show ?thesis by (auto simp: e2 s1 set_remove1_eq)
  next
    case False
    then show ?thesis by (auto simp: e2 s1 remove1_idem)
  qed
  have h4: "unat (index q) < length (e_nodes e2) \<and> x \<notin> set (n_children (slot e2 (index q)))"
    if "parent = Some q" for q
    using p [OF that] nx e2(5) by (simp add: e1_def alive_in_range)
  have h5: "x \<notin> e_root e2"
    by (simp add: e2)
  obtain e3 where e3: "link_child e2 x parent = (Ok (), e3)"
    "\<And>i. slot e3 i = (slot e2 i)\<lparr>n_children := n_children (slot e2 i)
       @ (if map_option index parent = Some i then [x] else [])\<rparr>"
    "e_root e3 = (if parent = None then insert x (e_root e2) else e_root e2)" "e_labeled e3 = e_labeled e2"
    "length (e_nodes e3) = length (e_nodes e2)"
    by (rule link_effect [of parent e2 x, OF h4 h5]) (assumption | rule that)+
  have loc: "n_location (slot e3 i) = n_location (slot e i)" "n_generation (slot e3 i) = n_generation (slot e i)"
    "n_parent (slot e3 i) = (if i = index x then parent else n_parent (slot e i))"
    "n_children (slot e3 i) = remove1 x (n_children (slot e i)) @ (if map_option index parent = Some i then [x] else [])" for i
    by (simp_all add: e3 e2 s1)
  have a: "alive e3 y \<longleftrightarrow> alive e y" for y
    by (simp add: alive_def loc)
  have par: "parent_of e3 y = (if y = x then parent else parent_of e y)" if "alive e y" for y
    using that alive_same_index [OF that x] by (auto simp: parent_of_def loc)
  have anc: "(case parent of None \<Rightarrow> Ok () | Some p \<Rightarrow>
      (case get_node e p of Ok _ \<Rightarrow> Ok () | Err err \<Rightarrow> Err err | Panic \<Rightarrow> Panic)) = (Ok () :: (entity_error, unit) outcome)"
    "is_ancestor e x parent = Some (Some False)"
    using p up is_ancestor_terminates [OF inv, of _ x] is_ancestor_step [of e x None]
    by (cases parent; simp add: get_node_eq)+
  then have "modify_parent_without_signal pf e x parent = Some (Ok True, e3)"
    using x new e2(1) e3(1) by (simp add: modify_parent_without_signal_def get_node_eq parent_of_def e1_def)
  moreover have "tree_inv e3"
  proof (rule grown_tree_inv [OF inv, of e3 x parent])
    fix i y q
    show "n_location (slot e i) = None \<and> n_parent (slot e3 i) = n_parent (slot e i)
        \<and> n_children (slot e3 i) = n_children (slot e i)" if "n_location (slot e3 i) = None"
    proof -
      have "i \<noteq> index x" "map_option index parent \<noteq> Some i"
        using that x p by (auto simp: loc alive_def)
      then show ?thesis
        using that tree_invD(2) [OF inv, of i] by (simp add: loc)
    qed
    show "alive e3 y \<longleftrightarrow> alive e y \<or> y = x"
      using a x by auto
    show "parent_of e3 y = (if y = x then parent else parent_of e y)" if "alive e3 y"
      using that a par by simp
    show "children_of e3 y = remove1 x (children_of e y) @ (if parent = Some y then [x] else [])"
      if "alive e3 y"
    proof -
      have "map_option index parent = Some (index y) \<longleftrightarrow> parent = Some y"
        using p that a alive_same_index [of e _ y] by (cases parent) auto
      then show ?thesis by (simp add: children_of_def loc)
    qed
    show "e_root e3 = (if parent = None then insert x (e_root e) else e_root e - {x})"
      by (simp add: e3 e2 e1_def)
  qed (use loc p up x in auto)
  ultimately show ?thesis
    using that [of e3] a par loc(1,2) e3(4) e2(4) by (simp add: e1_def)
qed

end
