(* ===== verification/Entity_Forest.thy ===== *)
theory Entity_Forest
  imports Entity_Tree
begin

text \<open>
  The contract of the entity tree (\<^verbatim>\<open>zlim-core/src/entity/entities.rs\<close>): the outcome of every
  operation on every branch, the transition system of the operations as clients call them, and the
  properties of the states it reaches. The abstract specification is a forest given by a partial
  map from live ids to their parents; the children lists, the root set and the slot
  vector of the code are determined by it.
\<close>

section \<open>Outcomes\<close>

lemma insert_one_total:
  assumes "tree_inv e"
  shows "fst (insert_one pf e x parent l) =
    (if index x = 0xFFFFFFFF \<and> length (e_nodes e) < 2 ^ 32 then Panic
     else insert_checks (snd (ensure_exist pf e (index x))) x parent)"
proof (cases rule: ensure_exist_cases [of pf e "index x"])
  case (1 e1)
  have np: "\<not> (index x = 0xFFFFFFFF \<and> length (e_nodes e) < 2 ^ 32)"
    using 1 ensure_exist_Panic [of pf e "index x" e] by auto
  show ?thesis
  proof (cases "insert_checks e1 x parent")
    case (Ok u)
    then have "valid_parent e x parent" "n_generation (slot e (index x)) = generation x"
      "n_location (slot e (index x)) = None"
      using insert_checks_Ok [of e1 x parent] ensure_exist_Ok(1) [OF 1] view_cong(1) [of e1 e]
      by (auto simp: valid_parent_def split: option.splits)
    then have "fst (insert_one pf e x parent l) = Ok ()"
      by (rule insert_one_effect [OF assms _ _ _ 1, of parent l]) simp
    then show ?thesis
      using np 1 Ok by simp
  next
    case (Err err)
    then show ?thesis
      using np 1 by (simp add: insert_one_def)
  next
    case Panic
    then show ?thesis
      by (simp add: insert_checks_not_Panic)
  qed
next
  case 2
  then show ?thesis by (simp add: insert_one_def)
qed

lemma insert_one_Ok:
  assumes "tree_inv e" "insert_one pf e x parent l = (Ok u, e')"
  shows "valid_parent e x parent" "n_generation (slot e (index x)) = generation x"
    "n_location (slot e (index x)) = None" "tree_inv e'"
    "\<And>i. slot e' i = attached x parent l i (slot e i)" "e_labeled e' = e_labeled e"
proof -
  obtain e1 where ex: "ensure_exist pf e (index x) = (Ok (), e1)" and c: "insert_checks e1 x parent = Ok ()"
    using assms(2) by (auto simp: insert_one_def then_do_Ok_iff)
  show a: "valid_parent e x parent" "n_generation (slot e (index x)) = generation x"
    "n_location (slot e (index x)) = None"
    using c insert_checks_Ok [of e1 x parent] ensure_exist_Ok(1) [OF ex] view_cong(1) [of e1 e]
    by (auto simp: valid_parent_def split: option.splits)
  show "tree_inv e'"
    using insert_one_inv [OF assms(1) a] assms(2) by simp
  show "\<And>i. slot e' i = attached x parent l i (slot e i)" "e_labeled e' = e_labeled e"
    by (rule insert_one_effect [OF assms(1) a ex, of l], use assms(2) in simp)+
qed

lemma remove_one_Ok:
  assumes "tree_inv e" "remove_one pf e x = (Ok l, e')"
  shows "alive e x" "n_location (slot e (index x)) = Some l" "tree_inv e'"
    "\<And>i. slot e' i = (if i = index x then cleared (slot e i) else detach x (slot e i))"
    "e_labeled e' = e_labeled e"
proof -
  show a: "alive e x"
    using remove_one_total [OF assms(1), of pf x] assms(2) by (auto split: if_splits)
  show "tree_inv e'"
    by (rule remove_one_inv [OF assms(1) a assms(2)])
  show "n_location (slot e (index x)) = Some l"
    "\<And>i. slot e' i = (if i = index x then cleared (slot e i) else detach x (slot e i))"
    "e_labeled e' = e_labeled e"
    by (rule remove_one_effect [OF assms(1) a, of pf], use assms(2) in simp)+
qed

text \<open>A failing operation leaves the slots and the root set as they were, at most growing the vector.\<close>

definition same_tree :: "entities \<Rightarrow> entities \<Rightarrow> bool" where
  "same_tree e e' \<longleftrightarrow> slot e' = slot e \<and> e_root e' = e_root e \<and> e_labeled e' = e_labeled e"

lemma same_tree_refl [simp]: "same_tree e e"
  by (simp add: same_tree_def)

lemma ensure_exist_same: "same_tree e (snd (ensure_exist pf e i))"
  by (rule ensure_exist_cases [of pf e i])
    (auto simp: same_tree_def dest: ensure_exist_Ok)

lemma insert_one_Err:
  assumes "insert_one pf e x parent l = (Err err, e')"
  shows "same_tree e e'"
proof (rule ensure_exist_cases [of pf e "index x"])
  fix e1
  assume 1: "ensure_exist pf e (index x) = (Ok (), e1)"
  have "same_tree e e1"
    using ensure_exist_same [of e pf "index x"] 1 by simp
  moreover have "e' = e1"
    using assms 1
    by (cases "insert_checks e1 x parent")
      (auto simp: insert_one_def Let_def link_child_def split: if_splits option.splits)
  ultimately show ?thesis by simp
qed (use assms in \<open>auto simp: insert_one_def\<close>)

lemma release_children_not_Err: "fst (release_children x cs e) \<noteq> Err err"
  by (induction cs arbitrary: e) (auto split: option.split)

lemma unlink_child_not_Err: "fst (unlink_child pf e x parent) \<noteq> Err err"
  by (auto simp: unlink_child_def split: option.split)

lemma link_child_not_Err: "fst (link_child e x parent) \<noteq> Err err"
  by (auto simp: link_child_def split: option.split)

lemma then_do_Err:
  "then_do r f = (Err err, s') \<Longrightarrow> (r = (Err err, s') \<or> (\<exists>a s. r = (Ok a, s) \<and> f a s = (Err err, s')))"
  by (cases r; cases "fst r") auto

lemma remove_one_Err:
  assumes "remove_one pf e x = (Err err, e')"
  shows "same_tree e e'"
proof (rule ensure_exist_cases [of pf e "index x"])
  fix e1
  assume 1: "ensure_exist pf e (index x) = (Ok (), e1)"
  have "same_tree e e1"
    using ensure_exist_same [of e pf "index x"] 1 by simp
  moreover have "e' = e1"
    using assms 1 unlink_child_not_Err release_children_not_Err
    by (auto simp: remove_one_def Let_def split: if_splits option.splits dest!: then_do_Err)
      (metis fst_conv)+
  ultimately show ?thesis by simp
qed (use assms in \<open>auto simp: remove_one_def\<close>)

lemma free_slot_total:
  "free_slot pf e i =
    (case ensure_exist pf e i of
       (Ok _, e1) \<Rightarrow>
         let nxt = next_generation (new_id i (n_generation (slot e i)))
         in if n_location (slot e i) \<noteq> None \<or> generation nxt = 0 then (Panic, e1)
            else (Ok nxt, set_node e1 i (\<lambda>n. n\<lparr>n_generation := generation nxt\<rparr>))
     | (_, e1) \<Rightarrow> (Panic, e1))"
proof (rule ensure_exist_cases [of pf e i])
  fix e1
  assume 1: "ensure_exist pf e i = (Ok (), e1)"
  have "e_nodes e1 ! unat i = slot e i"
    using ensure_exist_Ok(1,4) [OF 1] nth_slot [of i e1] by simp
  with 1 show ?thesis
    by (simp add: free_slot_def Let_def)
qed (simp add: free_slot_def)

lemma free_slot_Ok:
  assumes "free_slot pf e i = (Ok nxt, e')"
  shows "n_location (slot e i) = None" "nxt = next_generation (new_id i (n_generation (slot e i)))"
    "generation nxt \<noteq> 0" "e_root e' = e_root e" "e_labeled e' = e_labeled e"
    "\<And>j. slot e' j = (if j = i then (slot e i)\<lparr>n_generation := generation nxt\<rparr> else slot e j)"
proof -
  obtain e1 where 1: "ensure_exist pf e i = (Ok (), e1)"
    using assms by (auto simp: free_slot_def then_do_Ok_iff)
  note e1 = ensure_exist_Ok [OF 1]
  have r: "n_location (slot e i) = None" "generation nxt \<noteq> 0"
    "nxt = next_generation (new_id i (n_generation (slot e i)))"
    "e' = set_node e1 i (\<lambda>n. n\<lparr>n_generation := generation nxt\<rparr>)"
    using assms by (auto simp: free_slot_total 1 Let_def split: if_splits)
  show "n_location (slot e i) = None" "nxt = next_generation (new_id i (n_generation (slot e i)))"
    "generation nxt \<noteq> 0" "e_root e' = e_root e" "e_labeled e' = e_labeled e"
    using r e1 by simp_all
  show "\<And>j. slot e' j = (if j = i then (slot e i)\<lparr>n_generation := generation nxt\<rparr> else slot e j)"
    using r(4) e1(1,4) by (simp add: slot_set_node)
qed

lemma free_slot_view:
  assumes "free_slot pf e i = (Ok nxt, e')"
  shows "alive e' = alive e" "alive e y \<Longrightarrow> parent_of e' y = parent_of e y"
    "alive e y \<Longrightarrow> children_of e' y = children_of e y"
proof -
  note f = free_slot_Ok [OF assms]
  have a: "index y \<noteq> i" if "alive e y" for y
    using that f(1) by (auto simp: alive_def)
  show "alive e' = alive e"
    using f(1,6) by (auto simp: alive_def fun_eq_iff)
  show "alive e y \<Longrightarrow> parent_of e' y = parent_of e y" "alive e y \<Longrightarrow> children_of e' y = children_of e y"
    using a f(6) by (simp_all add: parent_of_def children_of_def)
qed

text \<open>Updates that keep the forest: a new generation for an unused slot, a new row for a used one.\<close>

lemma same_forest_inv:
  assumes inv: "tree_inv e" and a: "alive e' = alive e"
    and view: "\<And>y. alive e y \<Longrightarrow> parent_of e' y = parent_of e y \<and> children_of e' y = children_of e y"
    and root: "e_root e' = e_root e" and gen: "\<And>i. n_generation (slot e' i) \<noteq> 0"
    and unused: "\<And>i. n_location (slot e' i) = None \<Longrightarrow> n_parent (slot e' i) = None \<and> n_children (slot e' i) = []"
  shows "tree_inv e'"
proof (rule tree_invI)
  fix c p r
  show "alive e' p \<and> c \<in> set (children_of e' p)" if "alive e' c" "parent_of e' c = Some p"
    using that tree_invD(3) [OF inv, of c p] view a by auto
  show "alive e' c \<and> parent_of e' c = Some p" if "alive e' p" "c \<in> set (children_of e' p)"
    using that tree_invD(4) [OF inv, of p c] view a by auto
  show "distinct (children_of e' p)" if "alive e' p"
    using that tree_invD(5) [OF inv] view a by auto
  show "r \<in> e_root e' \<longleftrightarrow> alive e' r \<and> parent_of e' r = None"
    using tree_invD(6) [OF inv] view a root by auto
  have "parent_rel e' = parent_rel e"
    using view a by (auto simp: parent_rel_def)
  then show "acyclic (parent_rel e')"
    using tree_invD(7) [OF inv] by simp
qed (use gen unused in auto)

lemma free_slot_inv:
  assumes "tree_inv e" "free_slot pf e i = (Ok nxt, e')"
  shows "tree_inv e'"
proof (rule same_forest_inv [OF assms(1)])
  note f = free_slot_Ok [OF assms(2)] and v = free_slot_view [OF assms(2)]
  show "alive e' = alive e" "e_root e' = e_root e"
    by (fact v f)+
  show "\<And>y. alive e y \<Longrightarrow> parent_of e' y = parent_of e y \<and> children_of e' y = children_of e y"
    using v by simp
  show "n_generation (slot e' j) \<noteq> 0" for j
    using tree_invD(1) [OF assms(1)] f(3,6) by simp
  show "n_parent (slot e' j) = None \<and> n_children (slot e' j) = []" if "n_location (slot e' j) = None" for j
    using that tree_invD(2) [OF assms(1), of j] f(6) by (auto split: if_splits)
qed

lemma update_row_cases:
  obtains (none) "moved = MovedNone" "update_row e moved = (Ok (), e)"
  | (row) x r l where "moved = MovedSome x r" "alive e x" "n_location (slot e (index x)) = Some l"
      "update_row e moved = (Ok (), set_node e (index x) (\<lambda>n. n\<lparr>n_location := Some (l\<lparr>table_row := r\<rparr>)\<rparr>))"
  | (err) x r err where "moved = MovedSome x r" "\<not> alive e x" "update_row e moved = (Err err, e)"
proof (cases moved)
  case MovedNone
  then show ?thesis
    using none by (simp add: update_row_def)
next
  case (MovedSome x r)
  show ?thesis
  proof (cases "alive e x")
    case True
    then obtain l where "n_location (slot e (index x)) = Some l" "n_generation (slot e (index x)) = generation x"
      by (auto simp: alive_def)
    then show ?thesis
      using row [OF MovedSome True] True MovedSome by (simp add: update_row_def alive_node_at)
  next
    case False
    then have "\<exists>err. update_row e moved = (Err err, e)"
      using MovedSome
      by (auto simp: update_row_def alive_def slot_def split: option.splits)
    then show ?thesis
      using err [OF MovedSome False] by blast
  qed
qed

lemma update_row_inv:
  assumes "tree_inv e" "update_row e moved = (Ok u, e')"
  shows "tree_inv e'" "alive e' = alive e" "parent_of e' = parent_of e" "n_generation (slot e' i) = n_generation (slot e i)"
    "e_labeled e' = e_labeled e"
proof -
  have "tree_inv e' \<and> alive e' = alive e \<and> parent_of e' = parent_of e
    \<and> n_generation (slot e' i) = n_generation (slot e i) \<and> e_labeled e' = e_labeled e"
  proof (cases rule: update_row_cases [of moved e])
    case none
    then show ?thesis using assms by simp
  next
    case (row x r l)
    have s: "slot e' j = (if j = index x then (slot e j)\<lparr>n_location := Some (l\<lparr>table_row := r\<rparr>)\<rparr> else slot e j)" for j
      using row(4) assms(2) alive_in_range [OF row(2)] by (auto simp: slot_set_node)
    have a: "alive e' = alive e"
      using row(3) by (auto simp: alive_def s fun_eq_iff)
    have p: "parent_of e' = parent_of e" "children_of e' = children_of e"
      by (auto simp: parent_of_def children_of_def s fun_eq_iff)
    have g: "n_generation (slot e' i) = n_generation (slot e i)" for i
      by (simp add: s)
    have "tree_inv e'"
    proof (rule same_forest_inv [OF assms(1) a])
      show "e_root e' = e_root e"
        using row(4) assms(2) by auto
      show "n_parent (slot e' j) = None \<and> n_children (slot e' j) = []" if "n_location (slot e' j) = None" for j
        using that tree_invD(2) [OF assms(1), of j] by (auto simp: s split: if_splits)
    qed (simp_all add: p g tree_invD(1) [OF assms(1)])
    moreover have "e_labeled e' = e_labeled e"
      using row(4) assms(2) by auto
    ultimately show ?thesis
      using a p g by simp
  next
    case err
    then show ?thesis using assms by simp
  qed
  then show "tree_inv e'" "alive e' = alive e" "parent_of e' = parent_of e"
    "n_generation (slot e' i) = n_generation (slot e i)" "e_labeled e' = e_labeled e"
    by simp_all
qed

section \<open>Moving: every branch\<close>

definition check_live :: "entities \<Rightarrow> entity_id \<Rightarrow> (entity_error, unit) outcome" where
  "check_live e x = (case get_node e x of Ok _ \<Rightarrow> Ok () | Err err \<Rightarrow> Err err | Panic \<Rightarrow> Panic)"

lemma check_live_simps [simp]:
  "check_live e x = Ok u \<longleftrightarrow> alive e x" "check_live e x \<noteq> Panic"
  by (auto simp: check_live_def get_node_eq)

lemma modify_parent_total:
  assumes inv: "tree_inv e"
  shows "\<exists>e'. modify_parent_without_signal pf e x parent = Some (
      (if \<exists>p. parent = Some p \<and> \<not> alive e p then
         (case check_live e (the parent) of Err err \<Rightarrow> Err err | _ \<Rightarrow> Panic)
       else if \<not> alive e x then (case check_live e x of Err err \<Rightarrow> Err err | _ \<Rightarrow> Panic)
       else if parent_of e x = parent then Ok False
       else if \<exists>p. parent = Some p \<and> (x, p) \<in> (parent_rel e)\<^sup>* then Err (CycleHierarchy x (the parent))
       else Ok True), e')"
proof -
  let ?f = "modify_parent_without_signal pf e x parent"
  consider (badparent) p where "parent = Some p" "\<not> alive e p"
    | (badself) "\<And>p. parent = Some p \<Longrightarrow> alive e p" "\<not> alive e x"
    | (same) "\<And>p. parent = Some p \<Longrightarrow> alive e p" "alive e x" "parent_of e x = parent"
    | (cycle) p where "parent = Some p" "alive e p" "alive e x" "parent_of e x \<noteq> parent" "(x, p) \<in> (parent_rel e)\<^sup>*"
    | (move) "\<And>p. parent = Some p \<Longrightarrow> alive e p" "alive e x" "parent_of e x \<noteq> parent"
        "\<And>p. parent = Some p \<Longrightarrow> (x, p) \<notin> (parent_rel e)\<^sup>*"
    by blast
  then show ?thesis
  proof cases
    case badparent
    then show ?thesis
      by (auto simp: modify_parent_without_signal_def check_live_def get_node_eq)
  next
    case badself
    then have "(case parent of None \<Rightarrow> Ok () | Some p \<Rightarrow> check_live e p) = Ok ()"
      by (auto split: option.split)
    with badself show ?thesis
      by (auto simp: modify_parent_without_signal_def check_live_def get_node_eq split: option.splits)
  next
    case same
    then show ?thesis
      by (auto simp: modify_parent_without_signal_def get_node_eq parent_of_def split: option.split)
  next
    case cycle
    then show ?thesis
      using is_ancestor_terminates [OF inv cycle(2), of x]
      by (auto simp: modify_parent_without_signal_def get_node_eq parent_of_def)
  next
    case move
    have "\<exists>e'. ?f = Some (Ok True, e')"
      by (rule modify_parent_move [OF inv move(2) move(1) move(3) move(4), of pf]) blast+
    then show ?thesis
      using move by auto
  qed
qed

lemma modify_parent_Ok:
  assumes inv: "tree_inv e" and r: "modify_parent_without_signal pf e x parent = Some (Ok b, e')"
  shows "tree_inv e'" "alive e' = alive e" "alive e x"
    "\<And>y. alive e y \<Longrightarrow> parent_of e' y = (if y = x then parent else parent_of e y)"
    "\<And>i. n_generation (slot e' i) = n_generation (slot e i)" "b \<longleftrightarrow> parent_of e x \<noteq> parent"
    "e_labeled e' = e_labeled e" "\<And>i. n_location (slot e' i) = n_location (slot e i)"
proof -
  have c: "\<And>p. parent = Some p \<Longrightarrow> alive e p" "alive e x" "b \<longleftrightarrow> parent_of e x \<noteq> parent"
    "b \<Longrightarrow> parent = Some p \<Longrightarrow> (x, p) \<notin> (parent_rel e)\<^sup>*" for p
    using modify_parent_total [OF inv, of pf x parent] r
    by (auto split: if_splits outcome.splits)
  have "tree_inv e' \<and> alive e' = alive e
    \<and> (\<forall>y. alive e y \<longrightarrow> parent_of e' y = (if y = x then parent else parent_of e y))
    \<and> (\<forall>i. n_generation (slot e' i) = n_generation (slot e i)) \<and> e_labeled e' = e_labeled e
    \<and> (\<forall>i. n_location (slot e' i) = n_location (slot e i))"
  proof (cases b)
    case True
    then have n: "parent_of e x \<noteq> parent"
      using c(3) by simp
    show ?thesis
      by (rule modify_parent_move [OF inv c(2) c(1) n c(4) [OF True], of pf]) (use r in auto)
  next
    case False
    then have "e' = e"
      using r c by (auto simp: modify_parent_without_signal_def get_node_eq parent_of_def
          split: outcome.splits option.splits if_splits bool.splits dest!: then_do_Ok_iff [THEN iffD1])
    then show ?thesis
      using False c inv by auto
  qed
  then show "tree_inv e'" "alive e' = alive e" "alive e x"
    "\<And>y. alive e y \<Longrightarrow> parent_of e' y = (if y = x then parent else parent_of e y)"
    "\<And>i. n_generation (slot e' i) = n_generation (slot e i)" "b \<longleftrightarrow> parent_of e x \<noteq> parent"
    "e_labeled e' = e_labeled e" "\<And>i. n_location (slot e' i) = n_location (slot e i)"
    using c by auto
qed

lemma modify_parent_Err:
  assumes "modify_parent_without_signal pf e x parent = Some (Err err, e')"
  shows "e' = e"
  using assms unlink_child_not_Err link_child_not_Err
  by (auto simp: modify_parent_without_signal_def
      split: outcome.splits option.splits if_splits bool.splits dest!: then_do_Err) (metis fst_conv)+

section \<open>The transition system\<close>

inductive tree_step :: "platform \<Rightarrow> entities \<Rightarrow> entities \<Rightarrow> bool" for pf where
  step_insert: "insert_one pf e x parent l = (r, e') \<Longrightarrow> r \<noteq> Panic \<Longrightarrow> tree_step pf e e'"
| step_remove: "remove_one pf e x = (r, e') \<Longrightarrow> r \<noteq> Panic \<Longrightarrow> tree_step pf e e'"
| step_free: "free_slot pf e i = (Ok nxt, e') \<Longrightarrow> tree_step pf e e'"
| step_row: "update_row e moved = (r, e') \<Longrightarrow> r \<noteq> Panic \<Longrightarrow> tree_step pf e e'"
| step_move: "modify_parent_without_signal pf e x parent = Some (r, e') \<Longrightarrow> r \<noteq> Panic \<Longrightarrow> tree_step pf e e'"
| step_label: "set_labeled_entity e x label = (r, e') \<Longrightarrow> r \<noteq> Panic \<Longrightarrow> tree_step pf e e'"
| step_expire: "tree_step pf e (update_labeled e)"

inductive tree_reachable :: "platform \<Rightarrow> entities \<Rightarrow> bool" for pf where
  tree_start: "tree_reachable pf (entities_new pf)"
| tree_more: "tree_reachable pf e \<Longrightarrow> tree_step pf e e' \<Longrightarrow> tree_reachable pf e'"

lemma same_tree_inv: "same_tree e e' \<Longrightarrow> tree_inv e' \<longleftrightarrow> tree_inv e"
  using tree_inv_cong [of e' e] by (simp add: same_tree_def)

lemma labels_same:
  "set_labeled_entity e x label = (r, e') \<Longrightarrow> slot e' = slot e \<and> e_root e' = e_root e"
  "slot (update_labeled e) = slot e" "e_root (update_labeled e) = e_root e"
  by (auto simp: set_labeled_entity_def update_labeled_def get_node_eq split: if_splits)

lemma tree_step_inv:
  assumes "tree_step pf e e'" "tree_inv e"
  shows "tree_inv e'"
  using assms
proof (cases rule: tree_step.cases)
  case (step_insert x parent l r)
  then show ?thesis
    using assms(2) insert_one_Ok(4) insert_one_Err same_tree_inv by (cases r) blast+
next
  case (step_remove x r)
  then show ?thesis
    using assms(2) remove_one_Ok(3) remove_one_Err same_tree_inv by (cases r) blast+
next
  case (step_row moved r)
  then show ?thesis
    using assms(2) update_row_inv(1)
    by (cases r; cases rule: update_row_cases [of moved e]) auto
next
  case (step_move x parent r)
  then show ?thesis
    using assms(2) modify_parent_Ok(1) modify_parent_Err by (cases r) blast+
next
  case step_free
  then show ?thesis
    using assms(2) free_slot_inv by blast
next
  case step_label
  then show ?thesis
    using assms(2) labels_same(1) tree_inv_cong by blast
next
  case step_expire
  then show ?thesis
    using assms(2) tree_inv_cong [OF labels_same(2,3)] by blast
qed

lemma tree_reachable_inv: "tree_reachable pf e \<Longrightarrow> tree_inv e"
  by (induction rule: tree_reachable.induct) (auto intro: entities_new_inv tree_step_inv)

section \<open>Generations\<close>

lemma free_slot_recycles:
  assumes "free_slot pf e i = (Ok nxt, e')" "unat i < 2 ^ 31"
  shows "index nxt = i \<and> unat (n_generation (slot e' i)) = unat (n_generation (slot e i)) + 1"
proof -
  let ?g = "n_generation (slot e i)"
  note f = free_slot_Ok [OF assms(1)]
  have "?g \<noteq> 0xFFFFFFFF"
  proof
    assume "?g = 0xFFFFFFFF"
    then have "nxt = EntityId (2 * ucast i)"
      using f(2) by (simp add: next_generation_wrap)
    moreover have "generation (EntityId (2 * ucast i)) = 0"
    proof -
      have u: "unat (2 * ucast i :: u64) = 2 * unat i"
        using assms(2) by (simp add: unat_word_ariths unsigned_ucast_eq take_bit_nat_eq_self)
      have "unat (drop_bit 32 (2 * ucast i :: u64)) = 2 * unat i div 2 ^ 32"
        unfolding drop_bit_eq_div unat_div u by simp
      then have "drop_bit 32 (2 * ucast i :: u64) = 0"
        using assms(2) by (simp add: word_unat_eq_iff [of _ 0])
      then show ?thesis
        by (simp add: generation_def)
    qed
    ultimately show False
      using f(3) by simp
  qed
  then have "nxt = new_id i (?g + 1)" "unat (?g + 1) = unat ?g + 1"
    using f(2) unat_less_power [of ?g]
    by (auto simp: next_generation_step unat_word_ariths word_unat_eq_iff)
  then show ?thesis
    using f(6) by simp
qed

lemma tree_step_generation:
  assumes "tree_step pf e e'" "tree_inv e" "unat i < 2 ^ 31"
  shows "unat (n_generation (slot e i)) \<le> unat (n_generation (slot e' i))"
  using assms(1)
proof (cases rule: tree_step.cases)
  case (step_insert x parent l r)
  then show ?thesis
    using insert_one_Ok(5) [OF assms(2)] insert_one_Err
    by (cases r) (auto simp: attached_def same_tree_def split: option.split)
next
  case (step_remove x r)
  then show ?thesis
    using remove_one_Ok(4) [OF assms(2)] remove_one_Err by (cases r) (auto simp: same_tree_def)
next
  case (step_row moved r)
  then show ?thesis
  proof (cases r)
    case (Ok u)
    then show ?thesis
      using step_row update_row_inv(4) [OF assms(2)] by simp
  next
    case (Err err)
    with step_row have "e' = e"
      by (cases rule: update_row_cases [of moved e]) auto
    then show ?thesis by simp
  qed (use step_row in simp)
next
  case (step_move x parent r)
  then show ?thesis
    using modify_parent_Ok(5) [OF assms(2)] modify_parent_Err by (cases r) (metis order_refl)+
next
  case (step_free j nxt)
  then show ?thesis
    using free_slot_Ok(6) [OF step_free] free_slot_recycles [OF step_free] assms(3)
    by (cases "i = j") auto
next
  case step_label
  then show ?thesis
    using labels_same(1) by (metis order_refl)
next
  case step_expire
  then show ?thesis
    by (simp add: labels_same)
qed

section \<open>The abstract forest\<close>

text \<open>The abstract forest: which ids are live, and under which parent.\<close>

definition forest_of :: "entities \<Rightarrow> entity_id \<rightharpoonup> entity_id option" where
  "forest_of e x = (if contains e x then Some (parent_of e x) else None)"

definition orphan :: "entity_id \<Rightarrow> (entity_id \<rightharpoonup> entity_id option) \<Rightarrow> entity_id \<rightharpoonup> entity_id option" where
  "orphan x f = map_option (\<lambda>p. if p = Some x then None else p) \<circ> f(x := None)"

lemma orphan_insert:
  assumes "f x = None" "\<And>y. f y \<noteq> Some (Some x)"
  shows "orphan x (f(x \<mapsto> p)) = f"
proof
  show "orphan x (f(x \<mapsto> p)) y = f y" for y
    using assms(1) assms(2) [of y] by (cases "f y") (auto simp: orphan_def)
qed

lemma locate_alive: "alive e x \<Longrightarrow> n_location (slot e (index x)) = Some l \<Longrightarrow> locate e x = Ok l"
  by (simp add: locate_def alive_node_at) (simp add: alive_def)

lemma forest_same: "same_tree e e' \<Longrightarrow> forest_of e' = forest_of e"
  using view_cong [of e' e] by (simp add: same_tree_def forest_of_def contains_alive fun_eq_iff)

lemma forest_insert:
  assumes "insert_one pf e x parent l = (Ok u, e')" "tree_inv e"
  shows "forest_of e x = None \<and> forest_of e' = (forest_of e)(x \<mapsto> parent) \<and> locate e' x = Ok l \<and> tree_inv e'"
proof -
  note i = insert_one_Ok [OF assms(2,1)]
  note v = inserted_view [OF i(3,2,1,5)]
  have "alive e' x" "n_location (slot e' (index x)) = Some l"
    using v(1) [of x] i(5) by (auto simp: attached_def)
  then show ?thesis
    using locate_alive v i(3,4) by (auto simp: forest_of_def contains_alive fun_eq_iff alive_def)
qed

lemma forest_remove:
  assumes "remove_one pf e x = (Ok l, e')" "tree_inv e"
  shows "locate e x = Ok l \<and> forest_of e' = orphan x (forest_of e) \<and> tree_inv e'"
proof -
  note r = remove_one_Ok [OF assms(2,1)]
  note v = removed_view [OF assms(2) r(1,4)]
  show ?thesis
    using locate_alive r(1-3) v by (auto simp: forest_of_def contains_alive fun_eq_iff orphan_def)
qed

lemma forest_move:
  assumes "modify_parent_without_signal pf e x parent = Some (Ok b, e')" "tree_inv e"
  shows "forest_of e' = (forest_of e)(x \<mapsto> parent) \<and> tree_inv e'"
  using modify_parent_Ok [OF assms(2,1)] by (auto simp: forest_of_def contains_alive fun_eq_iff)

lemma forest_free:
  assumes "free_slot pf e i = (Ok nxt, e')" "tree_inv e"
  shows "forest_of e' = forest_of e \<and> tree_inv e'"
  using free_slot_view [OF assms(1)] free_slot_inv [OF assms(2,1)]
  by (auto simp: forest_of_def contains_alive fun_eq_iff)

lemma forest_row:
  assumes "update_row e moved = (Ok u, e')" "tree_inv e"
  shows "forest_of e' = forest_of e \<and> tree_inv e'"
  using update_row_inv(1-3) [OF assms(2,1)] by (auto simp: forest_of_def contains_alive fun_eq_iff)

section \<open>The forest as an interface\<close>

text \<open>
  What the world relies on when it spawns, despawns and reparents: the operations act on an
  abstract forest, insertion and removal fail in known cases only, and parents are live.
\<close>

locale forest_store =
  fixes forest :: "'s \<Rightarrow> entity_id \<rightharpoonup> entity_id option"
    and ok :: "'s \<Rightarrow> bool"
    and insert :: "'s \<Rightarrow> entity_id \<Rightarrow> entity_id option \<Rightarrow> location \<Rightarrow> (entity_error, unit) outcome \<times> 's"
    and remove :: "'s \<Rightarrow> entity_id \<Rightarrow> (entity_error, location) outcome \<times> 's"
    and move :: "'s \<Rightarrow> entity_id \<Rightarrow> entity_id option \<Rightarrow> ((entity_error, bool) outcome \<times> 's) option"
    and whereis :: "'s \<Rightarrow> entity_id \<Rightarrow> (entity_error, location) outcome"
  assumes insert_Ok: "ok s \<Longrightarrow> insert s x p l = (Ok u, s') \<Longrightarrow>
      ok s' \<and> forest s x = None \<and> forest s' = (forest s)(x \<mapsto> p) \<and> whereis s' x = Ok l"
    and remove_Ok: "ok s \<Longrightarrow> remove s x = (Ok l, s') \<Longrightarrow>
      ok s' \<and> whereis s x = Ok l \<and> forest s' = orphan x (forest s)"
    and remove_live: "ok s \<Longrightarrow> forest s x \<noteq> None \<Longrightarrow> \<exists>l s'. remove s x = (Ok l, s')"
    and move_Ok: "ok s \<Longrightarrow> move s x p = Some (Ok b, s') \<Longrightarrow>
      ok s' \<and> forest s x \<noteq> None \<and> forest s' = (forest s)(x \<mapsto> p)"
    and parent_live: "ok s \<Longrightarrow> forest s x = Some (Some q) \<Longrightarrow> forest s q \<noteq> None"
begin

text \<open>Spawning an entity and removing it again restores the forest and returns its location.\<close>

lemma insert_remove:
  assumes "ok s" "insert s x p l = (Ok u, s1)" "p \<noteq> Some x"
  shows "\<exists>s2. remove s1 x = (Ok l, s2) \<and> ok s2 \<and> forest s2 = forest s"
proof -
  note i = insert_Ok [OF assms(1,2)]
  then obtain l' s2 where r: "remove s1 x = (Ok l', s2)"
    using remove_live [of s1 x] by auto
  have "l' = l" "ok s2" "forest s2 = orphan x (forest s1)"
    using remove_Ok [OF _ r] i by auto
  moreover have "forest s y \<noteq> Some (Some x)" for y
    using parent_live [OF assms(1), of y x] i by auto
  then have "orphan x (forest s1) = forest s"
    using i by (simp add: orphan_insert)
  ultimately show ?thesis
    using r by auto
qed

text \<open>After a removal nobody is left under the removed id.\<close>

lemma remove_no_children:
  assumes "ok s" "remove s x = (Ok l, s')"
  shows "forest s' y \<noteq> Some (Some x)" "forest s' x = None"
  using remove_Ok [OF assms] by (auto simp: orphan_def split: if_splits)

lemma move_move:
  assumes "ok s" "move s x p = Some (Ok b, s1)" "move s1 x q = Some (Ok c, s2)"
  shows "forest s2 = (forest s)(x \<mapsto> q)"
  using move_Ok [OF assms(1,2)] move_Ok [OF _ assms(3)] by auto

end

lemma forest_parent_live: "tree_inv e \<Longrightarrow> forest_of e x = Some (Some p) \<Longrightarrow> forest_of e p \<noteq> None"
  using tree_invD(3) [of e x p] by (auto simp: forest_of_def contains_alive split: if_splits)

lemma remove_one_live:
  assumes "tree_inv e" "forest_of e x \<noteq> None"
  shows "\<exists>l e'. remove_one pf e x = (Ok l, e')"
proof -
  have "alive e x"
    using assms(2) by (auto simp: forest_of_def contains_alive split: if_splits)
  then show ?thesis
    by (rule remove_one_effect [OF assms(1), of x pf]) blast
qed

interpretation tree: forest_store forest_of tree_inv "insert_one pf" "remove_one pf"
    "modify_parent_without_signal pf" locate for pf
proof unfold_locales
  fix s x p b and s' :: entities
  show "tree_inv s' \<and> forest_of s x \<noteq> None \<and> forest_of s' = (forest_of s)(x \<mapsto> p)"
    if "tree_inv s" "modify_parent_without_signal pf s x p = Some (Ok b, s')"
    using forest_move [OF that(2,1)] modify_parent_Ok(3) [OF that] by (simp add: forest_of_def contains_alive)
qed (auto dest: forest_insert forest_remove intro: remove_one_live simp: forest_parent_live)

lemma insert_one_succeeds:
  assumes "tree_inv e" "valid_parent e x parent" "n_generation (slot e (index x)) = generation x"
    "n_location (slot e (index x)) = None" "index x \<noteq> 0xFFFFFFFF"
  shows "\<exists>e'. insert_one pf e x parent l = (Ok (), e')"
proof (rule ensure_exist_cases [of pf e "index x"])
  fix e1
  assume "ensure_exist pf e (index x) = (Ok (), e1)"
  then show ?thesis
    by (rule insert_one_effect [OF assms(1-4), of pf e1 l]) blast
qed (use assms(5) in simp)

text \<open>A tree with one root and one child, reached by two insertions.\<close>

lemma small_tree:
  obtains e where "tree_reachable pf e"
    "forest_of e = [new_id 1 1 \<mapsto> None, new_id 2 1 \<mapsto> Some (new_id 1 1)]"
proof -
  define e0 where "e0 = entities_new pf"
  have s0: "slot e0 i = DEFAULT_NODE" for i
    by (simp add: e0_def slot_def node_at_def entities_new_def)
  have i0: "tree_inv e0" and r0: "tree_reachable pf e0"
    by (simp_all add: e0_def entities_new_inv tree_start)
  define l :: location where "l = \<lparr>table_id = 0, table_row = 0\<rparr>"
  obtain e1 where e1: "insert_one pf e0 (new_id 1 1) None l = (Ok (), e1)"
    using insert_one_succeeds [OF i0, of "new_id 1 1" None pf l] s0 by (auto simp: valid_parent_def)
  have r1: "tree_reachable pf e1"
    using tree_more [OF r0 step_insert [OF e1]] by simp
  have f0: "forest_of e0 = Map.empty"
    by (simp add: forest_of_def contains_alive alive_def s0 fun_eq_iff)
  have f1: "forest_of e1 = [new_id 1 1 \<mapsto> None]" "tree_inv e1"
    using forest_insert [OF e1 i0] f0 by auto
  have s1: "slot e1 2 = DEFAULT_NODE"
    using insert_one_Ok(5) [OF i0 e1, of 2] s0 by (simp add: attached_def)
  have "alive e1 (new_id 1 1)"
    using f1(1) by (metis contains_alive forest_of_def map_upd_Some_unfold option.distinct(1))
  then obtain e2 where e2: "insert_one pf e1 (new_id 2 1) (Some (new_id 1 1)) l = (Ok (), e2)"
    using insert_one_succeeds [OF f1(2), of "new_id 2 1" "Some (new_id 1 1)" pf l] s1
    by (auto simp: valid_parent_def)
  have "tree_reachable pf e2"
    using tree_more [OF r1 step_insert [OF e2]] by simp
  moreover have "forest_of e2 = [new_id 1 1 \<mapsto> None, new_id 2 1 \<mapsto> Some (new_id 1 1)]"
    using forest_insert [OF e2 f1(2)] f1(1) by simp
  ultimately show ?thesis
    by (rule that)
qed

section \<open>Properties\<close>





text \<open>C14: a move always returns, and it answers exactly as the hierarchy demands: an invalid new parent or entity is
  reported, an unchanged parent is \<^verbatim>\<open>Ok(false)\<close>, a new parent that is the entity itself or one of its
  descendants is a cycle error, and everything else is \<^verbatim>\<open>Ok(true)\<close>; one signal is written
  exactly when the parent changed.\<close>
theorem modify_parent_decides:
  assumes "tree_reachable pf e"
  shows "\<exists>e'. modify_parent pf (e, signals) x parent = Some (
      (if \<exists>p. parent = Some p \<and> \<not> contains e p then
         (case get_node e (the parent) of Err err \<Rightarrow> Err err | _ \<Rightarrow> Panic)
       else if \<not> contains e x then (case get_node e x of Err err \<Rightarrow> Err err | _ \<Rightarrow> Panic)
       else if \<exists>p. parent = Some p \<and> parent \<noteq> parent_of e x \<and> (x, p) \<in> (parent_rel e)\<^sup>*
         then Err (CycleHierarchy x (the parent))
       else Ok ()), e',
      if (\<exists>p. parent = Some p \<and> (\<not> contains e p \<or> (x, p) \<in> (parent_rel e)\<^sup>*)) \<or> \<not> contains e x
        \<or> parent_of e x = parent
      then signals else signals @ [x])"
proof -
  obtain e' where e': "modify_parent_without_signal pf e x parent = Some (
      (if \<exists>p. parent = Some p \<and> \<not> alive e p then
         (case check_live e (the parent) of Err err \<Rightarrow> Err err | _ \<Rightarrow> Panic)
       else if \<not> alive e x then (case check_live e x of Err err \<Rightarrow> Err err | _ \<Rightarrow> Panic)
       else if parent_of e x = parent then Ok False
       else if \<exists>p. parent = Some p \<and> (x, p) \<in> (parent_rel e)\<^sup>* then Err (CycleHierarchy x (the parent))
       else Ok True), e')"
    using modify_parent_total [OF tree_reachable_inv [OF assms]] by blast
  show ?thesis
    by (rule exI [of _ e']) (auto simp: modify_parent_def e' contains_alive check_live_def get_node_eq)
qed

theorem modify_parent_decides_witness:
  "\<exists>e e'. modify_parent \<lparr>vec_spare = (\<lambda>_. 0), pool_threads = None\<rparr> (e, []) (new_id 1 1) (Some (new_id 2 1))
     = Some (Err (CycleHierarchy (new_id 1 1) (new_id 2 1)), e', [])"
proof -
  obtain e where e: "tree_reachable \<lparr>vec_spare = (\<lambda>_. 0), pool_threads = None\<rparr> e"
    "forest_of e = [new_id 1 1 \<mapsto> None, new_id 2 1 \<mapsto> Some (new_id 1 1)]"
    by (rule small_tree)
  have "forest_of e (new_id 2 1) = Some (Some (new_id 1 1))" "forest_of e (new_id 1 1) = Some None"
    by (simp_all add: e(2))
  then have c: "contains e (new_id 2 1)" "parent_of e (new_id 2 1) = Some (new_id 1 1)"
    "contains e (new_id 1 1)" "parent_of e (new_id 1 1) = None"
    by (auto simp: forest_of_def split: if_splits)
  then have "(new_id 1 1, new_id 2 1) \<in> (parent_rel e)\<^sup>*"
    by (auto simp: parent_rel_def contains_alive)
  with modify_parent_decides [OF e(1), of "[]" "new_id 1 1" "Some (new_id 2 1)"] c show ?thesis
    by auto
qed



text \<open>Labels never dangle: looking a label up yields only live entities; a label set on a live
  entity is found again, under any later state in which neither the labels nor the liveness of that id
  changed; dropping expired labels changes no lookup.\<close>
theorem labels_resolve_to_live:
  shows "(\<forall>x. get_labeled_entity e label = Ok x \<longrightarrow> contains e x)
    \<and> (\<forall>x e'. set_labeled_entity e x label = (Ok (), e') \<longrightarrow>
         get_labeled_entity e' label = Ok x \<and> contains e' = contains e
         \<and> (\<forall>k. k \<noteq> label \<longrightarrow> get_labeled_entity e' k = get_labeled_entity e k))
    \<and> (\<not> contains e y \<longrightarrow> (\<exists>err. set_labeled_entity e y label = (Err err, e)))
    \<and> get_labeled_entity (update_labeled e) = get_labeled_entity e
    \<and> ran (e_labeled (update_labeled e)) \<subseteq> Collect (contains e)"
proof (intro conjI allI impI)
  show "contains e x" if "get_labeled_entity e label = Ok x" for x
    using that by (auto simp: get_labeled_entity_def split: option.splits if_splits)
  show "\<exists>err. set_labeled_entity e y label = (Err err, e)" if "\<not> contains e y"
    using that by (auto simp: set_labeled_entity_def get_node_eq contains_alive)
  have c: "contains (e\<lparr>e_labeled := m\<rparr>) x = contains e x" for m x
    by (simp add: contains_alive alive_def)
  then show "get_labeled_entity (update_labeled e) = get_labeled_entity e"
    by (auto simp: get_labeled_entity_def update_labeled_def fun_eq_iff split: option.split)
  show "ran (e_labeled (update_labeled e)) \<subseteq> Collect (contains e)"
    by (auto simp: update_labeled_def ran_def split: option.splits if_splits)
  fix x e' k
  assume "set_labeled_entity e x label = (Ok (), e')"
  then have "alive e x" "e' = e\<lparr>e_labeled := (e_labeled e)(label \<mapsto> x)\<rparr>"
    by (auto simp: set_labeled_entity_def get_node_eq split: if_splits)
  then show "get_labeled_entity e' label = Ok x" "contains e' = contains e"
    "k \<noteq> label \<Longrightarrow> get_labeled_entity e' k = get_labeled_entity e k"
    by (auto simp: get_labeled_entity_def c contains_alive [of e] split: option.split)
qed

theorem labels_resolve_to_live_witness:
  "get_labeled_entity (update_labeled (entities_new \<lparr>vec_spare = (\<lambda>_. 0), pool_threads = None\<rparr>)) 7
     = Err (MissingLabel 7)"
proof -
  let ?e = "entities_new \<lparr>vec_spare = (\<lambda>_. 0), pool_threads = None\<rparr>"
  have "get_labeled_entity ?e 7 = Err (MissingLabel 7)"
    by (simp add: get_labeled_entity_def entities_new_def)
  then show ?thesis
    using labels_resolve_to_live [of ?e] by metis
qed

text \<open>C40: spawning and removing an entity are inverse: removing a just inserted entity returns the location
  it was inserted with and restores the forest it was inserted into, for every tree reached.\<close>
theorem insert_remove_roundtrip:
  assumes "tree_reachable pf e" "insert_one pf e x parent l = (Ok (), e1)"
  shows "\<exists>e2. remove_one pf e1 x = (Ok l, e2) \<and> forest_of e2 = forest_of e \<and> tree_inv e2"
proof -
  have inv: "tree_inv e"
    using assms(1) by (rule tree_reachable_inv)
  have "parent \<noteq> Some x"
    using insert_one_Ok(1) [OF inv assms(2)] by (auto simp: valid_parent_def)
  then show ?thesis
    using tree.insert_remove [OF inv assms(2)] by blast
qed

theorem insert_remove_roundtrip_witness:
  "\<exists>e1 e2 l. remove_one \<lparr>vec_spare = (\<lambda>_. 0), pool_threads = None\<rparr> e1 (new_id 3 1) = (Ok l, e2)
     \<and> forest_of e2 = Map.empty"
proof -
  let ?pf = "\<lparr>vec_spare = (\<lambda>_. 0), pool_threads = None\<rparr>" and ?l = "\<lparr>table_id = 0, table_row = 4\<rparr>"
  have s: "slot (entities_new ?pf) i = DEFAULT_NODE" for i
    by (simp add: slot_def node_at_def entities_new_def)
  have "forest_of (entities_new ?pf) = Map.empty"
    by (simp add: forest_of_def contains_alive alive_def s fun_eq_iff)
  moreover obtain e1 where "insert_one ?pf (entities_new ?pf) (new_id 3 1) None ?l = (Ok (), e1)"
    using insert_one_succeeds [OF entities_new_inv, of ?pf "new_id 3 1" None ?pf ?l] s
    by (auto simp: valid_parent_def)
  ultimately show ?thesis
    using insert_remove_roundtrip [OF tree_start] by metis
qed



end
