(* ===== verification/Change_Tick.thy ===== *)
theory Change_Tick
  imports Zlim_Prelude
begin

text \<open>
  Change ticks (\<^verbatim>\<open>zlim-core/src/tick.rs\<close>), the bulk clamp (\<^verbatim>\<open>zlim-core/src/utils/helper.rs\<close>) and the
  tick maintenance of the world (\<^verbatim>\<open>zlim-core/src/world/mod.rs\<close>). A tick is a wrapping 32-bit
  counter value; ages are differences modulo \<open>2 ^ 32\<close>. The specification is a clock of unbounded
  natural numbers: a tick stands for the moment it was written, and change
  detection is right when it compares ages on that clock, up to the maximal age.
\<close>

section \<open>Ticks\<close>

type_synonym tick = u32

definition CHECK_CYCLE :: u32 where
  "CHECK_CYCLE = push_bit 29 1"

definition MAX_TICK_AGE :: u32 where
  "MAX_TICK_AGE = 0xFFFFFFFF - push_bit 1 CHECK_CYCLE - 1"

definition relative_to :: "tick \<Rightarrow> tick \<Rightarrow> tick" where
  "relative_to self other = self - other"

definition is_newer_than :: "tick \<Rightarrow> tick \<Rightarrow> tick \<Rightarrow> bool" where
  "is_newer_than self other now =
     (let clamp = (\<lambda>x. if x < MAX_TICK_AGE then x else MAX_TICK_AGE);
          since_insert = clamp (relative_to now self);
          since_system = clamp (relative_to now other)
      in since_system > since_insert)"

definition clamp_with :: "tick \<Rightarrow> tick \<Rightarrow> tick" where
  "clamp_with self now =
     (let age = relative_to now self; fallback = relative_to now MAX_TICK_AGE
      in if age > MAX_TICK_AGE then fallback else self)"

text \<open>Atomic ticks: the value after the call. Both conditional stores skip a store of the same value.\<close>

definition atomic_set :: "tick \<Rightarrow> tick \<Rightarrow> tick" where
  "atomic_set self t = (if self \<noteq> t then t else self)"

definition try_set :: "tick option \<Rightarrow> tick \<Rightarrow> tick option" where
  "try_set v t = (case v of Some x \<Rightarrow> if x \<noteq> t then Some t else Some x | None \<Rightarrow> None)"

definition try_mutate :: "tick option \<Rightarrow> tick \<Rightarrow> tick option" where
  "try_mutate v t = (case v of Some x \<Rightarrow> Some t | None \<Rightarrow> None)"

definition atomic_clamp_with :: "tick \<Rightarrow> tick \<Rightarrow> tick" where
  "atomic_clamp_with self now =
     (let age = relative_to now self; fallback = relative_to now MAX_TICK_AGE
      in if age > MAX_TICK_AGE then fallback else self)"

definition clamp_tick_slice :: "tick list \<Rightarrow> tick \<Rightarrow> tick list" where
  "clamp_tick_slice arr now =
     (let fall_back = now - MAX_TICK_AGE
      in map (\<lambda>x. let age = now - x in if age > MAX_TICK_AGE then fall_back else x) arr)"

section \<open>The clock of the world\<close>

record world_clock =
  w_last_run :: tick
  w_last_check :: tick
  w_this_run :: tick

definition clock_new :: world_clock where
  "clock_new = \<lparr>w_last_run = 0, w_last_check = 0, w_this_run = 1\<rparr>"

definition advance_tick :: "world_clock \<Rightarrow> tick \<times> world_clock" where
  "advance_tick w = (w_this_run w, w\<lparr>w_this_run := w_this_run w + 1\<rparr>)"

text \<open>\<open>marks\<close> are all ticks stored in tables, resources and schedules.\<close>

definition clamp_ticks :: "world_clock \<Rightarrow> tick list \<Rightarrow> world_clock \<times> tick list" where
  "clamp_ticks w marks =
     (let this_run = w_this_run w; last_check = w_last_check w
      in if this_run - last_check \<ge> CHECK_CYCLE
         then (w\<lparr>w_last_check := this_run\<rparr>, map (\<lambda>x. clamp_with x this_run) marks)
         else (w, marks))"

definition clear_trackers :: "world_clock \<Rightarrow> tick list \<Rightarrow> (tick \<times> world_clock) \<times> tick list" where
  "clear_trackers w marks =
     (case clamp_ticks w marks of (w1, marks1) \<Rightarrow>
        let last_run = w_this_run w1; this_run = last_run + 1
        in ((this_run, w1\<lparr>w_last_run := last_run, w_this_run := this_run\<rparr>), marks1))"

section \<open>Ages\<close>

definition max_age :: nat where
  "max_age = 2 ^ 32 - 2 ^ 30 - 2"

definition cycle :: nat where
  "cycle = 2 ^ 29"

lemma unat_consts [tick_simps]: "unat CHECK_CYCLE = cycle" "unat MAX_TICK_AGE = max_age"
  by (simp_all add: CHECK_CYCLE_def MAX_TICK_AGE_def cycle_def max_age_def)

lemma age_of_nat [tick_simps]:
  assumes "m \<le> n" "n - m < 2 ^ 32"
  shows "unat (of_nat n - of_nat m :: tick) = n - m"
proof -
  have "(of_nat n - of_nat m :: tick) = of_nat (n - m)"
    using assms(1) by (simp add: of_nat_diff)
  then show ?thesis
    using assms(2) by (simp add: unat_of_nat_small del: of_nat_diff)
qed

lemma is_newer_than_ages:
  "is_newer_than a b now \<longleftrightarrow> min (unat (now - a)) max_age < min (unat (now - b)) max_age"
  by (auto simp: is_newer_than_def Let_def relative_to_def word_less_nat_alt tick_simps)

lemma clamp_with_eq: "clamp_with x now = (if max_age < unat (now - x) then now - MAX_TICK_AGE else x)"
  by (simp add: clamp_with_def Let_def relative_to_def word_less_nat_alt tick_simps)

lemma clamp_with_age: "unat (now - clamp_with x now) = min (unat (now - x)) max_age"
  by (auto simp: clamp_with_eq tick_simps)

section \<open>Runs of the clock\<close>

text \<open>
  A run advances the tick one by one, writes the current tick into a mark (a component is added or changed, a
  system has run), and calls \<^verbatim>\<open>clamp_ticks\<close>. Ghost fields hold the true time, the true time
  each mark was written, the true time of the last clamping pass and the number of ticks
  since the last call of \<^verbatim>\<open>clamp_ticks\<close>, which a run keeps within one check cycle.
\<close>

record tick_run =
  r_world :: world_clock
  r_marks :: "tick list"
  r_now :: nat
  r_born :: "nat list"
  r_checked :: nat
  r_idle :: nat

inductive run_step :: "tick_run \<Rightarrow> tick_run \<Rightarrow> bool" where
  run_advance: "r_idle r < cycle \<Longrightarrow>
    run_step r (r\<lparr>r_world := snd (advance_tick (r_world r)), r_now := r_now r + 1, r_idle := r_idle r + 1\<rparr>)"
| run_mark: "i < length (r_marks r) \<Longrightarrow>
    run_step r (r\<lparr>r_marks := (r_marks r)[i := w_this_run (r_world r)], r_born := (r_born r)[i := r_now r]\<rparr>)"
| run_new: "run_step r (r\<lparr>r_marks := r_marks r @ [w_this_run (r_world r)], r_born := r_born r @ [r_now r]\<rparr>)"
| run_clamp: "clamp_ticks (r_world r) (r_marks r) = (w, marks) \<Longrightarrow>
    run_step r (r\<lparr>r_world := w, r_marks := marks, r_idle := 0,
      r_checked := (if w_last_check w = w_last_check (r_world r) then r_checked r else r_now r)\<rparr>)"

definition run_start :: tick_run where
  "run_start = \<lparr>r_world = clock_new, r_marks = [], r_now = 1, r_born = [], r_checked = 0, r_idle = 0\<rparr>"

text \<open>A stored tick stands for some moment not before it was written, and has moved only at the maximal age.\<close>

definition mark_ok :: "nat \<Rightarrow> nat \<Rightarrow> tick \<Rightarrow> nat \<Rightarrow> bool" where
  "mark_ok now checked t born \<longleftrightarrow>
     (\<exists>m. t = of_nat m \<and> born \<le> m \<and> m \<le> now \<and> now - m \<le> max_age + (now - checked)
        \<and> (m = born \<or> max_age \<le> now - m))"

definition run_inv :: "tick_run \<Rightarrow> bool" where
  "run_inv r \<longleftrightarrow> w_this_run (r_world r) = of_nat (r_now r) \<and> w_last_check (r_world r) = of_nat (r_checked r)
     \<and> r_checked r \<le> r_now r \<and> r_now r - r_checked r < cycle + r_idle r \<and> r_idle r \<le> cycle
     \<and> list_all2 (mark_ok (r_now r) (r_checked r)) (r_marks r) (r_born r)"

lemma mark_ok_new: "mark_ok now checked (of_nat now) now"
  by (auto simp: mark_ok_def)

lemma mark_ok_advance: "mark_ok now checked t b \<Longrightarrow> checked \<le> now \<Longrightarrow> mark_ok (Suc now) checked t b"
  unfolding mark_ok_def by (elim exE, rule_tac x = m in exI) auto

lemma mark_ok_age:
  assumes "mark_ok now checked t b" "checked \<le> now" "now - checked \<le> 2 * cycle"
  shows "min (unat (of_nat now - t)) max_age = min (now - b) max_age" "b \<le> now"
proof -
  obtain m where m: "t = of_nat m" "b \<le> m" "m \<le> now" "now - m \<le> max_age + (now - checked)"
    "m = b \<or> max_age \<le> now - m"
    using assms(1) by (auto simp: mark_ok_def)
  have "now - m < 2 ^ 32"
    using m(4) assms(3) by (simp add: max_age_def cycle_def)
  then have "unat (of_nat now - t) = now - m"
    using age_of_nat [OF m(3)] m(1) by simp
  then show "min (unat (of_nat now - t)) max_age = min (now - b) max_age" "b \<le> now"
    using m by auto
qed

lemma mark_ok_clamp:
  assumes "mark_ok now checked t b" "checked \<le> now" "now - checked \<le> 2 * cycle"
  shows "mark_ok now now (clamp_with t (of_nat now)) b"
proof -
  obtain m where m: "t = of_nat m" "b \<le> m" "m \<le> now" "now - m \<le> max_age + (now - checked)"
    "m = b \<or> max_age \<le> now - m"
    using assms(1) by (auto simp: mark_ok_def)
  have "now - m < 2 ^ 32"
    using m(4) assms(3) by (simp add: max_age_def cycle_def)
  then have age: "unat (of_nat now - t) = now - m"
    using age_of_nat [OF m(3)] m(1) by simp
  show ?thesis
  proof (cases "max_age < now - m")
    case True
    have "MAX_TICK_AGE = of_nat max_age"
      using unat_consts(2) by (metis of_nat_unat_id)
    then have "clamp_with t (of_nat now) = of_nat (now - max_age)"
      using True age by (simp add: clamp_with_eq of_nat_diff)
    then show ?thesis
      using True m unfolding mark_ok_def by (intro exI [of _ "now - max_age"]) auto
  next
    case False
    then show ?thesis
      using age m unfolding mark_ok_def by (auto simp: clamp_with_eq intro!: exI [of _ m])
  qed
qed

lemma run_start_inv: "run_inv run_start"
  by (simp add: run_inv_def run_start_def clock_new_def cycle_def)

lemma run_inv_gap: "run_inv r \<Longrightarrow> r_checked r \<le> r_now r \<and> r_now r - r_checked r \<le> 2 * cycle"
  by (auto simp: run_inv_def cycle_def)

lemma run_step_inv:
  assumes "run_step r r'" "run_inv r"
  shows "run_inv r'"
  using assms(1)
proof (cases rule: run_step.cases)
  case run_advance
  have "list_all2 (mark_ok (Suc (r_now r)) (r_checked r)) (r_marks r) (r_born r)"
    using assms(2) unfolding run_inv_def by (auto elim: list_all2_mono intro: mark_ok_advance)
  then show ?thesis
    using assms(2) run_advance by (auto simp: run_inv_def advance_tick_def)
next
  case (run_mark i)
  then show ?thesis
    using assms(2) mark_ok_new by (simp add: run_inv_def list_all2_update_cong)
next
  case run_new
  then show ?thesis
    using assms(2) mark_ok_new by (simp add: run_inv_def list_all2_appendI)
next
  case (run_clamp w marks)
  note g = run_inv_gap [OF assms(2)]
  have age: "unat (w_this_run (r_world r) - w_last_check (r_world r)) = r_now r - r_checked r"
    using assms(2) g age_of_nat [of "r_checked r" "r_now r"] by (simp add: run_inv_def cycle_def)
  show ?thesis
  proof (cases "cycle \<le> r_now r - r_checked r")
    case True
    then have w: "w = (r_world r)\<lparr>w_last_check := of_nat (r_now r)\<rparr>"
      "marks = map (\<lambda>x. clamp_with x (of_nat (r_now r))) (r_marks r)"
      using run_clamp(2) age assms(2)
      by (auto simp: clamp_ticks_def Let_def word_le_nat_alt tick_simps run_inv_def)
    have this_run: "w_this_run (r_world r) = of_nat (r_now r)"
      and all: "list_all2 (mark_ok (r_now r) (r_checked r)) (r_marks r) (r_born r)"
      using assms(2) by (simp_all add: run_inv_def)
    have pos: "0 < cycle"
      by (simp add: cycle_def)
    have "w_last_check (r_world r) \<noteq> of_nat (r_now r)"
    proof
      assume "w_last_check (r_world r) = of_nat (r_now r)"
      then show False
        using age this_run True pos by simp
    qed
    moreover have "list_all2 (mark_ok (r_now r) (r_now r)) marks (r_born r)"
      unfolding w(2) list_all2_map1 using all by (rule list_all2_mono) (use mark_ok_clamp g in blast)
    ultimately show ?thesis
      using this_run pos unfolding run_clamp w(1) by (simp add: run_inv_def)
  next
    case False
    then have "w = r_world r" "marks = r_marks r"
      using run_clamp(2) age by (auto simp: clamp_ticks_def Let_def word_le_nat_alt tick_simps)
    then show ?thesis
      using assms(2) False unfolding run_clamp by (simp add: run_inv_def)
  qed
qed

lemma run_reach_inv: "run_step\<^sup>*\<^sup>* run_start r \<Longrightarrow> run_inv r"
  by (induction rule: rtranclp_induct) (auto intro: run_start_inv run_step_inv)

section \<open>Properties\<close>

text \<open>C16: change detection is exact up to the maximal age, for ever: in every run that calls
  \<^verbatim>\<open>clamp_ticks\<close> at least once per check cycle, through any number of wrap-arounds of the 32-bit counter,
  comparing two stored ticks gives the comparison of the true ages of the
  two writes, both cut off at the maximal age.\<close>
theorem change_detection_exact:
  assumes "run_step\<^sup>*\<^sup>* run_start r" "i < length (r_marks r)" "j < length (r_marks r)"
  shows "is_newer_than (r_marks r ! i) (r_marks r ! j) (w_this_run (r_world r))
    \<longleftrightarrow> min (r_now r - r_born r ! i) max_age < min (r_now r - r_born r ! j) max_age"
proof -
  have inv: "run_inv r"
    using assms(1) by (rule run_reach_inv)
  then have m: "mark_ok (r_now r) (r_checked r) (r_marks r ! k) (r_born r ! k)" if "k < length (r_marks r)" for k
    using that by (auto simp: run_inv_def list_all2_conv_all_nth)
  have "w_this_run (r_world r) = of_nat (r_now r)"
    using inv by (simp add: run_inv_def)
  then show ?thesis
    using mark_ok_age(1) [OF m] assms(2,3) run_inv_gap [OF inv] by (simp add: is_newer_than_ages)
qed

theorem change_detection_exact_witness:
  "is_newer_than (of_nat 2) (of_nat 1) (of_nat 2) = (min (2 - 2) max_age < min (2 - 1 :: nat) max_age)"
proof -
  define r1 where "r1 = run_start\<lparr>r_marks := [1], r_born := [1]\<rparr>"
  define r2 where "r2 = r1\<lparr>r_world := snd (advance_tick (r_world r1)), r_now := Suc 1, r_idle := 1\<rparr>"
  define r3 where "r3 = r2\<lparr>r_marks := [1, 2], r_born := [1, Suc 1]\<rparr>"
  have "run_step run_start r1"
    using run_new [of run_start] by (simp add: r1_def run_start_def clock_new_def)
  moreover have "run_step r1 r2"
    using run_advance [of r1] by (simp add: r1_def r2_def run_start_def cycle_def)
  moreover have "run_step r2 r3"
    using run_new [of r2] by (simp add: r1_def r2_def r3_def run_start_def clock_new_def advance_tick_def)
  ultimately have "run_step\<^sup>*\<^sup>* run_start r3"
    by (meson rtranclp.rtrancl_refl rtranclp.rtrancl_into_rtrancl)
  from change_detection_exact [OF this, of 1 0] show ?thesis
    by (simp add: r1_def r2_def r3_def run_start_def clock_new_def advance_tick_def)
qed

text \<open>Clamping loses nothing that matters: a clamped tick has its old age cut off at the
  maximal age, so that no comparison changes at the moment of clamping; clamping twice is
  clamping once; and the slice version clamps every element as the single version and the
  atomic version do.\<close>
theorem clamping_preserves_comparisons:
  "unat (relative_to now (clamp_with x now)) = min (unat (relative_to now x)) max_age
   \<and> is_newer_than (clamp_with x now) (clamp_with y now) now = is_newer_than x y now
   \<and> clamp_with (clamp_with x now) now = clamp_with x now
   \<and> clamp_tick_slice xs now = map (\<lambda>t. clamp_with t now) xs
   \<and> atomic_clamp_with x now = clamp_with x now"
proof -
  have "clamp_tick_slice xs now = map (\<lambda>t. clamp_with t now) xs"
    by (simp add: clamp_tick_slice_def clamp_with_def relative_to_def Let_def)
  moreover have "clamp_with (clamp_with x now) now = clamp_with x now"
    using clamp_with_age [of now x] by (simp add: clamp_with_eq [of "clamp_with x now"])
  moreover have "atomic_clamp_with x now = clamp_with x now"
    by (simp add: atomic_clamp_with_def clamp_with_def)
  ultimately show ?thesis
    by (simp add: relative_to_def clamp_with_age is_newer_than_ages)
qed

end
