(* ===== verification/Column_Store.thy ===== *)
theory Column_Store
  imports Change_Tick "HOL-Library.Monad_Syntax"
begin

text \<open>
  Column storage (\<^verbatim>\<open>zlim-core/src/table/blob_array.rs\<close>, \<^verbatim>\<open>tick_array.rs\<close>, \<^verbatim>\<open>column.rs\<close>): a
  column keeps one component type for all rows of a table, the component values in raw
  memory and two arrays of ticks. Raw memory is a list of cells, as long as the capacity; \<open>None\<close> is a cell
  never written. A value that is moved out, forgotten or dropped leaves its
  bytes behind, as in the code. An operation that would read or write outside the memory, hand an unwritten
  cell to the dropper, or pass a wrong layout to the allocator is the value \<open>None\<close>; the other results are
  \<open>Some\<close>. \<open>b_log\<close> is a ghost list of the values the dropper was called on.
\<close>

section \<open>Raw component memory\<close>

record 'v blob_array =
  b_drops :: bool
  b_cells :: "'v option list"
  b_log :: "'v list"

definition blob_new :: "bool \<Rightarrow> 'v blob_array" where
  "blob_new drops = \<lparr>b_drops = drops, b_cells = [], b_log = []\<rparr>"

definition blob_alloc :: "'v blob_array \<Rightarrow> nat \<Rightarrow> 'v blob_array" where
  "blob_alloc b capacity = b\<lparr>b_cells := replicate capacity None\<rparr>"

definition blob_realloc :: "'v blob_array \<Rightarrow> nat \<Rightarrow> nat \<Rightarrow> 'v blob_array option" where
  "blob_realloc b current new =
     (if length (b_cells b) = current
      then Some (b\<lparr>b_cells := take new (b_cells b) @ replicate (new - current) None\<rparr>) else None)"

definition blob_dealloc :: "'v blob_array \<Rightarrow> nat \<Rightarrow> 'v blob_array option" where
  "blob_dealloc b current =
     (if current = 0 then Some b
      else if length (b_cells b) = current then Some (b\<lparr>b_cells := []\<rparr>) else None)"

definition blob_get :: "'v blob_array \<Rightarrow> nat \<Rightarrow> 'v option option" where
  "blob_get b i = (if i < length (b_cells b) then Some (b_cells b ! i) else None)"

definition blob_init_item :: "'v blob_array \<Rightarrow> nat \<Rightarrow> 'v option \<Rightarrow> 'v blob_array option" where
  "blob_init_item b i v =
     (if i < length (b_cells b) then Some (b\<lparr>b_cells := (b_cells b)[i := v]\<rparr>) else None)"

text \<open>Calling the dropper, when the component type has one.\<close>

definition call_dropper :: "'v blob_array \<Rightarrow> 'v option \<Rightarrow> 'v blob_array option" where
  "call_dropper b c =
     (if b_drops b then (case c of Some v \<Rightarrow> Some (b\<lparr>b_log := b_log b @ [v]\<rparr>) | None \<Rightarrow> None)
      else Some b)"

definition blob_replace_item :: "'v blob_array \<Rightarrow> nat \<Rightarrow> 'v option \<Rightarrow> 'v blob_array option" where
  "blob_replace_item b i v =
     do { old \<leftarrow> blob_get b i; b1 \<leftarrow> call_dropper b old; blob_init_item b1 i v }"

definition blob_remove_item :: "'v blob_array \<Rightarrow> nat \<Rightarrow> 'v option option" where
  "blob_remove_item b i = blob_get b i"

definition blob_forget_item :: "'v blob_array \<Rightarrow> nat \<Rightarrow> 'v blob_array" where
  "blob_forget_item b i = b"

definition blob_drop_item :: "'v blob_array \<Rightarrow> nat \<Rightarrow> 'v blob_array option" where
  "blob_drop_item b i = (if b_drops b then do { c \<leftarrow> blob_get b i; call_dropper b c } else Some b)"

fun blob_drop_range :: "'v blob_array \<Rightarrow> nat list \<Rightarrow> 'v blob_array option" where
  "blob_drop_range b [] = Some b"
| "blob_drop_range b (i # is) =
     do { c \<leftarrow> blob_get b i; b1 \<leftarrow> call_dropper b c; blob_drop_range b1 is }"

definition blob_drop_slice :: "'v blob_array \<Rightarrow> nat \<Rightarrow> 'v blob_array option" where
  "blob_drop_slice b len = (if b_drops b then blob_drop_range b [0..<len] else Some b)"

definition blob_swap_remove_not_last ::
  "'v blob_array \<Rightarrow> nat \<Rightarrow> nat \<Rightarrow> ('v option \<times> 'v blob_array) option" where
  "blob_swap_remove_not_last b i lst =
     (if i = lst then None
      else do {
        x \<leftarrow> blob_get b i;
        y \<leftarrow> blob_get b lst;
        Some (x, b\<lparr>b_cells := (b_cells b)[i := y, lst := x]\<rparr>) })"

definition blob_swap_forget_not_last :: "'v blob_array \<Rightarrow> nat \<Rightarrow> nat \<Rightarrow> 'v blob_array option" where
  "blob_swap_forget_not_last b i lst =
     (if i = lst then None else do { y \<leftarrow> blob_get b lst; blob_init_item b i y })"

definition blob_swap_drop_not_last :: "'v blob_array \<Rightarrow> nat \<Rightarrow> nat \<Rightarrow> 'v blob_array option" where
  "blob_swap_drop_not_last b i lst =
     do { (x, b1) \<leftarrow> blob_swap_remove_not_last b i lst; call_dropper b1 x }"

section \<open>Tick memory\<close>

type_synonym tick_array = "tick option list"

definition tick_alloc :: "nat \<Rightarrow> tick_array" where
  "tick_alloc capacity = replicate capacity None"

definition tick_realloc :: "tick_array \<Rightarrow> nat \<Rightarrow> nat \<Rightarrow> tick_array option" where
  "tick_realloc a current new =
     (if length a = current then Some (take new a @ replicate (new - current) None) else None)"

definition tick_dealloc :: "tick_array \<Rightarrow> nat \<Rightarrow> tick_array option" where
  "tick_dealloc a current = (if current = 0 then Some a else if length a = current then Some [] else None)"

definition tick_set :: "tick_array \<Rightarrow> nat \<Rightarrow> tick option \<Rightarrow> tick_array option" where
  "tick_set a i t = (if i < length a then Some (a[i := t]) else None)"

definition tick_get :: "tick_array \<Rightarrow> nat \<Rightarrow> tick option" where
  "tick_get a i = (if i < length a then a ! i else None)"

definition tick_move_last_to :: "tick_array \<Rightarrow> nat \<Rightarrow> nat \<Rightarrow> tick_array option" where
  "tick_move_last_to a lst to =
     (if lst < length a \<and> to < length a \<and> lst \<noteq> to then Some (a[to := a ! lst]) else None)"

section \<open>Columns\<close>

record 'v column =
  c_data :: "'v blob_array"
  c_added :: tick_array
  c_changed :: tick_array
  c_summary :: "tick option"

definition column_new :: "bool \<Rightarrow> 'v column" where
  "column_new drops = \<lparr>c_data = blob_new drops, c_added = [], c_changed = [], c_summary = None\<rparr>"

definition with_summary :: "'v column \<Rightarrow> 'v column" where
  "with_summary c = c\<lparr>c_summary := Some 0\<rparr>"

definition column_alloc :: "'v column \<Rightarrow> nat \<Rightarrow> 'v column" where
  "column_alloc c n = c\<lparr>c_data := blob_alloc (c_data c) n, c_added := tick_alloc n, c_changed := tick_alloc n\<rparr>"

definition column_realloc :: "'v column \<Rightarrow> nat \<Rightarrow> nat \<Rightarrow> 'v column option" where
  "column_realloc c current new =
     do { d \<leftarrow> blob_realloc (c_data c) current new;
          a \<leftarrow> tick_realloc (c_added c) current new;
          h \<leftarrow> tick_realloc (c_changed c) current new;
          Some (c\<lparr>c_data := d, c_added := a, c_changed := h\<rparr>) }"

definition column_dealloc :: "'v column \<Rightarrow> nat \<Rightarrow> 'v column option" where
  "column_dealloc c current =
     do { d \<leftarrow> blob_dealloc (c_data c) current;
          a \<leftarrow> tick_dealloc (c_added c) current;
          h \<leftarrow> tick_dealloc (c_changed c) current;
          Some (c\<lparr>c_data := d, c_added := a, c_changed := h\<rparr>) }"

definition mark_changed :: "'v column \<Rightarrow> nat \<Rightarrow> tick \<Rightarrow> 'v column option" where
  "mark_changed c i t =
     do { h \<leftarrow> tick_set (c_changed c) i (Some t);
          Some (c\<lparr>c_changed := h, c_summary := try_mutate (c_summary c) t\<rparr>) }"

definition mark_added_and_changed :: "'v column \<Rightarrow> nat \<Rightarrow> tick \<Rightarrow> 'v column option" where
  "mark_added_and_changed c i t =
     do { a \<leftarrow> tick_set (c_added c) i (Some t);
          h \<leftarrow> tick_set (c_changed c) i (Some t);
          Some (c\<lparr>c_added := a, c_changed := h, c_summary := try_mutate (c_summary c) t\<rparr>) }"

definition column_init_item :: "'v column \<Rightarrow> nat \<Rightarrow> 'v option \<Rightarrow> tick \<Rightarrow> 'v column option" where
  "column_init_item c i v t =
     do { d \<leftarrow> blob_init_item (c_data c) i v;
          a \<leftarrow> tick_set (c_added c) i (Some t);
          h \<leftarrow> tick_set (c_changed c) i (Some t);
          Some (c\<lparr>c_data := d, c_added := a, c_changed := h, c_summary := try_mutate (c_summary c) t\<rparr>) }"

definition column_replace_item :: "'v column \<Rightarrow> nat \<Rightarrow> 'v option \<Rightarrow> tick \<Rightarrow> 'v column option" where
  "column_replace_item c i v t =
     do { d \<leftarrow> blob_replace_item (c_data c) i v;
          h \<leftarrow> tick_set (c_changed c) i (Some t);
          Some (c\<lparr>c_data := d, c_changed := h, c_summary := try_mutate (c_summary c) t\<rparr>) }"

definition column_remove_item :: "'v column \<Rightarrow> nat \<Rightarrow> 'v option option" where
  "column_remove_item c i = blob_remove_item (c_data c) i"

definition column_forget_item :: "'v column \<Rightarrow> nat \<Rightarrow> 'v column" where
  "column_forget_item c i = c\<lparr>c_data := blob_forget_item (c_data c) i\<rparr>"

definition column_drop_item :: "'v column \<Rightarrow> nat \<Rightarrow> 'v column option" where
  "column_drop_item c i = do { d \<leftarrow> blob_drop_item (c_data c) i; Some (c\<lparr>c_data := d\<rparr>) }"

definition column_drop_slice :: "'v column \<Rightarrow> nat \<Rightarrow> 'v column option" where
  "column_drop_slice c len = do { d \<leftarrow> blob_drop_slice (c_data c) len; Some (c\<lparr>c_data := d\<rparr>) }"

definition swap_forget_not_last :: "'v column \<Rightarrow> nat \<Rightarrow> nat \<Rightarrow> 'v column option" where
  "swap_forget_not_last c i lst =
     do { a \<leftarrow> tick_move_last_to (c_added c) lst i;
          h \<leftarrow> tick_move_last_to (c_changed c) lst i;
          d \<leftarrow> blob_swap_forget_not_last (c_data c) i lst;
          Some (c\<lparr>c_added := a, c_changed := h, c_data := d\<rparr>) }"

definition swap_drop_not_last :: "'v column \<Rightarrow> nat \<Rightarrow> nat \<Rightarrow> 'v column option" where
  "swap_drop_not_last c i lst =
     do { a \<leftarrow> tick_move_last_to (c_added c) lst i;
          h \<leftarrow> tick_move_last_to (c_changed c) lst i;
          d \<leftarrow> blob_swap_drop_not_last (c_data c) i lst;
          Some (c\<lparr>c_added := a, c_changed := h, c_data := d\<rparr>) }"

text \<open>Moving an item to another column; the source keeps its bytes.\<close>

definition move_item_to :: "'v column \<Rightarrow> 'v column \<Rightarrow> nat \<Rightarrow> nat \<Rightarrow> 'v column option" where
  "move_item_to c other src dst =
     do { x \<leftarrow> blob_remove_item (c_data c) src;
          d \<leftarrow> blob_init_item (c_data other) dst x;
          ta \<leftarrow> tick_get (c_added c) src;
          a \<leftarrow> tick_set (c_added other) dst (Some ta);
          tc \<leftarrow> tick_get (c_changed c) src;
          h \<leftarrow> tick_set (c_changed other) dst (Some tc);
          Some (other\<lparr>c_data := d, c_added := a, c_changed := h,
            c_summary := try_mutate (c_summary other) tc\<rparr>) }"

definition column_clamp_ticks :: "'v column \<Rightarrow> nat \<Rightarrow> tick \<Rightarrow> 'v column option" where
  "column_clamp_ticks c len now =
     (if len \<le> length (c_added c) \<and> len \<le> length (c_changed c)
         \<and> None \<notin> set (take len (c_added c)) \<and> None \<notin> set (take len (c_changed c))
      then Some (c\<lparr>c_summary := map_option (\<lambda>s. atomic_clamp_with s now) (c_summary c),
        c_added := map Some (clamp_tick_slice (map the (take len (c_added c))) now) @ drop len (c_added c),
        c_changed := map Some (clamp_tick_slice (map the (take len (c_changed c))) now) @ drop len (c_changed c)\<rparr>)
      else None)"

definition column_shrink_to :: "'v column \<Rightarrow> nat \<Rightarrow> nat \<Rightarrow> 'v column option" where
  "column_shrink_to c current new =
     (if new \<noteq> 0 then column_realloc c current new else column_dealloc c current)"

section \<open>Items\<close>

text \<open>One row of a column: the value and its two ticks, each possibly unwritten.\<close>

type_synonym 'v item = "'v option \<times> tick option \<times> tick option"

definition col_ok :: "nat \<Rightarrow> 'v column \<Rightarrow> bool" where
  "col_ok cap c \<longleftrightarrow> length (b_cells (c_data c)) = cap \<and> length (c_added c) = cap \<and> length (c_changed c) = cap"

definition item :: "'v column \<Rightarrow> nat \<Rightarrow> 'v item" where
  "item c i = (b_cells (c_data c) ! i, c_added c ! i, c_changed c ! i)"

definition col_drops :: "'v column \<Rightarrow> bool" where
  "col_drops c \<longleftrightarrow> b_drops (c_data c)"

definition col_log :: "'v column \<Rightarrow> 'v list" where
  "col_log c = b_log (c_data c)"

text \<open>An item whose parts have all been written.\<close>

definition item_full :: "'v item \<Rightarrow> bool" where
  "item_full x \<longleftrightarrow> fst x \<noteq> None \<and> fst (snd x) \<noteq> None \<and> snd (snd x) \<noteq> None"

definition dropped_by :: "'v column \<Rightarrow> 'v item \<Rightarrow> 'v list" where
  "dropped_by c x = (if col_drops c then [the (fst x)] else [])"

lemmas column_defs = col_ok_def col_drops_def col_log_def item_def dropped_by_def item_full_def
  blob_get_def blob_init_item_def call_dropper_def blob_remove_item_def tick_set_def tick_get_def
  tick_move_last_to_def

lemma column_init_item_ok:
  assumes "col_ok cap c" "i < cap"
  obtains c' where "column_init_item c i v t = Some c'" "col_ok cap c'"
    "\<And>j. item c' j = (if j = i then (v, Some t, Some t) else item c j)"
    "col_drops c' = col_drops c" "col_log c' = col_log c" "c_summary c' = try_mutate (c_summary c) t"
  using assms by (auto simp: column_init_item_def column_defs nth_list_update)

lemma column_replace_item_ok:
  assumes "col_ok cap c" "i < cap" "fst (item c i) = Some old"
  obtains c' where "column_replace_item c i v t = Some c'" "col_ok cap c'"
    "\<And>j. item c' j = (if j = i then (v, fst (snd (item c i)), Some t) else item c j)"
    "col_drops c' = col_drops c" "col_log c' = col_log c @ dropped_by c (item c i)"
    "c_summary c' = try_mutate (c_summary c) t"
  using assms by (cases "b_drops (c_data c)")
    (auto simp: column_replace_item_def blob_replace_item_def column_defs nth_list_update)

lemma swap_forget_ok:
  assumes "col_ok cap c" "i < cap" "lst < cap" "i \<noteq> lst"
  obtains c' where "swap_forget_not_last c i lst = Some c'" "col_ok cap c'"
    "\<And>j. j \<noteq> lst \<Longrightarrow> item c' j = (if j = i then item c lst else item c j)"
    "col_drops c' = col_drops c" "col_log c' = col_log c" "c_summary c' = c_summary c"
  using assms
  by (auto simp: swap_forget_not_last_def blob_swap_forget_not_last_def column_defs nth_list_update)

lemma swap_drop_ok:
  assumes "col_ok cap c" "i < cap" "lst < cap" "i \<noteq> lst" "fst (item c i) = Some v"
  obtains c' where "swap_drop_not_last c i lst = Some c'" "col_ok cap c'"
    "\<And>j. j \<noteq> lst \<Longrightarrow> item c' j = (if j = i then item c lst else item c j)"
    "col_drops c' = col_drops c" "col_log c' = col_log c @ dropped_by c (item c i)" "c_summary c' = c_summary c"
  using assms
  by (cases "b_drops (c_data c)") (auto simp: swap_drop_not_last_def blob_swap_drop_not_last_def
      blob_swap_remove_not_last_def column_defs nth_list_update)

lemma column_drop_item_ok:
  assumes "col_ok cap c" "i < cap" "fst (item c i) = Some v"
  obtains c' where "column_drop_item c i = Some c'" "col_ok cap c'" "\<And>j. item c' j = item c j"
    "col_drops c' = col_drops c" "col_log c' = col_log c @ dropped_by c (item c i)" "c_summary c' = c_summary c"
  using assms
  by (cases "b_drops (c_data c)") (auto simp: column_drop_item_def blob_drop_item_def column_defs)

lemma move_item_to_ok:
  assumes "col_ok cap c" "src < cap" "item_full (item c src)" "col_ok ocap other" "dst < ocap"
  obtains other' where "move_item_to c other src dst = Some other'" "col_ok ocap other'"
    "\<And>j. item other' j = (if j = dst then item c src else item other j)"
    "col_drops other' = col_drops other" "col_log other' = col_log other"
    "c_summary other' = try_mutate (c_summary other) (the (snd (snd (item c src))))"
  using assms by (auto simp: move_item_to_def column_defs nth_list_update)

lemma column_grow_ok:
  assumes "col_ok cap c" "cap \<le> new"
  obtains c' where "column_realloc c cap new = Some c'" "col_ok new c'"
    "\<And>j. j < cap \<Longrightarrow> item c' j = item c j" "col_drops c' = col_drops c" "col_log c' = col_log c"
    "c_summary c' = c_summary c"
  using assms
  by (auto simp: column_realloc_def blob_realloc_def tick_realloc_def column_defs nth_append)

end
