(* ===== verification/Table_Store.thy ===== *)
theory Table_Store
  imports Entity_Tree Column_Store
begin

text \<open>
  Tables (\<^verbatim>\<open>zlim-core/src/table/table.rs\<close>): one table holds all entities with the same set of
  components, a column per component and the list of entity ids, row by row. As in the column theory,
  \<open>None\<close> stands for undefined behaviour or an abort of the process. The specification of a
  table is its list of rows, each the entity id and one item per column; the operations are list
  operations on it.
\<close>

section \<open>Tables\<close>

record 'v table =
  t_id :: u32
  t_components :: "u32 list"
  t_columns :: "'v column list"
  t_entities :: "entity_id list"
  t_cap :: nat

text \<open>What a table needs of a component's registration: whether values need dropping, whether the column keeps a summary.\<close>

record component_info =
  i_drops :: bool
  i_summary :: bool

definition table_empty :: "'v table" where
  "table_empty = \<lparr>t_id = 0, t_components = [], t_columns = [], t_entities = [], t_cap = 0\<rparr>"

definition table_new :: "u32 \<Rightarrow> (u32 \<Rightarrow> component_info) \<Rightarrow> u32 list \<Rightarrow> 'v table option" where
  "table_new tid dbs idents =
     (if sorted idents then
        Some \<lparr>t_id = tid, t_components = idents,
          t_columns = map (\<lambda>i. let c = column_new (i_drops (dbs i))
                               in if i_summary (dbs i) then with_summary c else c) idents,
          t_entities = [], t_cap = 0\<rparr>
      else None)"

text \<open>\<^verbatim>\<open>slice::binary_search\<close> on the half-open range between \<open>lo\<close> and \<open>hi\<close>.\<close>

function bisect :: "'a::linorder list \<Rightarrow> 'a \<Rightarrow> nat \<Rightarrow> nat \<Rightarrow> nat option" where
  "bisect xs x lo hi =
     (if lo \<ge> hi then None
      else let mid = (lo + hi) div 2
           in if xs ! mid = x then Some mid
              else if xs ! mid < x then bisect xs x (mid + 1) hi
              else bisect xs x lo mid)"
  by pat_completeness auto
termination
  by (relation "measure (\<lambda>(xs, x, lo, hi). hi - lo)") auto

declare bisect.simps [simp del]

definition binary_search :: "'a::linorder list \<Rightarrow> 'a \<Rightarrow> nat option" where
  "binary_search xs x = bisect xs x 0 (length xs)"

definition get_table_col :: "'v table \<Rightarrow> u32 \<Rightarrow> nat option" where
  "get_table_col t cid = binary_search (t_components t) cid"

definition get_table_row :: "platform \<Rightarrow> 'v table \<Rightarrow> entity_id \<Rightarrow> u32 option" where
  "get_table_row pf t x = map_option of_nat (position_entity (pool_threads pf) x (t_entities t))"

definition contains_component :: "'v table \<Rightarrow> u32 \<Rightarrow> bool" where
  "contains_component t cid =
     (if length (t_components t) < 100 then cid \<in> set (t_components t)
      else binary_search (t_components t) cid \<noteq> None)"

definition contains_entities :: "platform \<Rightarrow> 'v table \<Rightarrow> entity_id \<Rightarrow> bool" where
  "contains_entities pf t x = contains_entity (pool_threads pf) x (t_entities t)"

text \<open>Writing and removing one item, each behind the assertion on the row.\<close>

definition on_column ::
  "'v table \<Rightarrow> nat \<Rightarrow> u32 \<Rightarrow> ('v column \<Rightarrow> 'v column option) \<Rightarrow> 'v table option" where
  "on_column t col row f =
     (if unat row < length (t_entities t) \<and> col < length (t_columns t)
      then do { c \<leftarrow> f (t_columns t ! col); Some (t\<lparr>t_columns := (t_columns t)[col := c]\<rparr>) }
      else None)"

definition table_init_item :: "'v table \<Rightarrow> nat \<Rightarrow> u32 \<Rightarrow> 'v \<Rightarrow> tick \<Rightarrow> 'v table option" where
  "table_init_item t col row v k = on_column t col row (\<lambda>c. column_init_item c (unat row) (Some v) k)"

definition table_replace_item :: "'v table \<Rightarrow> nat \<Rightarrow> u32 \<Rightarrow> 'v \<Rightarrow> tick \<Rightarrow> 'v table option" where
  "table_replace_item t col row v k = on_column t col row (\<lambda>c. column_replace_item c (unat row) (Some v) k)"

definition table_remove_item :: "'v table \<Rightarrow> nat \<Rightarrow> u32 \<Rightarrow> 'v option option" where
  "table_remove_item t col row =
     (if unat row < length (t_entities t) \<and> col < length (t_columns t)
      then column_remove_item (t_columns t ! col) (unat row) else None)"

definition table_drop_item :: "'v table \<Rightarrow> nat \<Rightarrow> u32 \<Rightarrow> 'v table option" where
  "table_drop_item t col row = on_column t col row (\<lambda>c. column_drop_item c (unat row))"

definition table_clamp_ticks :: "'v table \<Rightarrow> tick \<Rightarrow> 'v table option" where
  "table_clamp_ticks t now =
     do { cs \<leftarrow> those (map (\<lambda>c. column_clamp_ticks c (length (t_entities t)) now) (t_columns t));
          Some (t\<lparr>t_columns := cs\<rparr>) }"

function npot_from :: "nat \<Rightarrow> nat \<Rightarrow> nat" where
  "npot_from p n = (if p \<ge> n \<or> p = 0 then p else npot_from (2 * p) n)"
  by pat_completeness auto
termination
  by (relation "measure (\<lambda>(p, n). n - p)") auto

declare npot_from.simps [simp del]

definition next_power_of_two :: "nat \<Rightarrow> nat" where
  "next_power_of_two n = npot_from 1 n"

text \<open>\<^verbatim>\<open>Vec::shrink_to\<close> keeps at least the length and the requested capacity.\<close>

definition shrink :: "platform \<Rightarrow> 'v table \<Rightarrow> 'v table option" where
  "shrink pf t =
     (let len = length (t_entities t); cap = t_cap t
      in if len = 0 \<and> cap \<noteq> 0 then
           do { cs \<leftarrow> those (map (\<lambda>c. column_shrink_to c cap 0) (t_columns t));
                Some (t\<lparr>t_columns := cs, t_cap := 0\<rparr>) }
         else if cap \<ge> next_power_of_two (len + 2 * len) \<and> cap \<ge> 16 then
           (let new_cap = max (next_power_of_two len) (len + len div 2);
                new = min cap (vec_capacity pf (max len new_cap))
            in do { cs \<leftarrow> those (map (\<lambda>c. column_shrink_to c cap new) (t_columns t));
                    Some (t\<lparr>t_columns := cs, t_cap := new\<rparr>) })
         else Some t)"

definition reserve_many :: "platform \<Rightarrow> 'v table \<Rightarrow> 'v table option" where
  "reserve_many pf t =
     (let old_cap = t_cap t; new_cap = vec_capacity pf (length (t_entities t) + 1)
      in if \<not> new_cap \<le> 0xFFFFFFFF then None
         else if old_cap \<noteq> 0 then
           do { cs \<leftarrow> those (map (\<lambda>c. column_realloc c old_cap new_cap) (t_columns t));
                Some (t\<lparr>t_columns := cs, t_cap := new_cap\<rparr>) }
         else Some (t\<lparr>t_columns := map (\<lambda>c. column_alloc c new_cap) (t_columns t), t_cap := new_cap\<rparr>))"

definition alloc_row :: "platform \<Rightarrow> 'v table \<Rightarrow> entity_id \<Rightarrow> (u32 \<times> 'v table) option" where
  "alloc_row pf t x =
     do { t1 \<leftarrow> (if length (t_entities t) = t_cap t then reserve_many pf t else Some t);
          Some (of_nat (length (t_entities t)), t1\<lparr>t_entities := t_entities t1 @ [x]\<rparr>) }"

definition dealloc_row :: "bool \<Rightarrow> 'v table \<Rightarrow> u32 \<Rightarrow> (moved_entity_row \<times> 'v table) option" where
  "dealloc_row DROP t row =
     (let removal = unat row; n = length (t_entities t); lst = n - 1
      in if n = 0 \<or> \<not> removal \<le> lst then None
         else if removal \<noteq> lst then
           do { cs \<leftarrow> those (map (\<lambda>c. if DROP then swap_drop_not_last c removal lst
                                  else swap_forget_not_last c removal lst) (t_columns t));
                Some (MovedSome (t_entities t ! lst) row,
                  t\<lparr>t_entities := take lst ((t_entities t)[removal := t_entities t ! lst]), t_columns := cs\<rparr>) }
         else
           do { cs \<leftarrow> (if DROP then those (map (\<lambda>c. column_drop_item c lst) (t_columns t))
                      else Some (t_columns t));
                Some (MovedNone, t\<lparr>t_entities := take lst (t_entities t), t_columns := cs\<rparr>) })"

text \<open>
  The loop of \<^verbatim>\<open>move_row\<close> over the components and columns of the source, with the target table as
  it is updated; \<open>inner\<close> says that the row is not the last one.
\<close>

fun move_columns ::
  "bool \<Rightarrow> bool \<Rightarrow> nat \<Rightarrow> nat \<Rightarrow> nat \<Rightarrow> (u32 \<times> 'v column) list \<Rightarrow> 'v table \<Rightarrow> ('v column list \<times> 'v table) option" where
  "move_columns DROP inner src lst dst [] other = Some ([], other)"
| "move_columns DROP inner src lst dst ((cid, c) # rest) other =
     (case get_table_col other cid of
        Some k \<Rightarrow>
          (if k < length (t_columns other) then
             do { oc \<leftarrow> move_item_to c (t_columns other ! k) src dst;
                  c1 \<leftarrow> (if inner then swap_forget_not_last c src lst else Some c);
                  (cs, other1) \<leftarrow> move_columns DROP inner src lst dst rest
                                   (other\<lparr>t_columns := (t_columns other)[k := oc]\<rparr>);
                  Some (c1 # cs, other1) }
           else None)
      | None \<Rightarrow>
          do { c1 \<leftarrow> (if DROP then (if inner then swap_drop_not_last c src lst else column_drop_item c lst)
                     else if inner then swap_forget_not_last c src lst else Some c);
               (cs, other1) \<leftarrow> move_columns DROP inner src lst dst rest other;
               Some (c1 # cs, other1) })"

definition move_row ::
  "platform \<Rightarrow> bool \<Rightarrow> 'v table \<Rightarrow> u32 \<Rightarrow> 'v table \<Rightarrow> ((moved_entity_row \<times> u32) \<times> 'v table \<times> 'v table) option" where
  "move_row pf DROP t row other =
     (let src = unat row; n = length (t_entities t); lst = n - 1; inner = (src \<noteq> lst)
      in if n = 0 \<or> \<not> src \<le> lst then None
         else do {
           (new_row, other1) \<leftarrow> alloc_row pf other (t_entities t ! src);
           (cs, other2) \<leftarrow> move_columns DROP inner src lst (unat new_row)
                            (zip (t_components t) (t_columns t)) other1;
           Some ((if inner then MovedSome (t_entities t ! lst) row else MovedNone, new_row),
             t\<lparr>t_entities := take lst ((t_entities t)[src := t_entities t ! lst]), t_columns := cs\<rparr>, other2) })"

definition table_drop :: "'v table \<Rightarrow> 'v table option" where
  "table_drop t =
     do { cs \<leftarrow> those (map (\<lambda>c. do { c1 \<leftarrow> column_drop_slice c (length (t_entities t)); column_dealloc c1 (t_cap t) })
                (t_columns t));
          Some (t\<lparr>t_columns := cs\<rparr>) }"

section \<open>Rows\<close>

type_synonym 'v row = "entity_id \<times> 'v item list"

definition rows :: "'v table \<Rightarrow> 'v row list" where
  "rows t = map (\<lambda>i. (t_entities t ! i, map (\<lambda>c. item c i) (t_columns t))) [0..<length (t_entities t)]"

definition table_inv :: "'v table \<Rightarrow> bool" where
  "table_inv t \<longleftrightarrow> sorted_wrt (<) (t_components t) \<and> length (t_columns t) = length (t_components t)
     \<and> (\<forall>c\<in>set (t_columns t). col_ok (t_cap t) c)
     \<and> length (t_entities t) \<le> t_cap t \<and> t_cap t < 2 ^ 32"

definition row_full :: "'v row \<Rightarrow> bool" where
  "row_full r \<longleftrightarrow> list_all item_full (snd r)"

lemma length_rows [simp]: "length (rows t) = length (t_entities t)"
  by (simp add: rows_def)

lemma nth_rows [simp]:
  "i < length (t_entities t) \<Longrightarrow> rows t ! i = (t_entities t ! i, map (\<lambda>c. item c i) (t_columns t))"
  by (simp add: rows_def)

lemma bisect_Some: "bisect xs x lo hi = Some i \<Longrightarrow> lo \<le> i \<and> i < hi \<and> xs ! i = x"
proof (induction xs x lo hi rule: bisect.induct)
  case (1 xs x lo hi)
  then show ?case
    by (subst (asm) (3) bisect.simps) (fastforce simp: Let_def split: if_splits)
qed

lemma bisect_None:
  "bisect xs x lo hi = None \<Longrightarrow> sorted_wrt (<) xs \<Longrightarrow> hi \<le> length xs \<Longrightarrow> lo \<le> i \<Longrightarrow> i < hi \<Longrightarrow> xs ! i \<noteq> x"
proof (induction xs x lo hi rule: bisect.induct)
  case (1 xs x lo hi)
  let ?mid = "(lo + hi) div 2"
  have nlt: "\<not> hi \<le> lo" and mid: "?mid < length xs"
    using 1 by auto
  have less: "xs ! a < xs ! b" if "a < b" "b < length xs" for a b
    using 1(4) that by (simp add: sorted_wrt_nth_less)
  from 1(3) nlt have "xs ! ?mid \<noteq> x"
    by (subst (asm) bisect.simps) (auto simp: Let_def split: if_splits)
  show ?case
  proof (cases "xs ! ?mid < x")
    case True
    with 1(3) nlt have "bisect xs x (?mid + 1) hi = None"
      by (subst (asm) bisect.simps) (auto simp: Let_def split: if_splits)
    then have up: "?mid + 1 \<le> i \<Longrightarrow> xs ! i \<noteq> x"
      using 1(1) [OF nlt refl \<open>xs ! ?mid \<noteq> x\<close> True] 1(4-7) by blast
    have "xs ! i \<noteq> x" if "i \<le> ?mid"
      using that True less [of i ?mid] mid by (cases "i = ?mid") auto
    with up show ?thesis by linarith
  next
    case False
    with 1(3) nlt \<open>xs ! ?mid \<noteq> x\<close> have "bisect xs x lo ?mid = None"
      by (subst (asm) bisect.simps) (auto simp: Let_def split: if_splits)
    then have down: "i < ?mid \<Longrightarrow> xs ! i \<noteq> x"
      using 1(2) [OF nlt refl \<open>xs ! ?mid \<noteq> x\<close> False] 1(4-7) mid by simp
    have "xs ! i \<noteq> x" if "?mid \<le> i"
      using that False less [of ?mid i] 1(5,7) \<open>xs ! ?mid \<noteq> x\<close> by (cases "i = ?mid") auto
    with down show ?thesis by linarith
  qed
qed

lemma binary_search_iff:
  assumes "sorted_wrt (<) xs"
  shows "binary_search xs x = Some i \<longleftrightarrow> i < length xs \<and> xs ! i = x"
proof
  show "binary_search xs x = Some i \<Longrightarrow> i < length xs \<and> xs ! i = x"
    by (simp add: binary_search_def bisect_Some)
next
  assume i: "i < length xs \<and> xs ! i = x"
  then obtain j where j: "binary_search xs x = Some j"
    using bisect_None [OF _ assms, of x 0 "length xs" i] unfolding binary_search_def by fastforce
  then have "j < length xs" "xs ! j = x"
    using bisect_Some [of xs x 0 "length xs" j] by (simp_all add: binary_search_def)
  then have "j = i"
    using i assms by (metis nat_neq_iff order_less_irrefl sorted_wrt_nth_less)
  with j show "binary_search xs x = Some i"
    by simp
qed

section \<open>Allocating a row\<close>

text \<open>Two columns agree on the first rows, on what they drop and on what they have dropped.\<close>

definition col_agree :: "nat \<Rightarrow> 'v column \<Rightarrow> 'v column \<Rightarrow> bool" where
  "col_agree n c c' \<longleftrightarrow> (\<forall>j<n. item c' j = item c j) \<and> col_drops c' = col_drops c
     \<and> col_log c' = col_log c \<and> c_summary c' = c_summary c"

lemma col_agree_refl: "list_all2 (col_agree n) cs cs"
  by (simp add: list_all2_same col_agree_def)

lemma reserve_many_ok:
  assumes inv: "table_inv t" and full: "length (t_entities t) = t_cap t"
    and room: "vec_capacity pf (length (t_entities t) + 1) \<le> 0xFFFFFFFF"
  obtains t' where "reserve_many pf t = Some t'" "table_inv t'" "t_entities t' = t_entities t"
    "t_components t' = t_components t" "t_id t' = t_id t" "length (t_entities t) < t_cap t'"
    "list_all2 (col_agree (length (t_entities t))) (t_columns t) (t_columns t')"
proof -
  let ?new = "vec_capacity pf (length (t_entities t) + 1)" and ?n = "length (t_entities t)"
  have new: "?n < ?new"
    by (simp add: vec_capacity_def)
  show ?thesis
  proof (cases "t_cap t = 0")
    case True
    let ?t = "t\<lparr>t_columns := map (\<lambda>c. column_alloc c ?new) (t_columns t), t_cap := ?new\<rparr>"
    have "reserve_many pf t = Some ?t"
      using True room by (simp add: reserve_many_def Let_def)
    moreover have "table_inv ?t"
      using inv room new
      by (auto simp: table_inv_def col_ok_def column_alloc_def blob_alloc_def tick_alloc_def)
    moreover have "list_all2 (col_agree ?n) (t_columns t) (t_columns ?t)"
      using True full
      by (auto simp: list_all2_map2 list_all2_same col_agree_def column_alloc_def blob_alloc_def
          col_drops_def col_log_def)
    ultimately show ?thesis
      using that [of ?t] new by simp
  next
    case False
    have "\<forall>c\<in>set (t_columns t). \<exists>c'. column_realloc c (t_cap t) ?new = Some c' \<and>
        (col_ok ?new c' \<and> col_agree ?n c c')"
    proof
      fix c
      assume "c \<in> set (t_columns t)"
      then have c: "col_ok (t_cap t) c"
        using inv by (simp add: table_inv_def)
      have le: "t_cap t \<le> ?new"
        using new full by simp
      show "\<exists>c'. column_realloc c (t_cap t) ?new = Some c' \<and> (col_ok ?new c' \<and> col_agree ?n c c')"
        by (rule column_grow_ok [OF c le]) (use full in \<open>auto simp: col_agree_def\<close>)
    qed
    from those_map_ex [OF this] obtain cs where cs: "those (map (\<lambda>c. column_realloc c (t_cap t) ?new) (t_columns t)) = Some cs"
      "list_all2 (\<lambda>c c'. col_ok ?new c' \<and> col_agree ?n c c') (t_columns t) cs"
      by blast
    let ?t = "t\<lparr>t_columns := cs, t_cap := ?new\<rparr>"
    have "reserve_many pf t = Some ?t"
      using False room cs(1) by (simp add: reserve_many_def Let_def)
    moreover have "table_inv ?t"
      using inv room new list_all2_right [OF cs(2)] by (simp add: table_inv_def)
    moreover have "list_all2 (col_agree ?n) (t_columns t) (t_columns ?t)"
      using list_all2_right [OF cs(2)] by simp
    ultimately show ?thesis
      using that [of ?t] new by simp
  qed
qed

lemma agree_rows:
  assumes "list_all2 (col_agree n) cs cs'" "i < n"
  shows "map (\<lambda>c. item c i) cs' = map (\<lambda>c. item c i) cs" "map col_log cs' = map col_log cs"
    "map col_drops cs' = map col_drops cs" "map c_summary cs' = map c_summary cs"
  using assms by (auto simp: list_all2_conv_all_nth col_agree_def intro!: nth_equalityI)

lemma agree_logs:
  assumes "list_all2 (col_agree n) cs cs'"
  shows "map col_log cs' = map col_log cs" "map col_drops cs' = map col_drops cs"
    "map c_summary cs' = map c_summary cs"
  using assms by (auto simp: list_all2_conv_all_nth col_agree_def intro!: nth_equalityI)

lemma alloc_row_ok:
  assumes inv: "table_inv t"
    and room: "length (t_entities t) = t_cap t \<Longrightarrow> vec_capacity pf (length (t_entities t) + 1) \<le> 0xFFFFFFFF"
  obtains t' where "alloc_row pf t x = Some (of_nat (length (t_entities t)), t')" "table_inv t'"
    "t_entities t' = t_entities t @ [x]" "t_components t' = t_components t" "t_id t' = t_id t"
    "list_all2 (col_agree (length (t_entities t))) (t_columns t) (t_columns t')"
proof -
  obtain t1 where t1: "(if length (t_entities t) = t_cap t then reserve_many pf t else Some t) = Some t1"
    "table_inv t1" "t_entities t1 = t_entities t" "t_components t1 = t_components t" "t_id t1 = t_id t"
    "length (t_entities t) < t_cap t1"
    "list_all2 (col_agree (length (t_entities t))) (t_columns t) (t_columns t1)"
  proof (cases "length (t_entities t) = t_cap t")
    case True
    show ?thesis
      by (rule reserve_many_ok [OF inv True room [OF True]]) (use True that in auto)
  next
    case False
    then have "length (t_entities t) < t_cap t"
      using inv by (simp add: table_inv_def)
    then show ?thesis
      using that [of t] inv col_agree_refl False by auto
  qed
  have "table_inv (t1\<lparr>t_entities := t_entities t1 @ [x]\<rparr>)"
    using t1(2,3,6) by (simp add: table_inv_def)
  then show ?thesis
    using that [of "t1\<lparr>t_entities := t_entities t1 @ [x]\<rparr>"] t1 by (simp add: alloc_row_def)
qed

section \<open>Releasing a row\<close>

text \<open>What removing row \<open>i\<close> by swapping does to a column with \<open>n\<close> rows.\<close>

definition col_swapped :: "bool \<Rightarrow> nat \<Rightarrow> nat \<Rightarrow> nat \<Rightarrow> 'v column \<Rightarrow> 'v column \<Rightarrow> bool" where
  "col_swapped DROP cap n i c c' \<longleftrightarrow> col_ok cap c'
     \<and> (\<forall>j<n - 1. item c' j = (if j = i then item c (n - 1) else item c j))
     \<and> col_drops c' = col_drops c \<and> c_summary c' = c_summary c
     \<and> col_log c' = col_log c @ (if DROP then dropped_by c (item c i) else [])"

lemma swapped_rows:
  assumes "\<And>k. k < length cs \<Longrightarrow> \<exists>D. col_swapped D cap n i (cs ! k) (cs' ! k)" "length cs' = length cs"
    "i < n" "length es = n"
  shows "map (\<lambda>j. (take (n - 1) (es[i := es ! (n - 1)]) ! j, map (\<lambda>c. item c j) cs')) [0..<n - 1]
    = swap_remove i (map (\<lambda>j. (es ! j, map (\<lambda>c. item c j) cs)) [0..<n])"
proof (rule nth_equalityI)
  fix j
  assume "j < length (map (\<lambda>j. (take (n - 1) (es[i := es ! (n - 1)]) ! j, map (\<lambda>c. item c j) cs')) [0..<n - 1])"
  then have j: "j < n - 1"
    by simp
  have "map (\<lambda>c. item c j) cs' = map (\<lambda>c. item c (if j = i then n - 1 else j)) cs"
    using assms(1,2) j by (fastforce simp: col_swapped_def intro!: nth_equalityI)
  then show "map (\<lambda>j. (take (n - 1) (es[i := es ! (n - 1)]) ! j, map (\<lambda>c. item c j) cs')) [0..<n - 1] ! j
      = swap_remove i (map (\<lambda>j. (es ! j, map (\<lambda>c. item c j) cs)) [0..<n]) ! j"
    using j assms(3,4) by (auto simp: nth_swap_remove nth_list_update)
qed (use assms in simp)

lemma dealloc_column_ok:
  assumes ok: "col_ok cap c" and i: "i < n" "n \<le> cap" and full: "DROP \<Longrightarrow> item_full (item c i)"
  shows "i \<noteq> n - 1 \<Longrightarrow> \<exists>c'. (if DROP then swap_drop_not_last c i (n - 1) else swap_forget_not_last c i (n - 1)) = Some c'
      \<and> col_swapped DROP cap n i c c'"
    "i = n - 1 \<Longrightarrow> \<exists>c'. (if DROP then column_drop_item c (n - 1) else Some c) = Some c' \<and> col_swapped DROP cap n i c c'"
proof -
  have lt: "i < cap" "n - 1 < cap"
    using i by auto
  have v: "fst (item c i) = Some (the (fst (item c i)))" if DROP
    using full [OF that] by (simp add: item_full_def)
  show "\<exists>c'. (if DROP then swap_drop_not_last c i (n - 1) else swap_forget_not_last c i (n - 1)) = Some c'
      \<and> col_swapped DROP cap n i c c'" if "i \<noteq> n - 1"
  proof (cases DROP)
    case True
    show ?thesis
      by (rule swap_drop_ok [OF ok lt that v [OF True]]) (use True in \<open>auto simp: col_swapped_def\<close>)
  next
    case False
    show ?thesis
      by (rule swap_forget_ok [OF ok lt that]) (use False in \<open>auto simp: col_swapped_def\<close>)
  qed
  show "\<exists>c'. (if DROP then column_drop_item c (n - 1) else Some c) = Some c' \<and> col_swapped DROP cap n i c c'"
    if "i = n - 1"
  proof (cases DROP)
    case True
    show ?thesis
      by (rule column_drop_item_ok [OF ok lt(1) v [OF True]]) (use True that in \<open>auto simp: col_swapped_def\<close>)
  next
    case False
    then show ?thesis
      using ok that by (auto simp: col_swapped_def)
  qed
qed

lemma swapped_table_inv:
  assumes "table_inv t" "list_all2 (col_swapped DROP (t_cap t) n i) (t_columns t) cs"
    "length es \<le> length (t_entities t)"
  shows "table_inv (t\<lparr>t_entities := es, t_columns := cs\<rparr>)"
  using assms by (auto simp: table_inv_def list_all2_conv_all_nth in_set_conv_nth col_swapped_def)

lemma swapped_logs:
  assumes "list_all2 (col_swapped DROP cap n i) cs cs'"
  shows "map col_log cs' = map (\<lambda>c. col_log c @ (if DROP then dropped_by c (item c i) else [])) cs"
    "map col_drops cs' = map col_drops cs" "map c_summary cs' = map c_summary cs"
  using assms by (auto simp: list_all2_conv_all_nth col_swapped_def intro!: nth_equalityI)

lemma dealloc_row_ok:
  assumes inv: "table_inv t" and r: "unat row < length (t_entities t)"
    and full: "DROP \<Longrightarrow> row_full (rows t ! unat row)"
  obtains t' where "dealloc_row DROP t row = Some (if unat row = length (t_entities t) - 1 then MovedNone
      else MovedSome (last (t_entities t)) row, t')" "table_inv t'" "rows t' = swap_remove (unat row) (rows t)"
    "t_components t' = t_components t" "t_id t' = t_id t" "t_entities t' = swap_remove (unat row) (t_entities t)"
    "map col_log (t_columns t') =
       map (\<lambda>c. col_log c @ (if DROP then dropped_by c (item c (unat row)) else [])) (t_columns t)"
    "map col_drops (t_columns t') = map col_drops (t_columns t)"
proof -
  let ?n = "length (t_entities t)" and ?i = "unat row"
  define lst where "lst = ?n - 1"
  have n: "?n = Suc lst" "t_entities t \<noteq> []" and il: "?i \<le> lst"
    using r by (auto simp: lst_def)
  have each: "col_ok (t_cap t) c \<and> (DROP \<longrightarrow> item_full (item c ?i))" if "c \<in> set (t_columns t)" for c
    using inv that full r by (auto simp: table_inv_def row_full_def list_all_iff)
  have cap: "?n \<le> t_cap t"
    using inv by (simp add: table_inv_def)
  have es: "swap_remove ?i (t_entities t) = take lst ((t_entities t)[?i := t_entities t ! lst])"
    using n by (simp add: swap_remove_def butlast_conv_take last_conv_nth)
  define f where "f = (\<lambda>c :: 'a column. if ?i \<noteq> lst then (if DROP then swap_drop_not_last c ?i lst else swap_forget_not_last c ?i lst)
    else if DROP then column_drop_item c lst else Some c)"
  have "\<forall>c\<in>set (t_columns t). \<exists>c'. f c = Some c' \<and> col_swapped DROP (t_cap t) ?n ?i c c'"
  proof
    fix c
    assume "c \<in> set (t_columns t)"
    then have c: "col_ok (t_cap t) c" "DROP \<Longrightarrow> item_full (item c ?i)"
      using each by blast+
    note d = dealloc_column_ok [OF c(1) r cap c(2), folded lst_def]
    show "\<exists>c'. f c = Some c' \<and> col_swapped DROP (t_cap t) ?n ?i c c'"
    proof (cases "?i = lst")
      case True
      then have "f c = (if DROP then column_drop_item c lst else Some c)"
        by (simp add: f_def)
      then show ?thesis
        using d(2) True by simp
    next
      case False
      then have "f c = (if DROP then swap_drop_not_last c ?i lst else swap_forget_not_last c ?i lst)"
        by (simp add: f_def)
      then show ?thesis
        using d(1) False by simp
    qed
  qed
  from those_map_ex [OF this] obtain cs where cs: "those (map f (t_columns t)) = Some cs"
    and sw: "list_all2 (col_swapped DROP (t_cap t) ?n ?i) (t_columns t) cs"
    by blast
  let ?t = "t\<lparr>t_entities := swap_remove ?i (t_entities t), t_columns := cs\<rparr>"
  have res: "dealloc_row DROP t row = Some (if ?i = lst then MovedNone else MovedSome (last (t_entities t)) row, ?t)"
  proof (cases "?i = lst")
    case True
    have "those (map Some (t_columns t)) = Some (t_columns t)"
      using those_map_ex [of "t_columns t" Some "(=)"] by (auto simp flip: list_all2_eq)
    moreover have "take lst (t_entities t) = swap_remove ?i (t_entities t)"
      using True es n by (simp add: list_update_id)
    ultimately show ?thesis
      using True cs n by (cases DROP) (simp_all add: dealloc_row_def f_def)
  next
    case False
    then show ?thesis
      using cs n il by (cases DROP) (simp_all add: dealloc_row_def f_def es last_conv_nth Let_def)
  qed
  have "rows ?t = swap_remove ?i (rows t)"
    using swapped_rows [of "t_columns t" "t_cap t" ?n ?i cs, OF _ _ r refl] sw es
    by (fastforce simp: rows_def lst_def list_all2_conv_all_nth)
  then show ?thesis
    using that [OF res [unfolded lst_def] swapped_table_inv [OF inv sw]] swapped_logs [OF sw] by simp
qed

section \<open>Moving a row\<close>

lemma get_table_col_iff:
  assumes "table_inv t"
  shows "get_table_col t cid = Some k \<longleftrightarrow> k < length (t_components t) \<and> t_components t ! k = cid"
    "get_table_col t cid = None \<longleftrightarrow> cid \<notin> set (t_components t)"
proof -
  have s: "sorted_wrt (<) (t_components t)"
    using assms by (simp add: table_inv_def)
  show "get_table_col t cid = Some k \<longleftrightarrow> k < length (t_components t) \<and> t_components t ! k = cid" for k
    by (simp add: get_table_col_def binary_search_iff [OF s])
  then show "get_table_col t cid = None \<longleftrightarrow> cid \<notin> set (t_components t)"
    by (metis in_set_conv_nth not_None_eq)
qed

definition col_moved :: "nat \<Rightarrow> nat \<Rightarrow> 'v item \<Rightarrow> 'v column \<Rightarrow> 'v column \<Rightarrow> bool" where
  "col_moved cap dst x c c' \<longleftrightarrow> col_ok cap c' \<and> (\<forall>j. item c' j = (if j = dst then x else item c j))
     \<and> col_drops c' = col_drops c \<and> col_log c' = col_log c
     \<and> c_summary c' = try_mutate (c_summary c) (the (snd (snd x)))"

text \<open>What the move does to column \<open>k\<close> of the target.\<close>

definition target_moved ::
  "nat \<Rightarrow> nat \<Rightarrow> (u32 \<times> 'v column) list \<Rightarrow> 'v table \<Rightarrow> 'v table \<Rightarrow> bool" where
  "target_moved src dst ps other other' \<longleftrightarrow>
     other' = other\<lparr>t_columns := t_columns other'\<rparr> \<and> length (t_columns other') = length (t_columns other)
     \<and> (\<forall>k<length (t_columns other).
          case map_of ps (t_components other ! k) of
            None \<Rightarrow> t_columns other' ! k = t_columns other ! k
          | Some c \<Rightarrow> col_moved (t_cap other) dst (item c src) (t_columns other ! k) (t_columns other' ! k))"

lemma move_columns_Some:
  assumes "get_table_col other cid = Some k" "k < length (t_columns other)"
    "move_item_to c (t_columns other ! k) src dst = Some oc"
    "(if inner then swap_forget_not_last c src lst else Some c) = Some c1"
    "move_columns DROP inner src lst dst rest (other\<lparr>t_columns := (t_columns other)[k := oc]\<rparr>) = Some (cs, other1)"
  shows "move_columns DROP inner src lst dst ((cid, c) # rest) other = Some (c1 # cs, other1)"
  using assms by simp

lemma move_columns_None:
  assumes "get_table_col other cid = None"
    "(if DROP then (if inner then swap_drop_not_last c src lst else column_drop_item c lst)
      else if inner then swap_forget_not_last c src lst else Some c) = Some c1"
    "move_columns DROP inner src lst dst rest other = Some (cs, other1)"
  shows "move_columns DROP inner src lst dst ((cid, c) # rest) other = Some (c1 # cs, other1)"
  using assms by simp

lemma source_column_ok:
  assumes "col_ok cap c" "src < n" "n \<le> cap" "item_full (item c src)" "inner \<longleftrightarrow> src \<noteq> n - 1" "lst = n - 1"
  shows "\<exists>c1. (if D then (if inner then swap_drop_not_last c src lst else column_drop_item c lst)
      else if inner then swap_forget_not_last c src lst else Some c) = Some c1 \<and> col_swapped D cap n src c c1"
  using dealloc_column_ok [OF assms(1-3), of D] assms(4-6) by (cases D; cases inner) simp_all

lemma move_columns_ok:
  assumes "table_inv other" "distinct (map fst ps)" "dst < t_cap other"
    "\<forall>(cid, c)\<in>set ps. col_ok cap c \<and> item_full (item c src)"
    and src: "src < n" "n \<le> cap" "inner \<longleftrightarrow> src \<noteq> n - 1" "lst = n - 1"
  shows "\<exists>cs other'. move_columns DROP inner src lst dst ps other = Some (cs, other')
     \<and> list_all2 (\<lambda>(cid, c). col_swapped (DROP \<and> cid \<notin> set (t_components other)) cap n src c) ps cs
     \<and> target_moved src dst ps other other'"
  using assms(1-4)
proof (induction ps arbitrary: other)
  case Nil
  then show ?case by (simp add: target_moved_def)
next
  case (Cons p ps)
  obtain cid c where p: "p = (cid, c)"
    by (cases p)
  have c: "col_ok cap c" "item_full (item c src)"
    using Cons.prems(4) p by auto
  note sc = source_column_ok [OF c(1) src(1,2) c(2) src(3,4)]
  show ?case
  proof (cases "get_table_col other cid")
    case None
    then have cid: "cid \<notin> set (t_components other)"
      using get_table_col_iff(2) [OF Cons.prems(1)] by simp
    obtain c1 where c1: "(if DROP then (if inner then swap_drop_not_last c src lst else column_drop_item c lst)
      else if inner then swap_forget_not_last c src lst else Some c) = Some c1" "col_swapped DROP cap n src c c1"
      using sc by blast
    obtain cs other' where r: "move_columns DROP inner src lst dst ps other = Some (cs, other')"
      "list_all2 (\<lambda>(cid, c). col_swapped (DROP \<and> cid \<notin> set (t_components other)) cap n src c) ps cs"
      "target_moved src dst ps other other'"
      using Cons.IH [OF Cons.prems(1)] Cons.prems(2-4) by auto
    have "map_of (p # ps) (t_components other ! k) = map_of ps (t_components other ! k)"
      if "k < length (t_columns other)" for k
      using that cid p Cons.prems(1) by (auto simp: table_inv_def)
    then have "target_moved src dst (p # ps) other other'"
      using r(3) by (simp add: target_moved_def)
    then show ?thesis
      using move_columns_None [OF None c1(1) r(1)] r(2) c1(2) cid p by auto
  next
    case (Some k)
    then have k: "k < length (t_columns other)" "t_components other ! k = cid"
      using get_table_col_iff(1) [OF Cons.prems(1)] Cons.prems(1) by (auto simp: table_inv_def)
    have ok: "col_ok (t_cap other) (t_columns other ! k)"
      using Cons.prems(1) k(1) by (simp add: table_inv_def)
    have sl: "src < cap"
      using src by simp
    obtain oc where oc: "move_item_to c (t_columns other ! k) src dst = Some oc"
      "col_moved (t_cap other) dst (item c src) (t_columns other ! k) oc"
      by (rule move_item_to_ok [OF c(1) sl c(2) ok Cons.prems(3)]) (auto simp: col_moved_def)
    obtain c1 where c1: "(if inner then swap_forget_not_last c src lst else Some c) = Some c1"
      "col_swapped False cap n src c c1"
      using sc [of False] by auto
    let ?o = "other\<lparr>t_columns := (t_columns other)[k := oc]\<rparr>"
    have "table_inv ?o"
      using Cons.prems(1) oc(2) set_update_subset_insert [of "t_columns other" k oc]
      by (auto simp: table_inv_def col_moved_def)
    then obtain cs other' where r: "move_columns DROP inner src lst dst ps ?o = Some (cs, other')"
      "list_all2 (\<lambda>(cid, c). col_swapped (DROP \<and> cid \<notin> set (t_components other)) cap n src c) ps cs"
      "target_moved src dst ps ?o other'"
      using Cons.IH [of ?o] Cons.prems(2-4) by auto
    have sorted: "sorted_wrt (<) (t_components other)" and len: "length (t_columns other) = length (t_components other)"
      using Cons.prems(1) by (simp_all add: table_inv_def)
    have uniq: "t_components other ! j = cid \<longleftrightarrow> j = k" if "j < length (t_columns other)" for j
      using that k sorted len by (metis nat_neq_iff order_less_irrefl sorted_wrt_nth_less)
    have fresh: "map_of ps cid = None"
      using Cons.prems(2) p by (simp add: map_of_eq_None_iff)
    have "target_moved src dst (p # ps) other other'"
      unfolding target_moved_def
    proof (intro conjI allI impI)
      show "other' = other\<lparr>t_columns := t_columns other'\<rparr>" "length (t_columns other') = length (t_columns other)"
        using r(3) by (simp_all add: target_moved_def)
      fix j
      assume j: "j < length (t_columns other)"
      have rj: "case map_of ps (t_components other ! j) of
          None \<Rightarrow> t_columns other' ! j = (t_columns other)[k := oc] ! j
        | Some c \<Rightarrow> col_moved (t_cap other) dst (item c src) ((t_columns other)[k := oc] ! j) (t_columns other' ! j)"
        using r(3) j unfolding target_moved_def by (auto split: option.splits)
      show "case map_of (p # ps) (t_components other ! j) of
          None \<Rightarrow> t_columns other' ! j = t_columns other ! j
        | Some c \<Rightarrow> col_moved (t_cap other) dst (item c src) (t_columns other ! j) (t_columns other' ! j)"
        using rj uniq [OF j] fresh oc(2) j k p by (cases "j = k") (auto split: option.splits)
    qed
    moreover have "cid \<in> set (t_components other)"
      using k len by auto
    ultimately show ?thesis
      using move_columns_Some [OF Some k(1) oc(1) c1(1) r(1)] r(2) c1(2) p by auto
  qed
qed

text \<open>The row an entity gets in the target: its items for the shared components, the rest as allocated.\<close>

lemma move_row_ok:
  assumes inv: "table_inv t" and oinv: "table_inv other" and r: "unat row < length (t_entities t)"
    and full: "row_full (rows t ! unat row)"
    and room: "length (t_entities other) = t_cap other \<Longrightarrow> vec_capacity pf (length (t_entities other) + 1) \<le> 0xFFFFFFFF"
  obtains t' other1 other' where
    "move_row pf DROP t row other = Some ((if unat row = length (t_entities t) - 1 then MovedNone
        else MovedSome (last (t_entities t)) row, of_nat (length (t_entities other))), t', other')"
    "table_inv t'" "rows t' = swap_remove (unat row) (rows t)" "t_entities t' = swap_remove (unat row) (t_entities t)"
    "list_all2 (\<lambda>(cid, c). col_swapped (DROP \<and> cid \<notin> set (t_components other)) (t_cap t) (length (t_entities t)) (unat row) c)
       (zip (t_components t) (t_columns t)) (t_columns t')"
    "table_inv other1" "t_entities other1 = t_entities other @ [t_entities t ! unat row]"
    "t_components other1 = t_components other" "t_id other1 = t_id other" "t_id t' = t_id t"
    "list_all2 (col_agree (length (t_entities other))) (t_columns other) (t_columns other1)"
    "target_moved (unat row) (length (t_entities other)) (zip (t_components t) (t_columns t)) other1 other'"
    "t_components t' = t_components t"
proof -
  let ?n = "length (t_entities t)" and ?i = "unat row" and ?ps = "zip (t_components t) (t_columns t)"
    and ?m = "length (t_entities other)"
  define lst where "lst = ?n - 1"
  have n: "?n = Suc lst" "t_entities t \<noteq> []" and il: "?i \<le> lst"
    using r by (auto simp: lst_def)
  obtain other1 where o1: "alloc_row pf other (t_entities t ! ?i) = Some (of_nat ?m, other1)" "table_inv other1"
    "t_entities other1 = t_entities other @ [t_entities t ! ?i]" "t_components other1 = t_components other"
    "t_id other1 = t_id other" "list_all2 (col_agree ?m) (t_columns other) (t_columns other1)"
    by (rule alloc_row_ok [OF oinv room])
  have dst: "?m < t_cap other1" "unat (of_nat ?m :: u32) = ?m"
    using o1(2,3) by (auto simp: table_inv_def unat_of_nat_small)
  have len: "length (t_columns t) = length (t_components t)" and sorted: "sorted_wrt (<) (t_components t)"
    and cap: "?n \<le> t_cap t"
    using inv by (simp_all add: table_inv_def)
  have "distinct (map fst ?ps)"
    using len sorted by (simp add: strict_sorted_iff)
  moreover have "\<forall>(cid, c)\<in>set ?ps. col_ok (t_cap t) c \<and> item_full (item c ?i)"
    using inv full r by (auto simp: table_inv_def row_full_def list_all_iff dest: set_zip_rightD)
  ultimately obtain cs other' where m: "move_columns DROP (?i \<noteq> lst) ?i lst ?m ?ps other1 = Some (cs, other')"
    "list_all2 (\<lambda>(cid, c). col_swapped (DROP \<and> cid \<notin> set (t_components other)) (t_cap t) ?n ?i c) ?ps cs"
    "target_moved ?i ?m ?ps other1 other'"
    using move_columns_ok [OF o1(2) _ dst(1) _ r cap, of ?ps "?i \<noteq> lst" lst DROP] o1(4) by (auto simp: lst_def)
  let ?t = "t\<lparr>t_entities := swap_remove ?i (t_entities t), t_columns := cs\<rparr>"
  have es: "swap_remove ?i (t_entities t) = take lst ((t_entities t)[?i := t_entities t ! lst])"
    using n by (simp add: swap_remove_def butlast_conv_take last_conv_nth)
  have res: "move_row pf DROP t row other = Some ((if ?i = lst then MovedNone else MovedSome (last (t_entities t)) row,
      of_nat ?m), ?t, other')"
    using n il o1(1) m(1) dst(2) es by (simp add: move_row_def Let_def last_conv_nth)
  have sw: "\<exists>D. col_swapped D (t_cap t) ?n ?i (t_columns t ! k) (cs ! k)" if "k < length (t_columns t)" for k
    using m(2) that len by (auto simp: list_all2_conv_all_nth)
  have lcs: "length cs = length (t_columns t)"
    using m(2) len by (simp add: list_all2_conv_all_nth)
  have "col_ok (t_cap t) c" if "c \<in> set cs" for c
    using that sw lcs by (fastforce simp: in_set_conv_nth col_swapped_def)
  then have "table_inv ?t"
    using inv lcs by (auto simp: table_inv_def)
  moreover have "rows ?t = swap_remove ?i (rows t)"
    using swapped_rows [of "t_columns t" "t_cap t" ?n ?i cs, OF sw lcs r refl] es by (simp add: rows_def lst_def)
  ultimately show ?thesis
    using that [OF res [unfolded lst_def]] m o1 by simp
qed

section \<open>Maintenance\<close>

lemma column_shrink_ok:
  assumes "col_ok cap c" "new \<le> cap"
  shows "\<exists>c'. column_shrink_to c cap new = Some c' \<and> (col_ok new c' \<and> col_agree new c c')"
  using assms
  by (cases "new = 0"; cases "cap = 0")
    (auto simp: column_shrink_to_def column_realloc_def column_dealloc_def blob_realloc_def blob_dealloc_def
      tick_realloc_def tick_dealloc_def col_agree_def column_defs)

lemma shrink_columns_ok:
  assumes "table_inv t" "new \<le> t_cap t"
  obtains cs where "those (map (\<lambda>c. column_shrink_to c (t_cap t) new) (t_columns t)) = Some cs"
    "\<forall>c\<in>set cs. col_ok new c" "list_all2 (col_agree new) (t_columns t) cs" "length cs = length (t_columns t)"
proof -
  have "\<forall>c\<in>set (t_columns t). \<exists>c'. column_shrink_to c (t_cap t) new = Some c' \<and> (col_ok new c' \<and> col_agree new c c')"
    using assms column_shrink_ok unfolding table_inv_def by blast
  from those_map_ex [OF this] show ?thesis
    using that list_all2_right by blast
qed

lemma agreed_rows:
  assumes "list_all2 (col_agree m) (t_columns t) (t_columns t')" "t_entities t' = t_entities t"
    "length (t_entities t) \<le> m"
  shows "rows t' = rows t"
  using agree_rows(1) [OF assms(1)] assms(2,3) by (simp add: rows_def)

lemma shrink_ok:
  assumes "table_inv t"
  obtains t' where "shrink pf t = Some t'" "table_inv t'" "rows t' = rows t" "t_cap t' \<le> t_cap t"
    "map col_log (t_columns t') = map col_log (t_columns t)"
proof -
  let ?len = "length (t_entities t)" and ?cap = "t_cap t"
  have shr: "\<exists>cs. those (map (\<lambda>c. column_shrink_to c ?cap new) (t_columns t)) = Some cs
      \<and> table_inv (t\<lparr>t_columns := cs, t_cap := new\<rparr>) \<and> rows (t\<lparr>t_columns := cs, t_cap := new\<rparr>) = rows t
      \<and> map col_log cs = map col_log (t_columns t)" if new: "?len \<le> new" "new \<le> ?cap" for new
  proof -
    obtain cs where cs: "those (map (\<lambda>c. column_shrink_to c ?cap new) (t_columns t)) = Some cs"
      "\<forall>c\<in>set cs. col_ok new c" "list_all2 (col_agree new) (t_columns t) cs" "length cs = length (t_columns t)"
      by (rule shrink_columns_ok [OF assms new(2)])
    then have "table_inv (t\<lparr>t_columns := cs, t_cap := new\<rparr>)"
      using assms new by (simp add: table_inv_def)
    moreover have "rows (t\<lparr>t_columns := cs, t_cap := new\<rparr>) = rows t"
      using cs(3) new by (intro agreed_rows [of new]) simp_all
    ultimately show ?thesis
      using cs(1) agree_logs(1) [OF cs(3)] by blast
  qed
  define new where "new = min ?cap (vec_capacity pf (max ?len (max (next_power_of_two ?len) (?len + ?len div 2))))"
  have new: "?len \<le> new" "new \<le> ?cap"
    using assms by (auto simp: new_def table_inv_def vec_capacity_def)
  consider (empty) "?len = 0" "?cap \<noteq> 0" | (halve) "\<not> (?len = 0 \<and> ?cap \<noteq> 0)"
      "?cap \<ge> next_power_of_two (?len + 2 * ?len) \<and> ?cap \<ge> 16"
    | (keep) "\<not> (?len = 0 \<and> ?cap \<noteq> 0)" "\<not> (?cap \<ge> next_power_of_two (?len + 2 * ?len) \<and> ?cap \<ge> 16)"
    by blast
  then show ?thesis
  proof cases
    case empty
    then obtain cs where "those (map (\<lambda>c. column_shrink_to c ?cap 0) (t_columns t)) = Some cs"
      "table_inv (t\<lparr>t_columns := cs, t_cap := 0\<rparr>)" "rows (t\<lparr>t_columns := cs, t_cap := 0\<rparr>) = rows t"
      "map col_log cs = map col_log (t_columns t)"
      using shr [of 0] by auto
    then show ?thesis
      using that [of "t\<lparr>t_columns := cs, t_cap := 0\<rparr>"] empty by (simp add: shrink_def Let_def)
  next
    case halve
    obtain cs where "those (map (\<lambda>c. column_shrink_to c ?cap new) (t_columns t)) = Some cs"
      "table_inv (t\<lparr>t_columns := cs, t_cap := new\<rparr>)" "rows (t\<lparr>t_columns := cs, t_cap := new\<rparr>) = rows t"
      "map col_log cs = map col_log (t_columns t)"
      using shr [OF new] by auto
    moreover from this have "shrink pf t = Some (t\<lparr>t_columns := cs, t_cap := new\<rparr>)"
      unfolding shrink_def Let_def new_def using halve by (simp only: if_False if_True) simp
    ultimately show ?thesis
      using that [of "t\<lparr>t_columns := cs, t_cap := new\<rparr>"] new by simp
  next
    case keep
    then have "shrink pf t = Some t"
      unfolding shrink_def Let_def by (simp only: if_False)
    then show ?thesis
      using that [of t] assms by simp
  qed
qed

lemma drop_range_ok:
  assumes "\<forall>i\<in>set is. i < length (b_cells b) \<and> b_cells b ! i \<noteq> None" "b_drops b"
  shows "blob_drop_range b is = Some (b\<lparr>b_log := b_log b @ map (\<lambda>i. the (b_cells b ! i)) is\<rparr>)"
  using assms by (induction "is" arbitrary: b) (auto simp: blob_get_def call_dropper_def)

lemma drop_column_ok:
  assumes "col_ok cap c" "n \<le> cap" "\<forall>i<n. item_full (item c i)"
  shows "\<exists>c'. do { c1 \<leftarrow> column_drop_slice c n; column_dealloc c1 cap } = Some c'
    \<and> col_log c' = col_log c @ (if col_drops c then map (\<lambda>i. the (fst (item c i))) [0..<n] else [])"
  using assms drop_range_ok [of "[0..<n]" "c_data c"]
  by (auto simp: column_drop_slice_def blob_drop_slice_def column_dealloc_def blob_dealloc_def tick_dealloc_def
      column_defs)

section \<open>Properties\<close>

text \<open>C27: releasing a row is a swap-removal on the rows of the table: no access leaves the memory, the
  last row takes the place of the removed one with all its values and ticks, the report
  names exactly the entity that moved and its new row, and with \<^verbatim>\<open>DROP\<close> each
  column drops precisely the value of the removed row, once.\<close>
theorem dealloc_row_swap_removes:
  assumes "table_inv t" "unat row < length (t_entities t)" "DROP \<longrightarrow> row_full (rows t ! unat row)"
  shows "\<exists>t'. dealloc_row DROP t row = Some (if unat row = length (t_entities t) - 1 then MovedNone
        else MovedSome (last (t_entities t)) row, t')
    \<and> table_inv t' \<and> rows t' = swap_remove (unat row) (rows t)
    \<and> map col_log (t_columns t') =
        map (\<lambda>c. col_log c @ (if DROP then dropped_by c (item c (unat row)) else [])) (t_columns t)"
proof -
  have full: "DROP \<Longrightarrow> row_full (rows t ! unat row)"
    using assms(3) by simp
  show ?thesis
    by (rule dealloc_row_ok [OF assms(1,2) full]) blast+
qed

definition two_rows :: "nat table" where
  "two_rows = \<lparr>t_id = 1, t_components = [7],
     t_columns = [\<lparr>c_data = \<lparr>b_drops = True, b_cells = [Some 10, Some 20, None], b_log = []\<rparr>,
       c_added = [Some 1, Some 2, None], c_changed = [Some 5, Some 6, None], c_summary = Some 6\<rparr>],
     t_entities = [new_id 1 1, new_id 2 1], t_cap = 3\<rparr>"

lemma two_rows_inv: "table_inv two_rows" "length (t_entities two_rows) = 2"
  by (simp_all add: table_inv_def two_rows_def col_ok_def)

lemma two_rows_rows:
  "rows two_rows = [(new_id 1 1, [(Some 10, Some 1, Some 5)]), (new_id 2 1, [(Some 20, Some 2, Some 6)])]"
  by (simp add: rows_def two_rows_def item_def upt_rec)

theorem dealloc_row_swap_removes_witness:
  "\<exists>t'. dealloc_row True two_rows 0 = Some (MovedSome (new_id 2 1) 0, t')
     \<and> rows t' = [(new_id 2 1, [(Some 20, Some 2, Some 6)])] \<and> map col_log (t_columns t') = [[10]]"
proof -
  have "row_full (rows two_rows ! unat (0 :: u32))"
    by (simp add: two_rows_rows row_full_def item_full_def)
  then show ?thesis
    using dealloc_row_swap_removes [OF two_rows_inv(1), of 0 True]
    by (auto simp: two_rows_inv two_rows_rows swap_remove_def)
      (auto simp: two_rows_def col_log_def dropped_by_def col_drops_def item_def)
qed

text \<open>C29: moving a row to another table takes the entity with it: the source loses the row by swap-removal,
  the target gains one row at its end whose item for every shared component is
  the source's item, ticks included, all other rows of the target stay, nothing is dropped in
  the target, and the source drops, with \<^verbatim>\<open>DROP\<close>, exactly the components the target does not have.\<close>
theorem move_row_transfers:
  assumes "table_inv t" "table_inv other" "unat row < length (t_entities t)" "row_full (rows t ! unat row)"
    "length (t_entities other) = t_cap other \<longrightarrow> vec_capacity pf (length (t_entities other) + 1) \<le> 0xFFFFFFFF"
  shows "\<exists>t' other'. move_row pf DROP t row other = Some ((if unat row = length (t_entities t) - 1 then MovedNone
        else MovedSome (last (t_entities t)) row, of_nat (length (t_entities other))), t', other')
    \<and> table_inv t' \<and> rows t' = swap_remove (unat row) (rows t)
    \<and> t_entities other' = t_entities other @ [t_entities t ! unat row]
    \<and> (\<forall>i<length (t_entities other). rows other' ! i = rows other ! i)
    \<and> (\<forall>j k. j < length (t_components t) \<longrightarrow> k < length (t_components other) \<longrightarrow>
         t_components t ! j = t_components other ! k \<longrightarrow>
         snd (rows other' ! length (t_entities other)) ! k = snd (rows t ! unat row) ! j)
    \<and> map col_log (t_columns other') = map col_log (t_columns other)
    \<and> (\<forall>j<length (t_columns t). col_log (t_columns t' ! j) = col_log (t_columns t ! j) @
         (if DROP \<and> t_components t ! j \<notin> set (t_components other)
          then dropped_by (t_columns t ! j) (item (t_columns t ! j) (unat row)) else []))"
proof -
  let ?i = "unat row" and ?m = "length (t_entities other)" and ?ps = "zip (t_components t) (t_columns t)"
  have room: "length (t_entities other) = t_cap other \<Longrightarrow> vec_capacity pf (?m + 1) \<le> 0xFFFFFFFF"
    using assms(5) by simp
  obtain t' other1 other' where m: "move_row pf DROP t row other = Some ((if ?i = length (t_entities t) - 1 then MovedNone
        else MovedSome (last (t_entities t)) row, of_nat ?m), t', other')"
    "table_inv t'" "rows t' = swap_remove ?i (rows t)"
    and sw: "list_all2 (\<lambda>(cid, c). col_swapped (DROP \<and> cid \<notin> set (t_components other)) (t_cap t) (length (t_entities t)) ?i c)
       ?ps (t_columns t')"
    and o1: "table_inv other1" "t_entities other1 = t_entities other @ [t_entities t ! ?i]"
      "t_components other1 = t_components other"
      "list_all2 (col_agree ?m) (t_columns other) (t_columns other1)"
    and tm: "target_moved ?i ?m ?ps other1 other'"
    by (rule move_row_ok [OF assms(1-4) room]) blast
  have len: "length (t_columns t) = length (t_components t)" "length (t_columns other) = length (t_components other)"
    and lo: "length (t_columns other1) = length (t_columns other)" "length (t_columns other') = length (t_columns other)"
    using assms(1,2) o1(4) tm by (auto simp: table_inv_def target_moved_def list_all2_conv_all_nth)
  have e': "t_entities other' = t_entities other @ [t_entities t ! ?i]"
    using tm o1(2) by (metis (no_types, lifting) target_moved_def table.select_convs(4) table.surjective table.update_convs(3))
  have col: "(\<forall>i<?m. item (t_columns other' ! k) i = item (t_columns other ! k) i)
      \<and> col_log (t_columns other' ! k) = col_log (t_columns other ! k)
      \<and> (\<forall>c. map_of ?ps (t_components other ! k) = Some c \<longrightarrow> item (t_columns other' ! k) ?m = item c ?i)"
    if "k < length (t_components other)" for k
  proof -
    have ag: "col_agree ?m (t_columns other ! k) (t_columns other1 ! k)"
      using o1(4) that len(2) by (simp add: list_all2_conv_all_nth)
    show ?thesis
      using tm that len(2) lo o1(3) ag
      by (cases "map_of ?ps (t_components other ! k)") (auto simp: target_moved_def col_moved_def col_agree_def)
  qed
  have "rows other' ! i = rows other ! i" if "i < ?m" for i
    using that e' col lo len by (auto simp: nth_append intro!: nth_equalityI)
  moreover have "snd (rows other' ! ?m) ! k = snd (rows t ! ?i) ! j"
    if "j < length (t_components t)" "k < length (t_components other)" "t_components t ! j = t_components other ! k" for j k
  proof -
    have "distinct (t_components t)"
      using assms(1) by (simp add: table_inv_def strict_sorted_iff)
    then have "map_of ?ps (t_components other ! k) = Some (t_columns t ! j)"
      using that len(1) by (metis map_of_zip_nth)
    then show ?thesis
      using col [OF that(2)] that e' lo len assms(3) by simp
  qed
  moreover have "map col_log (t_columns other') = map col_log (t_columns other)"
    using col lo len by (auto intro!: nth_equalityI)
  moreover have "col_log (t_columns t' ! j) = col_log (t_columns t ! j) @
         (if DROP \<and> t_components t ! j \<notin> set (t_components other)
          then dropped_by (t_columns t ! j) (item (t_columns t ! j) ?i) else [])" if "j < length (t_columns t)" for j
    using sw that len(1) by (simp add: list_all2_conv_all_nth col_swapped_def)
  ultimately show ?thesis
    using m e' by blast
qed

definition wide_table :: "nat table" where
  "wide_table = \<lparr>t_id = 2, t_components = [3, 7],
     t_columns = [\<lparr>c_data = \<lparr>b_drops = True, b_cells = [Some 30], b_log = []\<rparr>,
         c_added = [Some 4], c_changed = [Some 4], c_summary = None\<rparr>,
       \<lparr>c_data = \<lparr>b_drops = True, b_cells = [Some 40], b_log = []\<rparr>,
         c_added = [Some 3], c_changed = [Some 3], c_summary = None\<rparr>],
     t_entities = [new_id 3 1], t_cap = 1\<rparr>"

theorem move_row_transfers_witness:
  "\<exists>t' other'. move_row \<lparr>vec_spare = (\<lambda>_. 0), pool_threads = None\<rparr> True wide_table 0 two_rows
       = Some ((MovedNone, 2), t', other')
     \<and> t_entities other' = [new_id 1 1, new_id 2 1, new_id 3 1]
     \<and> snd (rows other' ! 2) ! 0 = (Some 40, Some 3, Some 3)
     \<and> col_log (t_columns t' ! 0) = [30] \<and> col_log (t_columns t' ! 1) = []"
proof -
  let ?pf = "\<lparr>vec_spare = (\<lambda>_. 0), pool_threads = None\<rparr> :: platform"
  have t: "table_inv wide_table" "length (t_entities wide_table) = 1" "t_components wide_table = [3, 7]"
    "t_columns wide_table ! 0 = \<lparr>c_data = \<lparr>b_drops = True, b_cells = [Some 30], b_log = []\<rparr>,
         c_added = [Some 4], c_changed = [Some 4], c_summary = None\<rparr>"
    "t_columns wide_table ! 1 = \<lparr>c_data = \<lparr>b_drops = True, b_cells = [Some 40], b_log = []\<rparr>,
         c_added = [Some 3], c_changed = [Some 3], c_summary = None\<rparr>"
    "length (t_columns wide_table) = 2" "t_entities wide_table ! 0 = new_id 3 1"
    by (simp_all add: table_inv_def wide_table_def col_ok_def)
  have r: "rows wide_table = [(new_id 3 1, [(Some 30, Some 4, Some 4), (Some 40, Some 3, Some 3)])]"
    by (simp add: rows_def wide_table_def item_def)
  have o: "t_components two_rows = [7]" "t_entities two_rows = [new_id 1 1, new_id 2 1]" "t_cap two_rows = 3"
    by (simp_all add: two_rows_def)
  have "unat (0 :: u32) < length (t_entities wide_table)" "row_full (rows wide_table ! unat (0 :: u32))"
    "length (t_entities two_rows) = t_cap two_rows \<longrightarrow> vec_capacity ?pf (length (t_entities two_rows) + 1) \<le> 0xFFFFFFFF"
    by (simp_all add: t o r row_full_def item_full_def)
  from move_row_transfers [OF t(1) two_rows_inv(1) this, of True] obtain t' other' where m:
    "move_row ?pf True wide_table 0 two_rows = Some ((if unat (0 :: u32) = length (t_entities wide_table) - 1 then MovedNone
        else MovedSome (last (t_entities wide_table)) 0, of_nat (length (t_entities two_rows))), t', other')"
    "t_entities other' = t_entities two_rows @ [t_entities wide_table ! unat (0 :: u32)]"
    "\<forall>j k. j < length (t_components wide_table) \<longrightarrow> k < length (t_components two_rows) \<longrightarrow>
         t_components wide_table ! j = t_components two_rows ! k \<longrightarrow>
         snd (rows other' ! length (t_entities two_rows)) ! k = snd (rows wide_table ! unat (0 :: u32)) ! j"
    "\<forall>j<length (t_columns wide_table). col_log (t_columns t' ! j) = col_log (t_columns wide_table ! j) @
         (if True \<and> t_components wide_table ! j \<notin> set (t_components two_rows)
          then dropped_by (t_columns wide_table ! j) (item (t_columns wide_table ! j) (unat (0 :: u32))) else [])"
    by blast
  have "snd (rows other' ! length (t_entities two_rows)) ! 0 = snd (rows wide_table ! unat (0 :: u32)) ! 1"
    using m(3) by (simp add: t o)
  then have "snd (rows other' ! 2) ! 0 = (Some 40, Some 3, Some 3)"
    by (simp only: r two_rows_inv) simp
  moreover have "col_log (t_columns t' ! 0) = [30]" "col_log (t_columns t' ! 1) = []"
    using m(4) [rule_format, of 0] m(4) [rule_format, of 1]
    by (simp_all add: t(3,4,6) t(5) [simplified] o col_log_def dropped_by_def col_drops_def item_def)
  moreover have "move_row ?pf True wide_table 0 two_rows = Some ((MovedNone, 2), t', other')"
    using m(1) by (simp add: t(2) o)
  moreover have "t_entities other' = [new_id 1 1, new_id 2 1, new_id 3 1]"
    using m(2) by (simp add: t(7) o)
  ultimately show ?thesis
    by blast
qed

text \<open>Tables lose no data to maintenance: shrinking keeps every row and drops nothing, and destroying a
  table of fully written rows passes every live value of a column with a dropper to it exactly once, in row order.\<close>
theorem table_maintenance_keeps_values:
  assumes "table_inv t" "\<forall>r\<in>set (rows t). row_full r"
  shows "(\<exists>t'. shrink pf t = Some t' \<and> table_inv t' \<and> rows t' = rows t \<and> t_cap t' \<le> t_cap t
      \<and> map col_log (t_columns t') = map col_log (t_columns t))
    \<and> (\<exists>t'. table_drop t = Some t' \<and> map col_log (t_columns t') =
        map (\<lambda>c. col_log c @ (if col_drops c then map (\<lambda>i. the (fst (item c i))) [0..<length (rows t)] else []))
          (t_columns t))"
proof -
  let ?n = "length (t_entities t)"
  have "\<exists>t'. shrink pf t = Some t' \<and> table_inv t' \<and> rows t' = rows t \<and> t_cap t' \<le> t_cap t
      \<and> map col_log (t_columns t') = map col_log (t_columns t)"
    by (rule shrink_ok [OF assms(1), of pf]) blast
  moreover
  have full: "item_full (item c i)" if "c \<in> set (t_columns t)" "i < ?n" for c i
  proof -
    have "rows t ! i \<in> set (rows t)"
      using that(2) by (metis length_rows nth_mem)
    then show ?thesis
      using assms(2) that by (auto simp: row_full_def list_all_iff)
  qed
  have "\<forall>c\<in>set (t_columns t). \<exists>c'. do { c1 \<leftarrow> column_drop_slice c ?n; column_dealloc c1 (t_cap t) } = Some c'
      \<and> col_log c' = col_log c @ (if col_drops c then map (\<lambda>i. the (fst (item c i))) [0..<?n] else [])"
  proof
    fix c
    assume c: "c \<in> set (t_columns t)"
    then have "col_ok (t_cap t) c" "?n \<le> t_cap t"
      using assms(1) by (simp_all add: table_inv_def)
    then show "\<exists>c'. do { c1 \<leftarrow> column_drop_slice c ?n; column_dealloc c1 (t_cap t) } = Some c'
      \<and> col_log c' = col_log c @ (if col_drops c then map (\<lambda>i. the (fst (item c i))) [0..<?n] else [])"
      using full [OF c] by (intro drop_column_ok) auto
  qed
  from those_map_ex [OF this] obtain cs where
    "those (map (\<lambda>c. do { c1 \<leftarrow> column_drop_slice c ?n; column_dealloc c1 (t_cap t) }) (t_columns t)) = Some cs"
    "list_all2 (\<lambda>c c'. col_log c' = col_log c @ (if col_drops c then map (\<lambda>i. the (fst (item c i))) [0..<?n] else []))
       (t_columns t) cs"
    by blast
  then have "table_drop t = Some (t\<lparr>t_columns := cs\<rparr>)" "map col_log cs =
      map (\<lambda>c. col_log c @ (if col_drops c then map (\<lambda>i. the (fst (item c i))) [0..<?n] else [])) (t_columns t)"
    by (auto simp: table_drop_def list_all2_conv_all_nth intro!: nth_equalityI)
  then have "\<exists>t'. table_drop t = Some t' \<and> map col_log (t_columns t') =
      map (\<lambda>c. col_log c @ (if col_drops c then map (\<lambda>i. the (fst (item c i))) [0..<length (rows t)] else [])) (t_columns t)"
    by simp
  ultimately show ?thesis
    by blast
qed

theorem table_maintenance_keeps_values_witness:
  "\<exists>t'. table_drop two_rows = Some t' \<and> map col_log (t_columns t') = [[10, 20]]"
proof -
  have "\<forall>r\<in>set (rows two_rows). row_full r"
    by (simp add: two_rows_rows row_full_def item_full_def)
  from table_maintenance_keeps_values [OF two_rows_inv(1) this] obtain t' where
    "table_drop two_rows = Some t'" "map col_log (t_columns t') =
        map (\<lambda>c. col_log c @ (if col_drops c then map (\<lambda>i. the (fst (item c i))) [0..<length (rows two_rows)] else []))
          (t_columns two_rows)"
    by blast
  then show ?thesis
    by (simp add: two_rows_inv) (simp add: two_rows_def col_log_def col_drops_def item_def upt_rec)
qed

end
