(* ===== verification/Query_Filter.thy ===== *)
theory Query_Filter
  imports Change_Filter
begin

text \<open>
  Query filters: the builder of canonical filter descriptors
  (\<^verbatim>\<open>zlim-core/src/system/access/filter.rs\<close>), the filter types of
  \<^verbatim>\<open>zlim-core/src/query/filter\<close>, which register themselves in disjunctive normal form, and the
  test of a table against a descriptor (\<^verbatim>\<open>matches_sorted\<close> in \<^verbatim>\<open>zlim-core/src/query/state.rs\<close>).
  The specification of a filter is the predicate it denotes on component sets.
\<close>

section \<open>Filter descriptors\<close>

record filter_param_builder =
  pb_with :: "u32 set"
  pb_without :: "u32 set"

definition builder_new :: filter_param_builder where
  "builder_new = \<lparr>pb_with = {}, pb_without = {}\<rparr>"

definition builder_with :: "u32 \<Rightarrow> filter_param_builder \<Rightarrow> filter_param_builder" where
  "builder_with i b = b\<lparr>pb_with := insert i (pb_with b)\<rparr>"

definition builder_without :: "u32 \<Rightarrow> filter_param_builder \<Rightarrow> filter_param_builder" where
  "builder_without i b = b\<lparr>pb_without := insert i (pb_without b)\<rparr>"

definition builder_merge ::
  "filter_param_builder \<Rightarrow> filter_param_builder \<Rightarrow> filter_param_builder option" where
  "builder_merge a b =
     (if pb_with a \<inter> pb_without b = {} \<and> pb_with b \<inter> pb_without a = {}
      then Some \<lparr>pb_with = pb_with a \<union> pb_with b, pb_without = pb_without a \<union> pb_without b\<rparr>
      else None)"

text \<open>
  A descriptor keeps both sets in one interned slice, sorted because the builder's sets are
  ordered; \<open>hf\<close> is the hash function applied to the split point and the slice.
\<close>

record filter_param =
  fp_hash :: u64
  fp_with_len :: nat
  fp_params :: "u32 list"

definition builder_build ::
  "(nat \<Rightarrow> u32 list \<Rightarrow> u64) \<Rightarrow> filter_param_builder \<Rightarrow> filter_param option" where
  "builder_build hf b =
     (if pb_with b \<inter> pb_without b = {} then
        (let with_len = card (pb_with b);
             params = sorted_list_of_set (pb_with b) @ sorted_list_of_set (pb_without b)
         in Some \<lparr>fp_hash = hf with_len params, fp_with_len = with_len, fp_params = params\<rparr>)
      else None)"

definition param_with :: "filter_param \<Rightarrow> u32 list" where
  "param_with f = take (fp_with_len f) (fp_params f)"

definition param_without :: "filter_param \<Rightarrow> u32 list" where
  "param_without f = drop (fp_with_len f) (fp_params f)"

definition slice_contains_component :: "u32 \<Rightarrow> u32 list \<Rightarrow> bool" where
  "slice_contains_component i xs = List.member xs i"

definition param_is_disjoint :: "filter_param \<Rightarrow> filter_param \<Rightarrow> bool" where
  "param_is_disjoint x y =
     (list_ex (\<lambda>i. slice_contains_component i (param_with y)) (param_without x)
      \<or> list_ex (\<lambda>i. slice_contains_component i (param_with x)) (param_without y))"

section \<open>Filter types\<close>

text \<open>
  One constructor per implementation of \<^verbatim>\<open>QueryFilter\<close>: the unit filter, \<^verbatim>\<open>With\<close> and \<^verbatim>\<open>Without\<close>
  of a tuple of components, \<^verbatim>\<open>Changed\<close> and \<^verbatim>\<open>Added\<close> (with the constant \<^verbatim>\<open>SUMMARY_TICK\<close> of their
  component), \<^verbatim>\<open>And\<close> and \<^verbatim>\<open>Or\<close> of a tuple of filters. The component ids are the state the filter
  is built with.
\<close>

datatype query_filter =
    FUnit
  | FWith "u32 list"
  | FWithout "u32 list"
  | FChanged bool u32
  | FAdded bool u32
  | FAnd "query_filter list"
  | FOr "query_filter list"

fun enable_entity_filter :: "query_filter \<Rightarrow> bool" where
  "enable_entity_filter (FChanged s c) = True"
| "enable_entity_filter (FAdded s c) = True"
| "enable_entity_filter (FAnd fs) = list_ex enable_entity_filter fs"
| "enable_entity_filter (FOr fs) = list_ex enable_entity_filter fs"
| "enable_entity_filter f = False"

text \<open>The conjunction of two lists of branches: the products that are not contradictory.\<close>

definition conjoin ::
  "filter_param_builder list \<Rightarrow> filter_param_builder list \<Rightarrow> filter_param_builder list" where
  "conjoin x y = concat (map (\<lambda>a. List.map_filter (builder_merge a) y) x)"

text \<open>The branch each of the simple filters adds.\<close>

definition unit_register_filter :: "filter_param_builder list \<Rightarrow> filter_param_builder list" where
  "unit_register_filter out = out @ [builder_new]"

definition with_register_filter :: "u32 list \<Rightarrow> filter_param_builder list \<Rightarrow> filter_param_builder list" where
  "with_register_filter ids out = out @ [fold builder_with ids builder_new]"

definition without_register_filter :: "u32 list \<Rightarrow> filter_param_builder list \<Rightarrow> filter_param_builder list" where
  "without_register_filter ids out = out @ [fold builder_without ids builder_new]"

definition changed_register_filter :: "u32 \<Rightarrow> filter_param_builder list \<Rightarrow> filter_param_builder list" where
  "changed_register_filter c out = out @ [builder_with c builder_new]"

definition added_register_filter :: "u32 \<Rightarrow> filter_param_builder list \<Rightarrow> filter_param_builder list" where
  "added_register_filter c out = out @ [builder_with c builder_new]"

lemmas register_filter_defs = unit_register_filter_def with_register_filter_def without_register_filter_def
  changed_register_filter_def added_register_filter_def

fun register_filter :: "query_filter \<Rightarrow> filter_param_builder list \<Rightarrow> filter_param_builder list" where
  "register_filter FUnit out = unit_register_filter out"
| "register_filter (FWith ids) out = with_register_filter ids out"
| "register_filter (FWithout ids) out = without_register_filter ids out"
| "register_filter (FChanged s c) out = changed_register_filter c out"
| "register_filter (FAdded s c) out = added_register_filter c out"
| "register_filter (FAnd fs) out =
     out @ fold (\<lambda>f ret. conjoin ret (register_filter f [])) fs [builder_new]"
| "register_filter (FOr fs) out = out @ fold (\<lambda>f ret. register_filter f ret) fs []"

text \<open>
  The per-table caches: a flag for \<^verbatim>\<open>With\<close> and \<^verbatim>\<open>Without\<close>, the tick view for
  \<^verbatim>\<open>Changed\<close> and \<^verbatim>\<open>Added\<close>, a tuple for the connectives. \<open>None\<close> is undefined behaviour.
\<close>

datatype filter_cache = FlagCache bool | TickCache tick_view | TupleCache "filter_cache list"

fun filter_build_cache :: "query_filter \<Rightarrow> tick \<Rightarrow> tick \<Rightarrow> filter_cache" where
  "filter_build_cache (FChanged s c) lr tr =
     TickCache \<lparr>v_ticks = None, v_last_run = lr, v_this_run = tr\<rparr>"
| "filter_build_cache (FAdded s c) lr tr =
     TickCache \<lparr>v_ticks = None, v_last_run = lr, v_this_run = tr\<rparr>"
| "filter_build_cache (FAnd fs) lr tr = TupleCache (map (\<lambda>f. filter_build_cache f lr tr) fs)"
| "filter_build_cache (FOr fs) lr tr = TupleCache (map (\<lambda>f. filter_build_cache f lr tr) fs)"
| "filter_build_cache f lr tr = FlagCache False"

definition with_update_table :: "u32 list \<Rightarrow> 'v table \<Rightarrow> bool \<times> filter_cache" where
  "with_update_table ids t = (let b = list_all (contains_component t) ids in (b, FlagCache b))"

definition without_update_table :: "u32 list \<Rightarrow> 'v table \<Rightarrow> bool \<times> filter_cache" where
  "without_update_table ids t = (let b = list_all (\<lambda>i. \<not> contains_component t i) ids in (b, FlagCache b))"

fun filter_update_table ::
  "query_filter \<Rightarrow> filter_cache \<Rightarrow> 'v table \<Rightarrow> (bool \<times> filter_cache) option" where
  "filter_update_table FUnit c t = Some (True, c)"
| "filter_update_table (FWith ids) c t = Some (with_update_table ids t)"
| "filter_update_table (FWithout ids) c t = Some (without_update_table ids t)"
| "filter_update_table (FChanged s cid) (TickCache v) t =
     map_option (map_prod id TickCache) (changed_update_table s cid v t)"
| "filter_update_table (FAdded s cid) (TickCache v) t =
     map_option (map_prod id TickCache) (added_update_table s cid v t)"
| "filter_update_table (FAnd fs) (TupleCache cs) t =
     map_option (\<lambda>rs. (list_all fst rs, TupleCache (map snd rs)))
       (those (map2 (\<lambda>f c. filter_update_table f c t) fs cs))"
| "filter_update_table (FOr fs) (TupleCache cs) t =
     map_option (\<lambda>rs. (list_ex fst rs, TupleCache (map snd rs)))
       (those (map2 (\<lambda>f c. filter_update_table f c t) fs cs))"
| "filter_update_table f c t = None"

text \<open>\<open>&&\<close> and \<open>||\<close> over the parts evaluate from left to right and stop at the first that decides.\<close>

fun all_until :: "(unit \<Rightarrow> bool option) list \<Rightarrow> bool option" where
  "all_until [] = Some True"
| "all_until (f # fs) =
     (case f () of None \<Rightarrow> None | Some b \<Rightarrow> if b then all_until fs else Some False)"

fun any_until :: "(unit \<Rightarrow> bool option) list \<Rightarrow> bool option" where
  "any_until [] = Some False"
| "any_until (f # fs) =
     (case f () of None \<Rightarrow> None | Some b \<Rightarrow> if b then Some True else any_until fs)"

fun filter_row :: "query_filter \<Rightarrow> filter_cache \<Rightarrow> u32 \<Rightarrow> bool option" where
  "filter_row FUnit c row = Some True"
| "filter_row (FWith ids) (FlagCache b) row = Some b"
| "filter_row (FWithout ids) (FlagCache b) row = Some b"
| "filter_row (FChanged s cid) (TickCache v) row = tick_filter v row"
| "filter_row (FAdded s cid) (TickCache v) row = tick_filter v row"
| "filter_row (FAnd fs) (TupleCache cs) row = all_until (map2 (\<lambda>f c _. filter_row f c row) fs cs)"
| "filter_row (FOr fs) (TupleCache cs) row = any_until (map2 (\<lambda>f c _. filter_row f c row) fs cs)"
| "filter_row f c row = None"

section \<open>Matching a table against a descriptor\<close>

text \<open>The inner loop doubles the step while the slice stays below or at the id.\<close>

function gallop :: "u32 \<Rightarrow> u32 list \<Rightarrow> nat \<Rightarrow> nat \<Rightarrow> nat" where
  "gallop i xs k step =
     (if step \<noteq> 0 \<and> k + step < length xs \<and> xs ! (k + step) \<le> i then gallop i xs k (2 * step) else step)"
  by pat_completeness auto
termination
  by (relation "measure (\<lambda>(i, xs, k, step). length xs - step)") auto

declare gallop.simps [simp del]

function jump_from :: "u32 \<Rightarrow> u32 list \<Rightarrow> nat \<Rightarrow> (nat, nat) outcome" where
  "jump_from i xs k =
     (if k \<ge> length xs \<or> xs ! k > i then Err k
      else if xs ! k = i then Ok k
      else jump_from i xs (k + max (gallop i xs k 1 div 2) 1))"
  by pat_completeness auto
termination
  by (relation "measure (\<lambda>(i, xs, k). length xs - k)") auto

declare jump_from.simps [simp del]

definition jump_search :: "u32 \<Rightarrow> u32 list \<Rightarrow> (nat, nat) outcome" where
  "jump_search i xs = jump_from i xs 0"

fun match_with :: "u32 list \<Rightarrow> u32 list \<Rightarrow> bool" where
  "match_with temp [] = True"
| "match_with temp (i # is) =
     (case jump_search i temp of Ok k \<Rightarrow> match_with (drop (k + 1) temp) is | _ \<Rightarrow> False)"

fun match_without :: "u32 list \<Rightarrow> u32 list \<Rightarrow> bool" where
  "match_without temp [] = True"
| "match_without temp (i # is) =
     (case jump_search i temp of Err k \<Rightarrow> match_without (drop k temp) is | _ \<Rightarrow> False)"

definition matches_sorted :: "u32 list \<Rightarrow> u32 list \<Rightarrow> u32 list \<Rightarrow> bool" where
  "matches_sorted components required forbidden =
     (match_with components required \<and> match_without components forbidden)"

section \<open>What filters denote\<close>

fun sat :: "query_filter \<Rightarrow> u32 set \<Rightarrow> bool" where
  "sat FUnit A \<longleftrightarrow> True"
| "sat (FWith ids) A \<longleftrightarrow> set ids \<subseteq> A"
| "sat (FWithout ids) A \<longleftrightarrow> set ids \<inter> A = {}"
| "sat (FChanged s c) A \<longleftrightarrow> c \<in> A"
| "sat (FAdded s c) A \<longleftrightarrow> c \<in> A"
| "sat (FAnd fs) A \<longleftrightarrow> (\<forall>f \<in> set fs. sat f A)"
| "sat (FOr fs) A \<longleftrightarrow> (\<exists>f \<in> set fs. sat f A)"

definition branch_ok :: "u32 set \<Rightarrow> filter_param_builder \<Rightarrow> bool" where
  "branch_ok A b \<longleftrightarrow> pb_with b \<subseteq> A \<and> pb_without b \<inter> A = {}"

definition some_branch :: "u32 set \<Rightarrow> filter_param_builder list \<Rightarrow> bool" where
  "some_branch A bs \<longleftrightarrow> (\<exists>b \<in> set bs. branch_ok A b)"

lemma some_branch_simps [simp]:
  "some_branch A [] \<longleftrightarrow> False" "some_branch A (b # bs) \<longleftrightarrow> branch_ok A b \<or> some_branch A bs"
  "some_branch A (xs @ ys) \<longleftrightarrow> some_branch A xs \<or> some_branch A ys"
  by (auto simp: some_branch_def)

lemma branch_new [simp]: "branch_ok A builder_new"
  by (simp add: branch_ok_def builder_new_def)

lemma branch_with [simp]: "branch_ok A (builder_with i b) \<longleftrightarrow> i \<in> A \<and> branch_ok A b"
  by (auto simp: branch_ok_def builder_with_def)

lemma branch_without [simp]: "branch_ok A (builder_without i b) \<longleftrightarrow> i \<notin> A \<and> branch_ok A b"
  by (auto simp: branch_ok_def builder_without_def)

lemma branch_fold_with: "branch_ok A (fold builder_with ids b) \<longleftrightarrow> set ids \<subseteq> A \<and> branch_ok A b"
  by (induction ids arbitrary: b) auto

lemma branch_fold_without: "branch_ok A (fold builder_without ids b) \<longleftrightarrow> set ids \<inter> A = {} \<and> branch_ok A b"
  by (induction ids arbitrary: b) auto

lemma merge_branch:
  "(\<exists>c. builder_merge a b = Some c \<and> branch_ok A c) \<longleftrightarrow> branch_ok A a \<and> branch_ok A b"
  by (auto simp: builder_merge_def branch_ok_def)

lemma set_map_filter_iff: "y \<in> set (List.map_filter f xs) \<longleftrightarrow> (\<exists>x \<in> set xs. f x = Some y)"
  by (auto simp: List.map_filter_def image_iff)

lemma some_branch_conjoin: "some_branch A (conjoin x y) \<longleftrightarrow> some_branch A x \<and> some_branch A y"
proof -
  have "some_branch A (conjoin x y) \<longleftrightarrow>
      (\<exists>a \<in> set x. \<exists>b \<in> set y. \<exists>c. builder_merge a b = Some c \<and> branch_ok A c)"
    by (simp add: some_branch_def conjoin_def Bex_def set_map_filter_iff) blast
  then show ?thesis
    unfolding merge_branch by (auto simp: some_branch_def)
qed

lemma some_branch_fold_conjoin:
  assumes "\<And>f. f \<in> set fs \<Longrightarrow> some_branch A (g f) \<longleftrightarrow> P f"
  shows "some_branch A (fold (\<lambda>f ret. conjoin ret (g f)) fs ret) \<longleftrightarrow> some_branch A ret \<and> (\<forall>f \<in> set fs. P f)"
  using assms by (induction fs arbitrary: ret) (auto simp: some_branch_conjoin)

lemma some_branch_fold_append:
  assumes "\<And>f ret. f \<in> set fs \<Longrightarrow> some_branch A (g f ret) \<longleftrightarrow> some_branch A ret \<or> P f"
  shows "some_branch A (fold g fs ret) \<longleftrightarrow> some_branch A ret \<or> (\<exists>f \<in> set fs. P f)"
  using assms by (induction fs arbitrary: ret) auto

lemma register_filter_sat: "some_branch A (register_filter f out) \<longleftrightarrow> some_branch A out \<or> sat f A"
proof (induction f arbitrary: out)
  case (FAnd fs)
  show ?case
    using some_branch_fold_conjoin [of fs A "\<lambda>f. register_filter f []" "\<lambda>f. sat f A"] FAnd by simp
next
  case (FOr fs)
  show ?case
    using some_branch_fold_append [of fs A register_filter "\<lambda>f. sat f A"] FOr by simp
qed (simp_all add: register_filter_defs branch_fold_with branch_fold_without)

text \<open>All branches a filter registers are finite.\<close>

definition branch_finite :: "filter_param_builder \<Rightarrow> bool" where
  "branch_finite b \<longleftrightarrow> finite (pb_with b) \<and> finite (pb_without b)"

lemma branch_finite_simps [simp]: "branch_finite builder_new"
  "branch_finite (builder_with i b) \<longleftrightarrow> branch_finite b"
  "branch_finite (builder_without i b) \<longleftrightarrow> branch_finite b"
  by (auto simp: branch_finite_def builder_new_def builder_with_def builder_without_def)

lemma branch_finite_fold [simp]: "branch_finite (fold builder_with ids b) \<longleftrightarrow> branch_finite b"
  "branch_finite (fold builder_without ids b) \<longleftrightarrow> branch_finite b"
  by (induction ids arbitrary: b) simp_all

lemma conjoin_finite:
  "list_all branch_finite x \<Longrightarrow> list_all branch_finite y \<Longrightarrow> list_all branch_finite (conjoin x y)"
  by (auto simp: list_all_iff conjoin_def set_map_filter_iff builder_merge_def branch_finite_def
      split: if_splits)

lemma fold_keeps:
  assumes "\<And>f s. f \<in> set fs \<Longrightarrow> P s \<Longrightarrow> P (g f s)" "P s"
  shows "P (fold g fs s)"
  using assms by (induction fs arbitrary: s) auto

lemma register_filter_finite:
  "list_all branch_finite out \<Longrightarrow> list_all branch_finite (register_filter f out)"
proof (induction f arbitrary: out)
  case (FAnd fs)
  have "list_all branch_finite (fold (\<lambda>f ret. conjoin ret (register_filter f [])) fs [builder_new])"
    by (rule fold_keeps) (auto intro!: conjoin_finite FAnd.IH)
  then show ?case using FAnd.prems by simp
next
  case (FOr fs)
  have "list_all branch_finite (fold register_filter fs [])"
    by (rule fold_keeps) (auto intro: FOr.IH)
  then show ?case using FOr.prems by simp
qed (simp_all add: register_filter_defs)

section \<open>Descriptors and tables\<close>

definition param_ok :: "filter_param \<Rightarrow> bool" where
  "param_ok p \<longleftrightarrow> sorted_wrt (<) (param_with p) \<and> sorted_wrt (<) (param_without p)
     \<and> set (param_with p) \<inter> set (param_without p) = {}"

definition param_matches :: "filter_param \<Rightarrow> u32 set \<Rightarrow> bool" where
  "param_matches p A \<longleftrightarrow> set (param_with p) \<subseteq> A \<and> set (param_without p) \<inter> A = {}"

lemma build_Some:
  assumes "builder_build hf b = Some p" "branch_finite b"
  shows "param_ok p" "param_matches p A \<longleftrightarrow> branch_ok A b"
proof -
  have "param_with p = sorted_list_of_set (pb_with b)" "param_without p = sorted_list_of_set (pb_without b)"
    "pb_with b \<inter> pb_without b = {}"
    using assms(1) by (auto simp: builder_build_def param_with_def param_without_def Let_def split: if_splits)
  then show "param_ok p" "param_matches p A \<longleftrightarrow> branch_ok A b"
    using assms(2) by (simp_all add: param_ok_def param_matches_def branch_ok_def branch_finite_def)
qed

lemma build_None: "builder_build hf b = None \<Longrightarrow> \<not> branch_ok A b"
  by (auto simp: builder_build_def branch_ok_def Let_def split: if_splits)

text \<open>Two descriptors are disjoint exactly when no component set satisfies both.\<close>

lemma param_is_disjoint_iff:
  assumes "param_ok x" "param_ok y"
  shows "param_is_disjoint x y \<longleftrightarrow> \<not> (\<exists>A. param_matches x A \<and> param_matches y A)"
proof
  assume "param_is_disjoint x y"
  then show "\<not> (\<exists>A. param_matches x A \<and> param_matches y A)"
    by (auto simp: param_is_disjoint_def param_matches_def slice_contains_component_def list_ex_iff)
next
  assume none: "\<not> (\<exists>A. param_matches x A \<and> param_matches y A)"
  show "param_is_disjoint x y"
  proof (rule ccontr)
    assume "\<not> param_is_disjoint x y"
    then have "param_matches x (set (param_with x) \<union> set (param_with y))"
      "param_matches y (set (param_with x) \<union> set (param_with y))"
      using assms
      by (auto simp: param_is_disjoint_def param_matches_def param_ok_def slice_contains_component_def list_ex_iff)
    then show False using none by blast
  qed
qed

lemma param_is_disjoint_sym: "param_is_disjoint x y \<longleftrightarrow> param_is_disjoint y x"
  by (auto simp: param_is_disjoint_def)

lemma gallop_half:
  assumes "step \<noteq> 0" "step = 1 \<or> k + step div 2 < length xs \<and> xs ! (k + step div 2) \<le> i"
  shows "gallop i xs k step = 1 \<or>
    k + gallop i xs k step div 2 < length xs \<and> xs ! (k + gallop i xs k step div 2) \<le> i"
  using assms
proof (induction i xs k step rule: gallop.induct)
  case (1 i xs k step)
  show ?case
    using "1.IH" "1.prems" by (subst (1 2 3) gallop.simps) auto
qed

lemma jump_from_spec:
  assumes "sorted_wrt (<) xs" "k \<le> length xs" "\<forall>j<k. xs ! j < i"
  shows "case jump_from i xs k of
      Ok r \<Rightarrow> r < length xs \<and> xs ! r = i
    | Err r \<Rightarrow> r \<le> length xs \<and> (\<forall>j<r. xs ! j < i) \<and> (\<forall>j. r \<le> j \<longrightarrow> j < length xs \<longrightarrow> i < xs ! j)
    | Panic \<Rightarrow> False"
  using assms
proof (induction i xs k rule: jump_from.induct)
  case (1 i xs k)
  have mono: "xs ! a < xs ! b" if "a < b" "b < length xs" for a b
    using "1.prems"(1) that by (simp add: sorted_wrt_iff_nth_less)
  show ?case
  proof (cases "k \<ge> length xs \<or> xs ! k > i")
    case True
    show ?thesis
    proof -
      have "i < xs ! j" if "k \<le> j" "j < length xs" for j
        using True that mono [of k j] by (cases "j = k") (auto dest: less_trans)
      then show ?thesis
        using True "1.prems"(2,3) by (subst jump_from.simps) simp
    qed
  next
    case go: False
    show ?thesis
    proof (cases "xs ! k = i")
      case True
      then show ?thesis using go by (subst jump_from.simps) simp
    next
      case False
      let ?k = "k + max (gallop i xs k 1 div 2) 1"
      have lt: "xs ! k < i" "k < length xs"
        using go False by auto
      have half: "gallop i xs k 1 = 1 \<or>
          k + gallop i xs k 1 div 2 < length xs \<and> xs ! (k + gallop i xs k 1 div 2) \<le> i"
        by (rule gallop_half) simp_all
      have "xs ! j < i" if "j < ?k" for j
      proof (cases "j \<le> k")
        case True
        then show ?thesis
          using lt mono [of j k] by (cases "j = k") auto
      next
        case False
        then have "j < k + gallop i xs k 1 div 2"
          using that by (auto simp: max_def split: if_splits)
        then show ?thesis
          using half False mono [of j "k + gallop i xs k 1 div 2"] by auto
      qed
      moreover have "?k \<le> length xs"
        using half lt by auto
      ultimately show ?thesis
        using "1.IH" [OF go False "1.prems"(1)] go False by (subst jump_from.simps) simp
    qed
  qed
qed

lemma jump_search_Ok:
  assumes "sorted_wrt (<) xs" "jump_search i xs = Ok r"
  shows "r < length xs" "xs ! r = i"
  using jump_from_spec [OF assms(1), of 0 i] assms(2) by (simp_all add: jump_search_def)

lemma jump_search_Err:
  assumes "sorted_wrt (<) xs" "jump_search i xs = Err r"
  shows "r \<le> length xs" "j < r \<Longrightarrow> xs ! j < i" "r \<le> j \<Longrightarrow> j < length xs \<Longrightarrow> i < xs ! j"
  using jump_from_spec [OF assms(1), of 0 i] assms(2) by (simp_all add: jump_search_def)

lemma jump_search_not_panic: "sorted_wrt (<) xs \<Longrightarrow> jump_search i xs \<noteq> Panic"
  using jump_from_spec [of xs 0 i] by (auto simp: jump_search_def)

lemma sorted_drop_above:
  fixes xs :: "u32 list"
  assumes "sorted_wrt (<) xs" "\<And>j. j < k \<Longrightarrow> xs ! j < y" "k \<le> length xs"
  shows "y \<in> set (drop k xs) \<longleftrightarrow> y \<in> set xs"
proof -
  have "y \<notin> set (take k xs)"
  proof
    assume "y \<in> set (take k xs)"
    then obtain j where "j < k" "y = xs ! j"
      by (auto simp: in_set_conv_nth)
    then show False
      using assms(2) [of j] by simp
  qed
  then show ?thesis
    using set_append [of "take k xs" "drop k xs"] by simp
qed

lemma match_with_iff:
  assumes "sorted_wrt (<) temp" "sorted_wrt (<) is"
  shows "match_with temp is \<longleftrightarrow> set is \<subseteq> set temp"
  using assms
proof (induction "is" arbitrary: temp)
  case (Cons i "is")
  show ?case
  proof (cases "jump_search i temp")
    case (Ok r)
    note ok = jump_search_Ok [OF Cons.prems(1) Ok]
    have "temp ! j < y" if "j < r + 1" "y \<in> set is" for j y
    proof -
      have "i < y" using Cons.prems(2) that(2) by simp
      then show ?thesis
        using that(1) ok sorted_wrt_nth_less [OF Cons.prems(1), of j r]
        by (cases "j = r") (auto dest: less_trans [of "temp ! j"])
    qed
    then have "y \<in> set (drop (r + 1) temp) \<longleftrightarrow> y \<in> set temp" if "y \<in> set is" for y
      using that ok by (intro sorted_drop_above [OF Cons.prems(1)]) auto
    moreover have "i \<in> set temp"
      using ok by (metis nth_mem)
    ultimately show ?thesis
      using Ok Cons.IH [of "drop (r + 1) temp"] Cons.prems by (auto simp: sorted_wrt_drop)
  next
    case (Err r)
    have "i \<notin> set temp"
      using jump_search_Err [OF Cons.prems(1) Err] by (metis in_set_conv_nth leI less_irrefl)
    then show ?thesis using Err by simp
  next
    case Panic
    then show ?thesis using jump_search_not_panic [OF Cons.prems(1)] by simp
  qed
qed simp

lemma match_without_iff:
  assumes "sorted_wrt (<) temp" "sorted_wrt (<) is"
  shows "match_without temp is \<longleftrightarrow> set is \<inter> set temp = {}"
  using assms
proof (induction "is" arbitrary: temp)
  case (Cons i "is")
  show ?case
  proof (cases "jump_search i temp")
    case (Ok r)
    have "i \<in> set temp"
      using jump_search_Ok [OF Cons.prems(1) Ok] by (metis nth_mem)
    then show ?thesis using Ok by simp
  next
    case (Err r)
    note err = jump_search_Err [OF Cons.prems(1) Err]
    have "i \<notin> set temp"
      using err by (metis in_set_conv_nth leI less_irrefl)
    moreover have "y \<in> set (drop r temp) \<longleftrightarrow> y \<in> set temp" if "y \<in> set is" for y
    proof (rule sorted_drop_above [OF Cons.prems(1) _ err(1)])
      fix j
      assume "j < r"
      then show "temp ! j < y"
        using err(2) Cons.prems(2) that by (auto intro: less_trans [of "temp ! j" i])
    qed
    ultimately show ?thesis
      using Err Cons.IH [of "drop r temp"] Cons.prems by (auto simp: sorted_wrt_drop)
  next
    case Panic
    then show ?thesis using jump_search_not_panic [OF Cons.prems(1)] by simp
  qed
qed simp

lemma matches_sorted_iff:
  assumes "sorted_wrt (<) cs" "param_ok p"
  shows "matches_sorted cs (param_with p) (param_without p) \<longleftrightarrow> param_matches p (set cs)"
  using assms by (simp add: matches_sorted_def param_ok_def param_matches_def match_with_iff match_without_iff)

section \<open>Properties\<close>

text \<open>C26: the registered descriptors of a filter decide it: a table with a strictly sorted list of
  components passes \<^verbatim>\<open>matches_sorted\<close> for one of the built descriptors exactly if the filter's
  own predicate holds of its component set; contradictory branches may be dropped on the way, and two descriptors
  are reported disjoint exactly when no component set matches both.\<close>
theorem filter_descriptors_exact:
  assumes "sorted_wrt (<) cs"
  shows "((\<exists>p \<in> set (List.map_filter (builder_build hf) (register_filter f [])).
        matches_sorted cs (param_with p) (param_without p)) \<longleftrightarrow> sat f (set cs))
    \<and> (\<forall>x y. x \<in> set (List.map_filter (builder_build hf) (register_filter f [])) \<longrightarrow>
         y \<in> set (List.map_filter (builder_build hf) (register_filter g [])) \<longrightarrow>
         (param_is_disjoint x y \<longleftrightarrow> \<not> (\<exists>A. param_matches x A \<and> param_matches y A)))"
proof (intro conjI allI impI)
  have fin: "branch_finite b" if "b \<in> set (register_filter h [])" for b h
    using register_filter_finite [of "[]" h] that by (simp add: list_all_iff)
  have ok: "param_ok p" if "p \<in> set (List.map_filter (builder_build hf) (register_filter h []))" for p h
    using that fin build_Some(1) by (auto simp: set_map_filter_iff)
  have "(\<exists>p \<in> set (List.map_filter (builder_build hf) (register_filter f [])).
      matches_sorted cs (param_with p) (param_without p)) \<longleftrightarrow>
    (\<exists>b \<in> set (register_filter f []). branch_ok (set cs) b)"
    using fin build_Some build_None matches_sorted_iff [OF assms]
    unfolding Bex_def set_map_filter_iff by (metis not_None_eq)
  also have "\<dots> \<longleftrightarrow> sat f (set cs)"
    using register_filter_sat [of "set cs" f "[]"] by (simp add: some_branch_def)
  finally show "(\<exists>p \<in> set (List.map_filter (builder_build hf) (register_filter f [])).
      matches_sorted cs (param_with p) (param_without p)) \<longleftrightarrow> sat f (set cs)" .
  fix x y
  assume "x \<in> set (List.map_filter (builder_build hf) (register_filter f []))"
    "y \<in> set (List.map_filter (builder_build hf) (register_filter g []))"
  then show "param_is_disjoint x y \<longleftrightarrow> \<not> (\<exists>A. param_matches x A \<and> param_matches y A)"
    by (intro param_is_disjoint_iff ok)
qed

theorem filter_descriptors_exact_witness:
  "(\<exists>p \<in> set (List.map_filter (builder_build (\<lambda>_ _. 0)) (register_filter (FAnd [FWith [2], FWithout [3]]) [])).
      matches_sorted [2, 5] (param_with p) (param_without p))"
  using filter_descriptors_exact [of "[2, 5]" "\<lambda>_ _. 0" "FAnd [FWith [2], FWithout [3]]"] by simp

end
