(* ===== verification/Component_Access.thy ===== *)
theory Component_Access
  imports Zlim_Prelude
begin

text \<open>
  Component access summaries (\<^verbatim>\<open>zlim-core/src/system/access/data.rs\<close>): what one query reads and
  writes, either a whole entity or two sets of component ids. The sets are bit sets of the
  crate \<^verbatim>\<open>fixedbitset\<close>, which is not part of the repository; the operations used of it are a record
  of functions every definition takes as an argument, and the locale \<open>fixed_bitset\<close> states
  their documented behaviour.
\<close>

section \<open>The bit set interface\<close>

record 'b bitset_ops =
  bs_new :: 'b
  bs_contains :: "'b \<Rightarrow> nat \<Rightarrow> bool"
  bs_grow_and_insert :: "'b \<Rightarrow> nat \<Rightarrow> 'b"
  bs_union_with :: "'b \<Rightarrow> 'b \<Rightarrow> 'b"
  bs_is_disjoint :: "'b \<Rightarrow> 'b \<Rightarrow> bool"
  bs_is_clear :: "'b \<Rightarrow> bool"

definition els :: "'b bitset_ops \<Rightarrow> 'b \<Rightarrow> nat set" where
  "els B b = {i. bs_contains B b i}"

locale fixed_bitset =
  fixes B :: "'b bitset_ops"
  assumes els_new: "els B (bs_new B) = {}"
    and els_insert: "els B (bs_grow_and_insert B b i) = insert i (els B b)"
    and els_union: "els B (bs_union_with B b c) = els B b \<union> els B c"
    and disjoint_iff: "bs_is_disjoint B b c \<longleftrightarrow> els B b \<inter> els B c = {}"
    and clear_iff: "bs_is_clear B b \<longleftrightarrow> els B b = {}"

text \<open>The crate stores a bit set as a block of bits, that is, a natural number in binary.\<close>

definition nat_bits :: "nat bitset_ops" where
  "nat_bits = \<lparr>bs_new = 0, bs_contains = bit, bs_grow_and_insert = (\<lambda>b i. set_bit i b),
     bs_union_with = (OR), bs_is_disjoint = (\<lambda>b c. b AND c = 0), bs_is_clear = (\<lambda>b. b = 0)\<rparr>"

interpretation nat_bits: fixed_bitset nat_bits
proof unfold_locales
  have ops: "bs_new nat_bits = 0" "bs_grow_and_insert nat_bits b i = set_bit i b"
      "bs_union_with nat_bits b c = b OR c" "bs_is_disjoint nat_bits b c \<longleftrightarrow> b AND c = 0"
      "bs_is_clear nat_bits b \<longleftrightarrow> b = 0" for b c i
    by (simp_all add: nat_bits_def)
  have el: "els nat_bits b = {i. bit b i}" for b
    by (simp add: els_def nat_bits_def)
  have zero: "b = 0 \<longleftrightarrow> (\<forall>i. \<not> bit b i)" for b :: nat
    by (auto simp: bit_eq_iff)
  show "els nat_bits (bs_new nat_bits) = {}"
    by (simp add: el ops)
  show "els nat_bits (bs_grow_and_insert nat_bits b i) = insert i (els nat_bits b)" for b i
    by (auto simp: el ops bit_set_bit_iff)
  show "els nat_bits (bs_union_with nat_bits b c) = els nat_bits b \<union> els nat_bits c" for b c
    by (auto simp: el ops bit_or_iff)
  show "bs_is_disjoint nat_bits b c \<longleftrightarrow> els nat_bits b \<inter> els nat_bits c = {}" for b c
    by (simp only: el ops zero bit_and_iff) auto
  show "bs_is_clear nat_bits b \<longleftrightarrow> els nat_bits b = {}" for b
    by (simp only: el ops zero) auto
qed

section \<open>Access summaries\<close>

datatype 'b component_access = EntityMut | EntityRef | Components (reading: 'b) (writing: 'b)

definition component_access_new :: "'b bitset_ops \<Rightarrow> 'b component_access" where
  "component_access_new B = Components (bs_new B) (bs_new B)"

text \<open>
  The declaring operations return whether the access was accepted, with the new summary. Component
  ids enter the bit sets by their index.
\<close>

fun set_entity_ref :: "'b bitset_ops \<Rightarrow> 'b component_access \<Rightarrow> bool \<times> 'b component_access" where
  "set_entity_ref B EntityMut = (False, EntityMut)"
| "set_entity_ref B EntityRef = (True, EntityRef)"
| "set_entity_ref B (Components r w) =
     (if bs_is_clear B w then (True, EntityRef) else (False, Components r w))"

fun set_entity_mut :: "'b bitset_ops \<Rightarrow> 'b component_access \<Rightarrow> bool \<times> 'b component_access" where
  "set_entity_mut B EntityMut = (False, EntityMut)"
| "set_entity_mut B EntityRef = (True, EntityRef)"
| "set_entity_mut B (Components r w) =
     (if bs_is_clear B r then (True, EntityMut) else (False, Components r w))"

fun set_reading :: "'b bitset_ops \<Rightarrow> 'b component_access \<Rightarrow> u32 \<Rightarrow> bool \<times> 'b component_access" where
  "set_reading B EntityMut i = (False, EntityMut)"
| "set_reading B EntityRef i = (True, EntityRef)"
| "set_reading B (Components r w) i =
     (if bs_contains B w (unat i) then (False, Components r w)
      else (True, Components (bs_grow_and_insert B r (unat i)) w))"

fun force_reading :: "'b bitset_ops \<Rightarrow> 'b component_access \<Rightarrow> u32 \<Rightarrow> 'b component_access" where
  "force_reading B (Components r w) i = Components (bs_grow_and_insert B r (unat i)) w"
| "force_reading B a i = a"

fun set_writing :: "'b bitset_ops \<Rightarrow> 'b component_access \<Rightarrow> u32 \<Rightarrow> bool \<times> 'b component_access" where
  "set_writing B EntityMut i = (False, EntityMut)"
| "set_writing B EntityRef i = (False, EntityRef)"
| "set_writing B (Components r w) i =
     (if bs_contains B r (unat i) then (False, Components r w)
      else (True, Components (bs_grow_and_insert B r (unat i)) (bs_grow_and_insert B w (unat i))))"

definition merge_entity_mut :: "'b component_access \<Rightarrow> 'b component_access" where
  "merge_entity_mut a = EntityMut"

fun merge_entity_ref :: "'b bitset_ops \<Rightarrow> 'b component_access \<Rightarrow> 'b component_access" where
  "merge_entity_ref B (Components r w) = (if bs_is_clear B w then EntityRef else EntityMut)"
| "merge_entity_ref B a = a"

fun merge_reading :: "'b bitset_ops \<Rightarrow> 'b component_access \<Rightarrow> u32 \<Rightarrow> 'b component_access" where
  "merge_reading B (Components r w) i = Components (bs_grow_and_insert B r (unat i)) w"
| "merge_reading B a i = a"

fun merge_writing :: "'b bitset_ops \<Rightarrow> 'b component_access \<Rightarrow> u32 \<Rightarrow> 'b component_access" where
  "merge_writing B EntityMut i = EntityMut"
| "merge_writing B EntityRef i = EntityMut"
| "merge_writing B (Components r w) i =
     Components (bs_grow_and_insert B r (unat i)) (bs_grow_and_insert B w (unat i))"

text \<open>The arms of \<^verbatim>\<open>merge_with\<close>, in the order of the source.\<close>

fun merge_with ::
  "'b bitset_ops \<Rightarrow> 'b component_access \<Rightarrow> 'b component_access \<Rightarrow> 'b component_access" where
  "merge_with B EntityMut y = EntityMut"
| "merge_with B x EntityMut = x"
| "merge_with B EntityRef EntityRef = EntityRef"
| "merge_with B EntityRef (Components r w) = (if \<not> bs_is_clear B w then EntityMut else EntityRef)"
| "merge_with B (Components r w) EntityRef = (if bs_is_clear B w then EntityRef else EntityMut)"
| "merge_with B (Components r1 w1) (Components r2 w2) =
     Components (bs_union_with B r1 r2) (bs_union_with B w1 w2)"

definition register_entity_mut :: "'b bitset_ops \<Rightarrow> 'b component_access \<Rightarrow> bool \<times> 'b component_access" where
  "register_entity_mut B a =
     (case set_entity_mut B a of (ok, a1) \<Rightarrow> (ok, if \<not> ok then merge_entity_mut a1 else a1))"

definition register_entity_ref :: "'b bitset_ops \<Rightarrow> 'b component_access \<Rightarrow> bool \<times> 'b component_access" where
  "register_entity_ref B a =
     (case set_entity_ref B a of (ok, a1) \<Rightarrow> (ok, if \<not> ok then merge_entity_ref B a1 else a1))"

definition register_reading :: "'b bitset_ops \<Rightarrow> 'b component_access \<Rightarrow> u32 \<Rightarrow> bool \<times> 'b component_access" where
  "register_reading B a i =
     (case set_reading B a i of (ok, a1) \<Rightarrow> (ok, if \<not> ok then merge_reading B a1 i else a1))"

definition register_writing :: "'b bitset_ops \<Rightarrow> 'b component_access \<Rightarrow> u32 \<Rightarrow> bool \<times> 'b component_access" where
  "register_writing B a i =
     (case set_writing B a i of (ok, a1) \<Rightarrow> (ok, if \<not> ok then merge_writing B a1 i else a1))"

fun is_readonly :: "'b bitset_ops \<Rightarrow> 'b component_access \<Rightarrow> bool" where
  "is_readonly B EntityMut = False"
| "is_readonly B EntityRef = True"
| "is_readonly B (Components r w) = bs_is_clear B w"

fun ca_parallelizable :: "'b bitset_ops \<Rightarrow> 'b component_access \<Rightarrow> 'b component_access \<Rightarrow> bool" where
  "ca_parallelizable B EntityMut y = False"
| "ca_parallelizable B x EntityMut = False"
| "ca_parallelizable B EntityRef EntityRef = True"
| "ca_parallelizable B EntityRef (Components r w) = bs_is_clear B w"
| "ca_parallelizable B (Components r w) EntityRef = bs_is_clear B w"
| "ca_parallelizable B (Components r1 w1) (Components r2 w2) =
     (bs_is_disjoint B w1 r2 \<and> bs_is_disjoint B w2 r1)"

section \<open>What a summary grants\<close>

text \<open>
  The component indices a summary allows to read and to write. A summary is well-formed when everything it
  writes it also reads; all operations keep that.
\<close>

fun ca_reads :: "'b bitset_ops \<Rightarrow> 'b component_access \<Rightarrow> nat set" where
  "ca_reads B (Components r w) = els B r"
| "ca_reads B a = UNIV"

fun ca_writes :: "'b bitset_ops \<Rightarrow> 'b component_access \<Rightarrow> nat set" where
  "ca_writes B EntityMut = UNIV"
| "ca_writes B EntityRef = {}"
| "ca_writes B (Components r w) = els B w"

definition ca_wf :: "'b bitset_ops \<Rightarrow> 'b component_access \<Rightarrow> bool" where
  "ca_wf B a \<longleftrightarrow> ca_writes B a \<subseteq> ca_reads B a"

lemma ca_wf_simps [simp]: "ca_wf B EntityMut" "ca_wf B EntityRef"
  "ca_wf B (Components r w) \<longleftrightarrow> els B w \<subseteq> els B r"
  by (simp_all add: ca_wf_def)

lemma contains_els: "bs_contains B b i \<longleftrightarrow> i \<in> els B b"
  by (simp add: els_def)

lemmas register_defs = register_entity_mut_def register_entity_ref_def register_reading_def
  register_writing_def merge_entity_mut_def

context fixed_bitset
begin

lemmas set_laws = els_new els_insert els_union disjoint_iff clear_iff contains_els

lemma new_grants: "ca_reads B (component_access_new B) = {}" "ca_writes B (component_access_new B) = {}"
    "ca_wf B (component_access_new B)"
  by (simp_all add: component_access_new_def set_laws)

lemma readonly_iff: "is_readonly B a \<longleftrightarrow> ca_writes B a = {}"
  by (cases a) (auto simp: set_laws)

text \<open>The test between two summaries is exact but for whole-entity writers, which never run beside anything.\<close>

lemma parallelizable_iff:
  "ca_parallelizable B a b \<longleftrightarrow> a \<noteq> EntityMut \<and> b \<noteq> EntityMut
     \<and> ca_writes B a \<inter> ca_reads B b = {} \<and> ca_writes B b \<inter> ca_reads B a = {}"
  by (cases a; cases b) (auto simp: set_laws)

lemma register_reading_effect:
  "fst (register_reading B a i) \<longleftrightarrow> unat i \<notin> ca_writes B a"
  "ca_reads B (snd (register_reading B a i)) = insert (unat i) (ca_reads B a)"
  "ca_writes B (snd (register_reading B a i)) = ca_writes B a"
  by (cases a; simp add: register_defs set_laws)+

lemma register_writing_effect:
  assumes "ca_wf B a"
  shows "fst (register_writing B a i) \<longleftrightarrow> unat i \<notin> ca_reads B a"
    "ca_reads B (snd (register_writing B a i)) = insert (unat i) (ca_reads B a)"
    "insert (unat i) (ca_writes B a) \<subseteq> ca_writes B (snd (register_writing B a i))"
    "fst (register_writing B a i) \<Longrightarrow>
       ca_writes B (snd (register_writing B a i)) = insert (unat i) (ca_writes B a)"
  using assms by (cases a; auto simp: register_defs set_laws)+

lemma register_entity_ref_effect:
  "fst (register_entity_ref B a) \<longleftrightarrow> ca_writes B a = {}"
  "ca_reads B (snd (register_entity_ref B a)) = UNIV"
  "ca_writes B a \<subseteq> ca_writes B (snd (register_entity_ref B a))"
  "fst (register_entity_ref B a) \<Longrightarrow> ca_writes B (snd (register_entity_ref B a)) = {}"
  by (cases a; simp add: register_defs set_laws split: if_splits)+

lemma register_entity_mut_effect:
  assumes "ca_wf B a"
  shows "fst (register_entity_mut B a) \<longleftrightarrow> a = EntityRef \<or> ca_reads B a = {}"
    "snd (register_entity_mut B a) = (if a = EntityRef then EntityRef else EntityMut)"
  using assms by (cases a; auto simp: register_defs set_laws)+

lemma force_reading_effect:
  "ca_reads B (force_reading B a i) = insert (unat i) (ca_reads B a)"
  "ca_writes B (force_reading B a i) = ca_writes B a"
  by (cases a; simp add: set_laws)+

lemma merge_with_effect:
  assumes "b \<noteq> EntityMut"
  shows "ca_reads B a \<union> ca_reads B b \<subseteq> ca_reads B (merge_with B a b)"
    "ca_writes B a \<union> ca_writes B b \<subseteq> ca_writes B (merge_with B a b)"
  using assms by (cases a; cases b; auto simp: set_laws)+

lemma merge_with_keeps:
  "ca_reads B a \<subseteq> ca_reads B (merge_with B a b)" "ca_writes B a \<subseteq> ca_writes B (merge_with B a b)"
  by (cases a; cases b; auto simp: set_laws)+

lemma merge_with_parallel:
  assumes "ca_parallelizable B b a"
  shows "ca_reads B (merge_with B a b) = ca_reads B a \<union> ca_reads B b"
    "ca_writes B (merge_with B a b) = ca_writes B a \<union> ca_writes B b"
  using assms by (cases a; cases b; auto simp: set_laws)+

lemma wf_kept:
  assumes "ca_wf B a" "ca_wf B b"
  shows "ca_wf B (snd (register_reading B a i))" "ca_wf B (snd (register_writing B a i))"
    "ca_wf B (snd (register_entity_ref B a))" "ca_wf B (snd (register_entity_mut B a))"
    "ca_wf B (force_reading B a i)" "ca_wf B (merge_with B a b)"
  using assms register_reading_effect(2,3) [of a i] register_writing_effect [OF assms(1), of i]
    register_entity_mut_effect(2) [OF assms(1)] force_reading_effect [of a i]
  by (cases a; cases b; simp add: register_defs set_laws; blast?)+

end

end
