(* ===== verification/Query_Engine.thy ===== *)
theory Query_Engine
  imports Query_Filter Component_Access "HOL-Library.Sublist"
begin

text \<open>
  Queries: the data types a query can fetch (\<^verbatim>\<open>zlim-core/src/query/data\<close>), the query state with its list
  of matched tables (\<^verbatim>\<open>zlim-core/src/query/state.rs\<close>) and the row iterator
  (\<^verbatim>\<open>zlim-core/src/query/iter.rs\<close>).
\<close>

section \<open>Query data\<close>

text \<open>
  One constructor per implementation of \<^verbatim>\<open>QueryData\<close>: the entity id, its parent, its children, shared
  and exclusive entity handles, then for a component \<^verbatim>\<open>&T\<close>, \<^verbatim>\<open>Option<&T>\<close>, \<^verbatim>\<open>Ref<T>\<close>,
  \<^verbatim>\<open>Option<Ref<T>>\<close>, \<^verbatim>\<open>&mut T\<close>, \<^verbatim>\<open>Option<&mut T>\<close>, \<^verbatim>\<open>Mut<T>\<close>, \<^verbatim>\<open>Option<Mut<T>>\<close>, and tuples.
\<close>

datatype query_data =
    DEntityId | DParent | DChildren | DEntityRef | DEntityMut
  | DRef u32 | DOptRef u32 | DTickRef u32 | DOptTickRef u32
  | DMutRef u32 | DOptMutRef u32 | DMut u32 | DOptMut u32
  | DTuple "query_data list"

fun data_register_filter :: "query_data \<Rightarrow> filter_param_builder list \<Rightarrow> filter_param_builder list" where
  "data_register_filter (DRef c) out = map (builder_with c) out"
| "data_register_filter (DTickRef c) out = map (builder_with c) out"
| "data_register_filter (DMutRef c) out = map (builder_with c) out"
| "data_register_filter (DMut c) out = map (builder_with c) out"
| "data_register_filter (DTuple ds) out = fold data_register_filter ds out"
| "data_register_filter d out = out"

fun data_register_access ::
  "'b bitset_ops \<Rightarrow> query_data \<Rightarrow> 'b component_access \<Rightarrow> bool \<times> 'b component_access" where
  "data_register_access B DEntityRef a = register_entity_ref B a"
| "data_register_access B DEntityMut a = register_entity_mut B a"
| "data_register_access B (DRef c) a = register_reading B a c"
| "data_register_access B (DOptRef c) a = register_reading B a c"
| "data_register_access B (DTickRef c) a = register_reading B a c"
| "data_register_access B (DOptTickRef c) a = register_reading B a c"
| "data_register_access B (DMutRef c) a = register_writing B a c"
| "data_register_access B (DOptMutRef c) a = register_writing B a c"
| "data_register_access B (DMut c) a = register_writing B a c"
| "data_register_access B (DOptMut c) a = register_writing B a c"
| "data_register_access B (DTuple ds) a =
     fold (\<lambda>d (all_ok, a). case data_register_access B d a of (ok, a') \<Rightarrow> (all_ok \<and> ok, a')) ds (True, a)"
| "data_register_access B d a = (True, a)"

fun filter_register_access :: "'b bitset_ops \<Rightarrow> query_filter \<Rightarrow> 'b component_access \<Rightarrow> 'b component_access" where
  "filter_register_access B (FChanged s c) a = force_reading B a c"
| "filter_register_access B (FAdded s c) a = force_reading B a c"
| "filter_register_access B (FAnd fs) a = fold (filter_register_access B) fs a"
| "filter_register_access B (FOr fs) a = fold (filter_register_access B) fs a"
| "filter_register_access B f a = a"

text \<open>
  The caches of a query over one table, and what is fetched for one row. Pointers into a table are
  the column or table they point to; a fetched reference is the value it refers to, with
  the ticks where the type carries them.
\<close>

datatype 'v data_cache =
    NoCache
  | NodesCache "entity_node list"
  | ColumnCache "'v column option"
  | ViewCache "'v column option" tick tick
  | EntityCache "'v table option" tick tick
  | DataCaches "'v data_cache list"

datatype 'v query_item =
    ItemId entity_id
  | ItemParent "entity_id option"
  | ItemChildren "entity_id list"
  | ItemEntity entity_id location
  | ItemRef 'v
  | ItemTicked 'v tick tick
  | ItemAbsent
  | ItemTuple "'v query_item list"

fun data_build_cache :: "query_data \<Rightarrow> entities \<Rightarrow> tick \<Rightarrow> tick \<Rightarrow> 'v data_cache" where
  "data_build_cache DEntityId w lr tr = NoCache"
| "data_build_cache DParent w lr tr = NodesCache (e_nodes w)"
| "data_build_cache DChildren w lr tr = NodesCache (e_nodes w)"
| "data_build_cache DEntityRef w lr tr = EntityCache None lr tr"
| "data_build_cache DEntityMut w lr tr = EntityCache None lr tr"
| "data_build_cache (DRef c) w lr tr = ColumnCache None"
| "data_build_cache (DOptRef c) w lr tr = ColumnCache None"
| "data_build_cache (DTuple ds) w lr tr = DataCaches (map (\<lambda>d. data_build_cache d w lr tr) ds)"
| "data_build_cache d w lr tr = ViewCache None lr tr"

definition find_column :: "'v table \<Rightarrow> u32 \<Rightarrow> 'v column option" where
  "find_column t c = map_option ((!) (t_columns t)) (get_table_col t c)"

fun data_update_table :: "query_data \<Rightarrow> 'v data_cache \<Rightarrow> 'v table \<Rightarrow> bool \<times> 'v data_cache" where
  "data_update_table DEntityRef (EntityCache x lr tr) t = (True, EntityCache (Some t) lr tr)"
| "data_update_table DEntityMut (EntityCache x lr tr) t = (True, EntityCache (Some t) lr tr)"
| "data_update_table (DRef c) x t = (find_column t c \<noteq> None, ColumnCache (find_column t c))"
| "data_update_table (DOptRef c) x t = (True, ColumnCache (find_column t c))"
| "data_update_table (DTickRef c) (ViewCache x lr tr) t =
     (find_column t c \<noteq> None, ViewCache (find_column t c) lr tr)"
| "data_update_table (DOptTickRef c) (ViewCache x lr tr) t = (True, ViewCache (find_column t c) lr tr)"
| "data_update_table (DMutRef c) (ViewCache x lr tr) t =
     (find_column t c \<noteq> None, ViewCache (find_column t c) lr tr)"
| "data_update_table (DOptMutRef c) (ViewCache x lr tr) t = (True, ViewCache (find_column t c) lr tr)"
| "data_update_table (DMut c) (ViewCache x lr tr) t =
     (find_column t c \<noteq> None, ViewCache (find_column t c) lr tr)"
| "data_update_table (DOptMut c) (ViewCache x lr tr) t = (True, ViewCache (find_column t c) lr tr)"
| "data_update_table (DTuple ds) (DataCaches cs) t =
     (let rs = map2 (\<lambda>d c. data_update_table d c t) ds cs
      in (list_all fst rs, DataCaches (map snd rs)))"
| "data_update_table d c t = (True, c)"

text \<open>Reading one row of a column; \<open>None\<close> is an access out of bounds or to an unwritten cell.\<close>

definition fetch_value :: "'v column \<Rightarrow> u32 \<Rightarrow> 'v query_item option" where
  "fetch_value c row = do { v \<leftarrow> blob_get (c_data c) (unat row); map_option ItemRef v }"

definition fetch_ticked :: "'v column \<Rightarrow> u32 \<Rightarrow> 'v query_item option" where
  "fetch_ticked c row =
     do { v \<leftarrow> blob_get (c_data c) (unat row); x \<leftarrow> v;
          a \<leftarrow> tick_get (c_added c) (unat row); m \<leftarrow> tick_get (c_changed c) (unat row);
          Some (ItemTicked x a m) }"

text \<open>
  \<^verbatim>\<open>fetch\<close>: the outer option is undefined behaviour or a failed debug assertion, the inner one is
  the function's own \<^verbatim>\<open>Option\<close>, whose \<^verbatim>\<open>None\<close> makes the iterator skip the row.
\<close>

definition fetch_node :: "entity_node list \<Rightarrow> entity_id \<Rightarrow> entity_node option" where
  "fetch_node ns x =
     (if unat (index x) < length ns then
        (let n = ns ! unat (index x)
         in if n_generation n = generation x \<and> n_location n \<noteq> None then Some n else None)
      else None)"

definition fetch_handle :: "'v table option \<Rightarrow> entity_id \<Rightarrow> u32 \<Rightarrow> 'v query_item option" where
  "fetch_handle tab x row =
     (case tab of
        None \<Rightarrow> None
      | Some t \<Rightarrow>
          if unat row < length (t_entities t) \<and> t_entities t ! unat row = x
          then Some (ItemEntity x \<lparr>table_id = t_id t, table_row = row\<rparr>) else None)"

definition required :: "('v column \<Rightarrow> u32 \<Rightarrow> 'v query_item option) \<Rightarrow> 'v column option \<Rightarrow> u32
    \<Rightarrow> 'v query_item option option" where
  "required get c row = (case c of None \<Rightarrow> Some None | Some c \<Rightarrow> map_option Some (get c row))"

definition optional :: "('v column \<Rightarrow> u32 \<Rightarrow> 'v query_item option) \<Rightarrow> 'v column option \<Rightarrow> u32
    \<Rightarrow> 'v query_item option option" where
  "optional get c row = (case c of None \<Rightarrow> Some (Some ItemAbsent) | Some c \<Rightarrow> map_option Some (get c row))"

fun data_fetch :: "query_data \<Rightarrow> 'v data_cache \<Rightarrow> entity_id \<Rightarrow> u32 \<Rightarrow> 'v query_item option option" where
  "data_fetch DEntityId c x row = Some (Some (ItemId x))"
| "data_fetch DParent (NodesCache ns) x row =
     map_option (\<lambda>n. Some (ItemParent (n_parent n))) (fetch_node ns x)"
| "data_fetch DChildren (NodesCache ns) x row =
     map_option (\<lambda>n. Some (ItemChildren (n_children n))) (fetch_node ns x)"
| "data_fetch DEntityRef (EntityCache tab lr tr) x row = map_option Some (fetch_handle tab x row)"
| "data_fetch DEntityMut (EntityCache tab lr tr) x row = map_option Some (fetch_handle tab x row)"
| "data_fetch (DRef c) (ColumnCache col) x row = required fetch_value col row"
| "data_fetch (DOptRef c) (ColumnCache col) x row = optional fetch_value col row"
| "data_fetch (DTickRef c) (ViewCache col lr tr) x row = required fetch_ticked col row"
| "data_fetch (DOptTickRef c) (ViewCache col lr tr) x row = optional fetch_ticked col row"
| "data_fetch (DMutRef c) (ViewCache col lr tr) x row = required fetch_ticked col row"
| "data_fetch (DOptMutRef c) (ViewCache col lr tr) x row = optional fetch_ticked col row"
| "data_fetch (DMut c) (ViewCache col lr tr) x row = required fetch_ticked col row"
| "data_fetch (DOptMut c) (ViewCache col lr tr) x row = optional fetch_ticked col row"
| "data_fetch (DTuple ds) (DataCaches cs) x row =
     map_option (\<lambda>rs. map_option ItemTuple (those rs))
       (those (map2 (\<lambda>d c. data_fetch d c x row) ds cs))"
| "data_fetch d c x row = None"

section \<open>Query state\<close>

record 'b query_state =
  qs_version :: u32
  qs_storages :: "u32 list"
  qs_access_data :: "'b component_access"
  qs_access_filter :: "filter_param list"

text \<open>
  The descriptors are collected in a hash set and read back in its iteration order, which the
  parameter \<open>order\<close> stands for.
\<close>

definition collect_filter ::
  "(nat \<Rightarrow> u32 list \<Rightarrow> u64) \<Rightarrow> (filter_param list \<Rightarrow> filter_param list)
     \<Rightarrow> filter_param_builder list \<Rightarrow> filter_param list" where
  "collect_filter hf order builders = order (remdups (List.map_filter (builder_build hf) builders))"

definition update_table_state ::
  "u32 \<Rightarrow> u32 list \<Rightarrow> filter_param list \<Rightarrow> 'v table list \<Rightarrow> u32 \<times> u32 list" where
  "update_table_state version storages access_filter tables =
     (let new_version = of_nat (length tables)
      in (new_version,
          fold (\<lambda>i storages.
              let components = t_components (tables ! i)
              in if list_ex (\<lambda>p. matches_sorted components (param_with p) (param_without p)) access_filter
                 then storages @ [of_nat i] else storages)
            [unat version..<unat new_version] storages))"

definition query_build ::
  "'b bitset_ops \<Rightarrow> (nat \<Rightarrow> u32 list \<Rightarrow> u64) \<Rightarrow> (filter_param list \<Rightarrow> filter_param list)
     \<Rightarrow> query_data \<Rightarrow> query_filter \<Rightarrow> 'v table list \<Rightarrow> 'b query_state" where
  "query_build B hf order d f tables =
     (let access_data = filter_register_access B f (snd (data_register_access B d (component_access_new B)));
          access_filter = collect_filter hf order (data_register_filter d (register_filter f []))
      in case update_table_state 0 [] access_filter tables of (version, storages) \<Rightarrow>
           \<lparr>qs_version = version, qs_storages = storages,
            qs_access_data = access_data, qs_access_filter = access_filter\<rparr>)"

definition query_should_update :: "'b query_state \<Rightarrow> 'v table list \<Rightarrow> bool" where
  "query_should_update q tables \<longleftrightarrow> length tables > unat (qs_version q)"

definition query_update :: "'b query_state \<Rightarrow> 'v table list \<Rightarrow> 'b query_state" where
  "query_update q tables =
     (if query_should_update q tables then
        (case update_table_state (qs_version q) (qs_storages q) (qs_access_filter q) tables of
           (version, storages) \<Rightarrow> q\<lparr>qs_version := version, qs_storages := storages\<rparr>)
      else q)"

section \<open>The row iterator\<close>

record 'v query_iter =
  qi_d_cache :: "'v data_cache"
  qi_f_cache :: filter_cache
  qi_storages :: "u32 list"
  qi_entities :: "entity_id list"
  qi_row :: nat

definition query_iter_new ::
  "entities \<Rightarrow> query_data \<Rightarrow> query_filter \<Rightarrow> u32 list \<Rightarrow> tick \<Rightarrow> tick \<Rightarrow> 'v query_iter" where
  "query_iter_new w d f storages lr tr =
     \<lparr>qi_d_cache = data_build_cache d w lr tr, qi_f_cache = filter_build_cache f lr tr,
      qi_storages = storages, qi_entities = [], qi_row = 0\<rparr>"

text \<open>
  The loop of \<^verbatim>\<open>update_slice\<close> over the remaining tables. The result says whether a table was found; the
  outer option is undefined behaviour (a table id out of range, or a missing summary).
\<close>

fun next_storage ::
  "'v table list \<Rightarrow> query_data \<Rightarrow> query_filter \<Rightarrow> u32 list \<Rightarrow> 'v query_iter
     \<Rightarrow> (bool \<times> 'v query_iter) option" where
  "next_storage ts d f [] it = Some (False, it\<lparr>qi_storages := []\<rparr>)"
| "next_storage ts d f (i # is) it =
     (if unat i < length ts then
        (let t = ts ! unat i; it1 = it\<lparr>qi_entities := t_entities t\<rparr>
         in if t_entities t \<noteq> [] then
              (case data_update_table d (qi_d_cache it1) t of (dm, dc) \<Rightarrow>
                 do { (fm, fc) \<leftarrow> filter_update_table f (qi_f_cache it1) t;
                      let it2 = it1\<lparr>qi_d_cache := dc, qi_f_cache := fc\<rparr>;
                      if dm \<and> fm then Some (True, it2\<lparr>qi_storages := is\<rparr>) else next_storage ts d f is it2 })
            else next_storage ts d f is it1)
      else None)"

definition update_slice ::
  "'v table list \<Rightarrow> query_data \<Rightarrow> query_filter \<Rightarrow> 'v query_iter \<Rightarrow> (bool \<times> 'v query_iter) option" where
  "update_slice ts d f it = next_storage ts d f (qi_storages it) (it\<lparr>qi_row := 0\<rparr>)"

lemma next_storage_shrinks:
  "next_storage ts d f is it = Some (True, it') \<Longrightarrow> length (qi_storages it') < length is"
  by (induction ts d f "is" it rule: next_storage.induct)
    (auto simp: Let_def less_Suc_eq split: if_splits prod.splits bind_splits)

lemma update_slice_shrinks:
  "update_slice ts d f it = Some (True, it') \<Longrightarrow> length (qi_storages it') < length (qi_storages it)"
  unfolding update_slice_def by (rule next_storage_shrinks)

text \<open>
  One call of \<^verbatim>\<open>next\<close>. The outer option is undefined behaviour; every round of the loop takes a row
  or a table, so it ends.
\<close>

function query_iter_next ::
  "'v table list \<Rightarrow> query_data \<Rightarrow> query_filter \<Rightarrow> 'v query_iter
     \<Rightarrow> ('v query_item option \<times> 'v query_iter) option" where
  "query_iter_next ts d f it =
     (case (if qi_row it \<ge> length (qi_entities it) then update_slice ts d f it else Some (True, it)) of
        None \<Rightarrow> None
      | Some (False, it1) \<Rightarrow> Some (None, it1)
      | Some (True, it1) \<Rightarrow>
          (let old_row = qi_row it1; it2 = it1\<lparr>qi_row := old_row + 1\<rparr>
           in if \<not> old_row < length (qi_entities it1) then None
              else case (if enable_entity_filter f then filter_row f (qi_f_cache it2) (of_nat old_row)
                         else Some True) of
                     None \<Rightarrow> None
                   | Some False \<Rightarrow> query_iter_next ts d f it2
                   | Some True \<Rightarrow>
                       (case data_fetch d (qi_d_cache it2) (qi_entities it1 ! old_row) (of_nat old_row) of
                          None \<Rightarrow> None
                        | Some (Some x) \<Rightarrow> Some (Some x, it2)
                        | Some None \<Rightarrow> query_iter_next ts d f it2)))"
  by pat_completeness auto
termination
  by (relation "measures [\<lambda>(ts, d, f, it). length (qi_storages it),
        \<lambda>(ts, d, f, it). length (qi_entities it) - qi_row it]")
    (auto dest: update_slice_shrinks split: if_splits)

declare query_iter_next.simps [simp del]

text \<open>Calling \<^verbatim>\<open>next\<close> until it returns \<^verbatim>\<open>None\<close>, with a bound on the number of calls.\<close>

fun query_iter_collect ::
  "nat \<Rightarrow> 'v table list \<Rightarrow> query_data \<Rightarrow> query_filter \<Rightarrow> 'v query_iter \<Rightarrow> 'v query_item list option" where
  "query_iter_collect 0 ts d f it = None"
| "query_iter_collect (Suc n) ts d f it =
     (case query_iter_next ts d f it of
        None \<Rightarrow> None
      | Some (None, it') \<Rightarrow> Some []
      | Some (Some x, it') \<Rightarrow> map_option ((#) x) (query_iter_collect n ts d f it'))"

end
