(* ===== verification/Query_Rows.thy ===== *)
theory Query_Rows
  imports Query_Engine
begin

text \<open>
  What a query visits: the tables in its state are exactly those its filter and its data require, kept up to
  date incrementally, and the iterator fetches exactly the rows of those tables that satisfy the
  filter, in order, with no undefined behaviour.
\<close>

section \<open>The matched tables\<close>

text \<open>The components a query cannot do without.\<close>

fun needs :: "query_data \<Rightarrow> u32 set" where
  "needs (DRef c) = {c}"
| "needs (DTickRef c) = {c}"
| "needs (DMutRef c) = {c}"
| "needs (DMut c) = {c}"
| "needs (DTuple ds) = (\<Union>d \<in> set ds. needs d)"
| "needs d = {}"

lemma some_branch_map_with: "some_branch A (map (builder_with c) out) \<longleftrightarrow> c \<in> A \<and> some_branch A out"
  by (induction out) auto

lemma data_register_filter_needs:
  "some_branch A (data_register_filter d out) \<longleftrightarrow> needs d \<subseteq> A \<and> some_branch A out"
proof (induction d arbitrary: out)
  case (DTuple ds)
  then have "some_branch A (fold data_register_filter ds out) \<longleftrightarrow> (\<forall>d \<in> set ds. needs d \<subseteq> A) \<and> some_branch A out"
    by (induction ds arbitrary: out) auto
  then show ?case by auto
qed (simp_all add: some_branch_map_with)

lemma data_register_filter_finite:
  "list_all branch_finite out \<Longrightarrow> list_all branch_finite (data_register_filter d out)"
proof (induction d arbitrary: out)
  case (DTuple ds)
  show ?case
    unfolding data_register_filter.simps by (rule fold_keeps) (use DTuple in auto)
qed (simp_all add: list_all_iff)

text \<open>The descriptors of a query; hash set iteration yields each element once.\<close>

definition order_ok :: "('a list \<Rightarrow> 'a list) \<Rightarrow> bool" where
  "order_ok order \<longleftrightarrow> (\<forall>xs. distinct xs \<longrightarrow> distinct (order xs) \<and> set (order xs) = set xs)"

definition query_params where
  "query_params hf order d f = collect_filter hf order (data_register_filter d (register_filter f []))"

lemma query_params_branch:
  assumes "order_ok order" "p \<in> set (query_params hf order d f)"
  obtains b where "b \<in> set (data_register_filter d (register_filter f []))" "builder_build hf b = Some p"
    "branch_finite b"
proof -
  have "p \<in> set (List.map_filter (builder_build hf) (data_register_filter d (register_filter f [])))"
    using assms by (simp add: query_params_def collect_filter_def order_ok_def)
  moreover have "list_all branch_finite (data_register_filter d (register_filter f []))"
    by (intro data_register_filter_finite register_filter_finite) simp
  ultimately show ?thesis
    using that by (auto simp: set_map_filter_iff list_all_iff)
qed

lemma query_params_ok: "order_ok order \<Longrightarrow> p \<in> set (query_params hf order d f) \<Longrightarrow> param_ok p"
  by (erule query_params_branch) (auto dest: build_Some)

lemma query_params_match:
  assumes "order_ok order"
  shows "(\<exists>p \<in> set (query_params hf order d f). param_matches p A) \<longleftrightarrow> needs d \<subseteq> A \<and> sat f A"
proof -
  let ?bs = "data_register_filter d (register_filter f [])"
  have fin: "branch_finite b" if "b \<in> set ?bs" for b
    using data_register_filter_finite [OF register_filter_finite, of "[]"] that by (auto simp: list_all_iff)
  have "(\<exists>p \<in> set (query_params hf order d f). param_matches p A) \<longleftrightarrow>
      (\<exists>b \<in> set ?bs. \<exists>p. builder_build hf b = Some p \<and> param_matches p A)"
    using assms unfolding Bex_def
    by (simp add: query_params_def collect_filter_def order_ok_def set_map_filter_iff) blast
  also have "\<dots> \<longleftrightarrow> some_branch A ?bs"
    unfolding some_branch_def
  proof (rule bex_cong [OF refl])
    fix b
    assume "b \<in> set ?bs"
    then show "(\<exists>p. builder_build hf b = Some p \<and> param_matches p A) \<longleftrightarrow> branch_ok A b"
      using build_Some(2) [OF _ fin] build_None [of hf b A] by (cases "builder_build hf b") auto
  qed
  finally show ?thesis
    by (simp add: data_register_filter_needs register_filter_sat)
qed

definition visits :: "query_data \<Rightarrow> query_filter \<Rightarrow> 'v table \<Rightarrow> bool" where
  "visits d f t \<longleftrightarrow> needs d \<subseteq> set (t_components t) \<and> sat f (set (t_components t))"

lemma fold_select:
  "fold (\<lambda>i ss. if P i then ss @ [g i] else ss) is ss = ss @ map g (filter P is)"
  by (induction "is" arbitrary: ss) auto

lemma update_table_state_select:
  assumes "order_ok order" "\<forall>t \<in> set ts. sorted_wrt (<) (t_components t)" "length ts < 2 ^ 32"
  shows "update_table_state v ss (query_params hf order d f) ts
    = (of_nat (length ts), ss @ map of_nat (filter (\<lambda>i. visits d f (ts ! i)) [unat v..<length ts]))"
proof -
  have len: "unat (of_nat (length ts) :: u32) = length ts"
    using assms(3) by (intro unat_of_nat_small) simp
  have "list_ex (\<lambda>p. matches_sorted (t_components (ts ! i)) (param_with p) (param_without p))
        (query_params hf order d f) \<longleftrightarrow> visits d f (ts ! i)" if "i \<in> set [unat v..<length ts]" for i
  proof -
    have srt: "sorted_wrt (<) (t_components (ts ! i))"
      using assms(2) that by simp
    show ?thesis
      using query_params_ok [OF assms(1)] query_params_match [OF assms(1), of hf d f] matches_sorted_iff [OF srt]
      by (simp add: list_ex_iff visits_def)
  qed
  then have "filter (\<lambda>i. list_ex (\<lambda>p. matches_sorted (t_components (ts ! i)) (param_with p) (param_without p))
        (query_params hf order d f)) [unat v..<length ts] = filter (\<lambda>i. visits d f (ts ! i)) [unat v..<length ts]"
    by (rule filter_cong [OF refl])
  then show ?thesis
    by (simp add: update_table_state_def len fold_select)
qed

text \<open>The state a query has after being built on one list of tables and updated on longer ones.\<close>

inductive query_run ::
  "'b bitset_ops \<Rightarrow> (nat \<Rightarrow> u32 list \<Rightarrow> u64) \<Rightarrow> (filter_param list \<Rightarrow> filter_param list) \<Rightarrow> query_data
     \<Rightarrow> query_filter \<Rightarrow> 'v table list \<Rightarrow> 'b query_state \<Rightarrow> bool"
  for B hf order d f where
  query_built: "query_run B hf order d f ts (query_build B hf order d f ts)"
| query_updated: "query_run B hf order d f ts q \<Longrightarrow> prefix (map t_components ts) (map t_components ts') \<Longrightarrow>
    query_run B hf order d f ts' (query_update q ts')"

definition tables_ok :: "'v table list \<Rightarrow> bool" where
  "tables_ok ts \<longleftrightarrow> length ts < 2 ^ 32 \<and> (\<forall>t \<in> set ts. sorted_wrt (<) (t_components t))"

lemma prefix_map_nth:
  assumes "prefix (map g xs) (map h ys)"
  shows "length xs \<le> length ys" "i < length xs \<Longrightarrow> h (ys ! i) = g (xs ! i)"
proof -
  show le: "length xs \<le> length ys"
    using prefix_length_le [OF assms] by simp
  obtain zs where zs: "map h ys = map g xs @ zs"
    using assms by (auto simp: prefix_def)
  show "h (ys ! i) = g (xs ! i)" if "i < length xs"
    using arg_cong [OF zs, of "\<lambda>l. l ! i"] le that by (simp add: nth_append)
qed

lemma tables_ok_prefix:
  assumes "tables_ok ys" "prefix (map t_components xs) (map t_components ys)"
  shows "tables_ok xs"
  unfolding tables_ok_def
proof (intro conjI ballI)
  note pre = prefix_map_nth [OF assms(2)]
  show "length xs < 2 ^ 32"
    using assms(1) pre(1) by (simp add: tables_ok_def)
  fix t
  assume "t \<in> set xs"
  then obtain i where i: "i < length xs" "t = xs ! i"
    by (auto simp: in_set_conv_nth)
  then have "ys ! i \<in> set ys"
    using pre(1) by simp
  then show "sorted_wrt (<) (t_components t)"
    using assms(1) pre(2) [OF i(1)] i(2) by (auto simp: tables_ok_def)
qed

lemma query_run_storages:
  assumes "query_run B hf order d f ts q" "order_ok order" "tables_ok ts"
  shows "qs_version q = of_nat (length ts) \<and> qs_access_filter q = query_params hf order d f
    \<and> qs_storages q = map of_nat (filter (\<lambda>i. visits d f (ts ! i)) [0..<length ts])"
  using assms
proof (induction rule: query_run.induct)
  case (query_built ts)
  then show ?case
    using update_table_state_select [of order ts 0 "[]" hf d f]
    by (simp add: query_build_def Let_def tables_ok_def query_params_def)
next
  case (query_updated ts q ts')
  have ok: "tables_ok ts"
    using query_updated by (blast intro: tables_ok_prefix)
  note IH = query_updated.IH [OF query_updated.prems(1) ok]
  note pre = prefix_map_nth [OF query_updated.hyps(2)]
  have len: "unat (of_nat (length ts) :: u32) = length ts"
    using ok by (intro unat_of_nat_small) (simp add: tables_ok_def)
  have same: "filter (\<lambda>i. visits d f (ts ! i)) [0..<length ts] = filter (\<lambda>i. visits d f (ts' ! i)) [0..<length ts]"
    using pre by (intro filter_cong) (auto simp: visits_def)
  show ?case
  proof (cases "length ts < length ts'")
    case True
    have "[0..<length ts'] = [0..<length ts] @ [length ts..<length ts']"
      using True upt_add_eq_append [of 0 "length ts" "length ts' - length ts"] by simp
    then show ?thesis
      using True IH same len query_updated.prems update_table_state_select [of order ts' "qs_version q" "qs_storages q" hf d f]
      by (simp add: query_update_def query_should_update_def tables_ok_def)
  next
    case False
    then have "length ts = length ts'" using pre(1) by simp
    then show ?thesis
      using IH same len by (simp add: query_update_def query_should_update_def)
  qed
qed

section \<open>Rows that satisfy a filter\<close>

fun row_sat :: "tick \<Rightarrow> tick \<Rightarrow> query_filter \<Rightarrow> 'v table \<Rightarrow> nat \<Rightarrow> bool" where
  "row_sat lr tr FUnit t i \<longleftrightarrow> True"
| "row_sat lr tr (FWith ids) t i \<longleftrightarrow> set ids \<subseteq> set (t_components t)"
| "row_sat lr tr (FWithout ids) t i \<longleftrightarrow> set ids \<inter> set (t_components t) = {}"
| "row_sat lr tr (FChanged s c) t i \<longleftrightarrow>
     (\<exists>col. find_column t c = Some col \<and> is_newer_than (the (snd (snd (item col i)))) lr tr)"
| "row_sat lr tr (FAdded s c) t i \<longleftrightarrow>
     (\<exists>col. find_column t c = Some col \<and> is_newer_than (the (fst (snd (item col i)))) lr tr)"
| "row_sat lr tr (FAnd fs) t i \<longleftrightarrow> (\<forall>f \<in> set fs. row_sat lr tr f t i)"
| "row_sat lr tr (FOr fs) t i \<longleftrightarrow> (\<exists>f \<in> set fs. row_sat lr tr f t i)"

text \<open>
  A filter with \<^verbatim>\<open>SUMMARY_TICK\<close> needs its column to keep a summary, and the summary to cover the
  column.
\<close>

definition summary_ready :: "tick \<Rightarrow> bool \<Rightarrow> u32 \<Rightarrow> 'v table \<Rightarrow> bool" where
  "summary_ready tr s c t \<longleftrightarrow> (s \<longrightarrow> (\<forall>col. find_column t c = Some col \<longrightarrow>
     c_summary col \<noteq> None \<and> covers tr (length (t_entities t)) col))"

fun filter_ready :: "tick \<Rightarrow> query_filter \<Rightarrow> 'v table \<Rightarrow> bool" where
  "filter_ready tr (FChanged s c) t \<longleftrightarrow> summary_ready tr s c t"
| "filter_ready tr (FAdded s c) t \<longleftrightarrow> summary_ready tr s c t"
| "filter_ready tr (FAnd fs) t \<longleftrightarrow> (\<forall>f \<in> set fs. filter_ready tr f t)"
| "filter_ready tr (FOr fs) t \<longleftrightarrow> (\<forall>f \<in> set fs. filter_ready tr f t)"
| "filter_ready tr f t \<longleftrightarrow> True"

definition table_ready :: "'v table \<Rightarrow> bool" where
  "table_ready t \<longleftrightarrow> table_inv t \<and> (\<forall>i < length (t_entities t). row_full (rows t ! i))"

lemma find_column_iff:
  assumes "table_inv t"
  shows "find_column t c = None \<longleftrightarrow> c \<notin> set (t_components t)"
    "find_column t c = Some col \<longleftrightarrow> (\<exists>k. get_table_col t c = Some k \<and> col = t_columns t ! k)"
    "find_column t c = Some col \<Longrightarrow> col \<in> set (t_columns t)"
  using get_table_col_iff [OF assms, of c] assms by (auto simp: find_column_def table_inv_def)

lemma contains_component_iff:
  "table_inv t \<Longrightarrow> contains_component t c \<longleftrightarrow> c \<in> set (t_components t)"
  using get_table_col_iff(2) [of t c] by (auto simp: contains_component_def get_table_col_def)

lemma column_row_full:
  assumes "table_ready t" "col \<in> set (t_columns t)" "i < length (t_entities t)"
  shows "item_full (item col i)" "col_ok (t_cap t) col" "i < t_cap t" "i < 2 ^ 32"
  using assms by (auto simp: table_ready_def row_full_def list_all_iff table_inv_def)

fun cache_fits :: "query_filter \<Rightarrow> tick \<Rightarrow> tick \<Rightarrow> filter_cache \<Rightarrow> bool" where
  "cache_fits (FChanged s c) lr tr (TickCache v) \<longleftrightarrow> v_last_run v = lr \<and> v_this_run v = tr"
| "cache_fits (FAdded s c) lr tr (TickCache v) \<longleftrightarrow> v_last_run v = lr \<and> v_this_run v = tr"
| "cache_fits (FAnd fs) lr tr (TupleCache cs) \<longleftrightarrow> list_all2 (\<lambda>f c. cache_fits f lr tr c) fs cs"
| "cache_fits (FOr fs) lr tr (TupleCache cs) \<longleftrightarrow> list_all2 (\<lambda>f c. cache_fits f lr tr c) fs cs"
| "cache_fits FUnit lr tr (FlagCache b) \<longleftrightarrow> True"
| "cache_fits (FWith ids) lr tr (FlagCache b) \<longleftrightarrow> True"
| "cache_fits (FWithout ids) lr tr (FlagCache b) \<longleftrightarrow> True"
| "cache_fits f lr tr c \<longleftrightarrow> False"

lemma build_cache_fits: "cache_fits f lr tr (filter_build_cache f lr tr)"
  by (induction f) (auto simp: list_all2_conv_all_nth)

text \<open>
  A cache updated for a table serves it: the row test gives the rows that satisfy the filter, a
  table reported as unmatched has none, and a filter without row tests accepts all rows or none.
\<close>

definition serves :: "tick \<Rightarrow> tick \<Rightarrow> query_filter \<Rightarrow> filter_cache \<Rightarrow> bool \<Rightarrow> 'v table \<Rightarrow> bool" where
  "serves lr tr f c m t \<longleftrightarrow> (\<forall>i < length (t_entities t).
     filter_row f c (of_nat i) = Some (row_sat lr tr f t i)
     \<and> (row_sat lr tr f t i \<longrightarrow> m) \<and> (\<not> enable_entity_filter f \<longrightarrow> m \<longrightarrow> row_sat lr tr f t i))"

lemma all_until_map:
  "(\<And>x. x \<in> set xs \<Longrightarrow> g x = Some (P x)) \<Longrightarrow> all_until (map (\<lambda>x _. g x) xs) = Some (\<forall>x \<in> set xs. P x)"
  by (induction xs) auto

lemma any_until_map:
  "(\<And>x. x \<in> set xs \<Longrightarrow> g x = Some (P x)) \<Longrightarrow> any_until (map (\<lambda>x _. g x) xs) = Some (\<exists>x \<in> set xs. P x)"
  by (induction xs) auto

text \<open>\<^verbatim>\<open>Changed\<close> and \<^verbatim>\<open>Added\<close> differ in the tick array they look at.\<close>

definition tick_update ::
  "('v column \<Rightarrow> tick_array) \<Rightarrow> bool \<Rightarrow> u32 \<Rightarrow> tick_view \<Rightarrow> 'v table \<Rightarrow> (bool \<times> tick_view) option" where
  "tick_update sel s cid v t =
     (case find_column t cid of
        None \<Rightarrow> Some (False, v\<lparr>v_ticks := None\<rparr>)
      | Some c \<Rightarrow>
          let v1 = v\<lparr>v_ticks := Some (take (length (t_entities t)) (sel c))\<rparr>
          in if s then map_option (\<lambda>x. (is_newer_than x (v_last_run v) (v_this_run v), v1)) (c_summary c)
             else Some (True, v1))"

lemma tick_update_eq:
  "changed_update_table s c v t = tick_update c_changed s c v t"
  "added_update_table s c v t = tick_update c_added s c v t"
  by (auto simp: changed_update_table_def added_update_table_def tick_update_def find_column_def Let_def
      split: option.splits)

lemma tick_update_serves:
  assumes "table_ready t" "summary_ready (v_this_run v) s c t"
    and sel: "\<And>col i. item_full (item col i) \<Longrightarrow> \<exists>x. sel col ! i = Some x
      \<and> (fst (snd (item col i)) = Some x \<or> snd (snd (item col i)) = Some x)"
    and len: "\<And>col n. col_ok n col \<Longrightarrow> length (sel col) = n"
  shows "\<exists>m v'. tick_update sel s c v t = Some (m, v') \<and> v_last_run v' = v_last_run v
    \<and> v_this_run v' = v_this_run v
    \<and> (\<forall>i < length (t_entities t). \<exists>b. tick_filter v' (of_nat i) = Some b \<and> (b \<longrightarrow> m)
        \<and> (b \<longleftrightarrow> (\<exists>col. find_column t c = Some col
              \<and> is_newer_than (the (sel col ! i)) (v_last_run v) (v_this_run v))))"
proof (cases "find_column t c")
  case None
  then show ?thesis
    by (auto simp: tick_update_def tick_filter_def)
next
  case (Some col)
  have inv: "table_inv t"
    using assms(1) by (simp add: table_ready_def)
  have col: "col \<in> set (t_columns t)"
    using find_column_iff(3) [OF inv Some] .
  have full: "length (sel col) = t_cap t" "length (t_entities t) \<le> t_cap t" "t_cap t < 2 ^ 32"
    using len inv col by (auto simp: table_inv_def)
  let ?v = "v\<lparr>v_ticks := Some (take (length (t_entities t)) (sel col))\<rparr>"
  have row: "tick_filter ?v (of_nat i) = Some (is_newer_than (the (sel col ! i)) (v_last_run v) (v_this_run v))"
    if "i < length (t_entities t)" for i
  proof -
    have "unat (of_nat i :: u32) = i"
      using that full by (intro unat_of_nat_small) simp
    then show ?thesis
      using that full sel [OF column_row_full(1) [OF assms(1) col that]] by (auto simp: tick_filter_def)
  qed
  show ?thesis
  proof (cases s)
    case False
    then show ?thesis
      using row Some by (auto simp: tick_update_def)
  next
    case True
    then obtain x where x: "c_summary col = Some x" "covers (v_this_run v) (length (t_entities t)) col"
      using assms(2) Some by (auto simp: summary_ready_def)
    have "is_newer_than x (v_last_run v) (v_this_run v)"
      if i: "i < length (t_entities t)" and newer: "is_newer_than (the (sel col ! i)) (v_last_run v) (v_this_run v)" for i
    proof -
      obtain y where y: "sel col ! i = Some y" "fst (snd (item col i)) = Some y \<or> snd (snd (item col i)) = Some y"
        using sel [OF column_row_full(1) [OF assms(1) col i]] by blast
      then show ?thesis
        using covers_newer [OF x(2,1) i y(2)] newer by auto
    qed
    then show ?thesis
      using row Some True x(1) by (simp add: tick_update_def)
  qed
qed

lemma connective_parts:
  assumes "list_all2 (\<lambda>f c. cache_fits f lr tr c) fs cs"
    and "\<And>f c. f \<in> set fs \<Longrightarrow> cache_fits f lr tr c \<Longrightarrow>
      \<exists>m c'. filter_update_table f c t = Some (m, c') \<and> cache_fits f lr tr c' \<and> serves lr tr f c' m t"
  obtains rs where "those (map2 (\<lambda>f c. filter_update_table f c t) fs cs) = Some rs" "length rs = length fs"
    "\<And>j. j < length fs \<Longrightarrow> cache_fits (fs ! j) lr tr (snd (rs ! j))"
    "\<And>j. j < length fs \<Longrightarrow> serves lr tr (fs ! j) (snd (rs ! j)) (fst (rs ! j)) t"
proof -
  have len: "length cs = length fs"
    using assms(1) by (simp add: list_all2_lengthD)
  have "\<forall>p \<in> set (zip fs cs). \<exists>r. (case p of (f, c) \<Rightarrow> filter_update_table f c t) = Some r
      \<and> (cache_fits (fst p) lr tr (snd r) \<and> serves lr tr (fst p) (snd r) (fst r) t)"
    using assms by (fastforce simp: list_all2_iff dest: set_zip_leftD)
  from those_map_ex [OF this] obtain rs where "those (map2 (\<lambda>f c. filter_update_table f c t) fs cs) = Some rs"
    "list_all2 (\<lambda>p r. cache_fits (fst p) lr tr (snd r) \<and> serves lr tr (fst p) (snd r) (fst r) t) (zip fs cs) rs"
    by blast
  then show ?thesis
    using that len by (simp add: list_all2_conv_all_nth)
qed

lemma map2_nth_iff:
  assumes "length ys = length xs"
  shows "(\<forall>p \<in> set (zip xs ys). P (fst p)) \<longleftrightarrow> (\<forall>x \<in> set xs. P x)"
    "(\<exists>p \<in> set (zip xs ys). P (fst p)) \<longleftrightarrow> (\<exists>x \<in> set xs. P x)"
proof -
  have "set xs = fst ` set (zip xs ys)"
    using assms by (metis map_fst_zip set_map)
  then show "(\<forall>p \<in> set (zip xs ys). P (fst p)) \<longleftrightarrow> (\<forall>x \<in> set xs. P x)"
    "(\<exists>p \<in> set (zip xs ys). P (fst p)) \<longleftrightarrow> (\<exists>x \<in> set xs. P x)"
    by auto
qed

lemma connective_serves:
  assumes "length rs = length fs"
    and "\<And>j. j < length fs \<Longrightarrow> serves lr tr (fs ! j) (snd (rs ! j)) (fst (rs ! j)) t"
  shows "serves lr tr (FAnd fs) (TupleCache (map snd rs)) (list_all fst rs) t"
    "serves lr tr (FOr fs) (TupleCache (map snd rs)) (list_ex fst rs) t"
proof -
  let ?zip = "zip fs (map snd rs)"
  have row: "filter_row (fst p) (snd p) (of_nat i) = Some (row_sat lr tr (fst p) t i)"
    if p: "p \<in> set ?zip" and i: "i < length (t_entities t)" for p i
  proof -
    obtain j where "j < length fs" "fst p = fs ! j" "snd p = snd (rs ! j)"
      using p assms(1) by (auto simp: in_set_zip)
    then show ?thesis
      using assms(2) [of j] i by (simp add: serves_def)
  qed
  have un: "map2 (\<lambda>f c _. filter_row f c k) fs (map snd rs) = map (\<lambda>p _. filter_row (fst p) (snd p) k) ?zip" for k
    by (simp add: split_def)
  have and_row: "filter_row (FAnd fs) (TupleCache (map snd rs)) (of_nat i) = Some (row_sat lr tr (FAnd fs) t i)"
    if "i < length (t_entities t)" for i
    using all_until_map [of ?zip, OF row [OF _ that]] assms(1)
      map2_nth_iff(1) [of "map snd rs" fs "\<lambda>f. row_sat lr tr f t i"] by (simp add: un)
  have or_row: "filter_row (FOr fs) (TupleCache (map snd rs)) (of_nat i) = Some (row_sat lr tr (FOr fs) t i)"
    if "i < length (t_entities t)" for i
    using any_until_map [of ?zip, OF row [OF _ that]] assms(1)
      map2_nth_iff(2) [of "map snd rs" fs "\<lambda>f. row_sat lr tr f t i"] by (simp add: un)
  have part: "row_sat lr tr (fs ! j) t i \<Longrightarrow> fst (rs ! j)"
      "\<not> enable_entity_filter (fs ! j) \<Longrightarrow> fst (rs ! j) \<Longrightarrow> row_sat lr tr (fs ! j) t i"
    if "j < length fs" "i < length (t_entities t)" for i j
    using assms(2) [OF that(1)] that(2) by (auto simp: serves_def)
  have all: "(\<forall>f \<in> set fs. P f) \<longleftrightarrow> (\<forall>j < length fs. P (fs ! j))" "(\<exists>f \<in> set fs. P f) \<longleftrightarrow> (\<exists>j < length fs. P (fs ! j))" for P
    unfolding set_conv_nth by auto
  show "serves lr tr (FAnd fs) (TupleCache (map snd rs)) (list_all fst rs) t"
    unfolding serves_def using and_row part assms(1) by (simp add: all list_all_length list_ex_length)
  show "serves lr tr (FOr fs) (TupleCache (map snd rs)) (list_ex fst rs) t"
    unfolding serves_def using or_row part assms(1) by (simp add: all list_ex_length) blast
qed

lemma filter_update_serves:
  assumes "table_ready t" "filter_ready tr f t" "cache_fits f lr tr c"
  shows "\<exists>m c'. filter_update_table f c t = Some (m, c') \<and> cache_fits f lr tr c' \<and> serves lr tr f c' m t"
  using assms(2,3)
proof (induction f arbitrary: c)
  case (FAnd fs)
  then obtain cs where c: "c = TupleCache cs" "list_all2 (\<lambda>f c. cache_fits f lr tr c) fs cs"
    by (cases c) auto
  obtain rs where rs: "those (map2 (\<lambda>f c. filter_update_table f c t) fs cs) = Some rs" "length rs = length fs"
    "\<And>j. j < length fs \<Longrightarrow> cache_fits (fs ! j) lr tr (snd (rs ! j))"
    "\<And>j. j < length fs \<Longrightarrow> serves lr tr (fs ! j) (snd (rs ! j)) (fst (rs ! j)) t"
    by (rule connective_parts [OF c(2), of t]) (use FAnd in auto)
  then show ?case
    using connective_serves(1) [OF rs(2,4)] c(1) by (simp add: list_all2_conv_all_nth)
next
  case (FOr fs)
  then obtain cs where c: "c = TupleCache cs" "list_all2 (\<lambda>f c. cache_fits f lr tr c) fs cs"
    by (cases c) auto
  obtain rs where rs: "those (map2 (\<lambda>f c. filter_update_table f c t) fs cs) = Some rs" "length rs = length fs"
    "\<And>j. j < length fs \<Longrightarrow> cache_fits (fs ! j) lr tr (snd (rs ! j))"
    "\<And>j. j < length fs \<Longrightarrow> serves lr tr (fs ! j) (snd (rs ! j)) (fst (rs ! j)) t"
    by (rule connective_parts [OF c(2), of t]) (use FOr in auto)
  then show ?case
    using connective_serves(2) [OF rs(2,4)] c(1) by (simp add: list_all2_conv_all_nth)
next
  case (FChanged s x)
  then obtain v where c: "c = TickCache v" "v_last_run v = lr" "v_this_run v = tr"
    by (cases c) auto
  have "\<exists>m v'. tick_update c_changed s x v t = Some (m, v') \<and> v_last_run v' = lr \<and> v_this_run v' = tr
    \<and> (\<forall>i < length (t_entities t). \<exists>b. tick_filter v' (of_nat i) = Some b \<and> (b \<longrightarrow> m)
        \<and> (b \<longleftrightarrow> (\<exists>col. find_column t x = Some col \<and> is_newer_than (the (c_changed col ! i)) lr tr)))"
    unfolding c(2,3) [symmetric]
    by (rule tick_update_serves [OF assms(1)]) (use FChanged.prems c in \<open>auto simp: item_full_def item_def col_ok_def\<close>)
  then show ?case
    by (fastforce simp: c(1) tick_update_eq serves_def item_def)
next
  case (FAdded s x)
  then obtain v where c: "c = TickCache v" "v_last_run v = lr" "v_this_run v = tr"
    by (cases c) auto
  have "\<exists>m v'. tick_update c_added s x v t = Some (m, v') \<and> v_last_run v' = lr \<and> v_this_run v' = tr
    \<and> (\<forall>i < length (t_entities t). \<exists>b. tick_filter v' (of_nat i) = Some b \<and> (b \<longrightarrow> m)
        \<and> (b \<longleftrightarrow> (\<exists>col. find_column t x = Some col \<and> is_newer_than (the (c_added col ! i)) lr tr)))"
    unfolding c(2,3) [symmetric]
    by (rule tick_update_serves [OF assms(1)]) (use FAdded.prems c in \<open>auto simp: item_full_def item_def col_ok_def\<close>)
  then show ?case
    by (fastforce simp: c(1) tick_update_eq serves_def item_def)
next
  case FUnit
  then show ?case by (cases c) (auto simp: serves_def)
next
  case (FWith ids)
  then show ?case
    using assms(1) by (cases c) (auto simp: serves_def Let_def list_all_iff table_ready_def contains_component_iff
        with_update_table_def without_update_table_def)
next
  case (FWithout ids)
  then show ?case
    using assms(1) by (cases c) (auto simp: serves_def Let_def list_all_iff table_ready_def contains_component_iff
        with_update_table_def without_update_table_def)
qed

section \<open>Fetched rows\<close>

definition value_item :: "'v column \<Rightarrow> nat \<Rightarrow> 'v query_item" where
  "value_item c i = ItemRef (the (fst (item c i)))"

definition ticked_item :: "'v column \<Rightarrow> nat \<Rightarrow> 'v query_item" where
  "ticked_item c i = ItemTicked (the (fst (item c i))) (the (fst (snd (item c i)))) (the (snd (snd (item c i))))"

definition column_item :: "('v column \<Rightarrow> nat \<Rightarrow> 'v query_item) \<Rightarrow> 'v table \<Rightarrow> u32 \<Rightarrow> nat \<Rightarrow> 'v query_item" where
  "column_item g t c i = (case find_column t c of None \<Rightarrow> ItemAbsent | Some col \<Rightarrow> g col i)"

fun row_item :: "entities \<Rightarrow> query_data \<Rightarrow> 'v table \<Rightarrow> nat \<Rightarrow> 'v query_item" where
  "row_item w DEntityId t i = ItemId (t_entities t ! i)"
| "row_item w DParent t i = ItemParent (parent_of w (t_entities t ! i))"
| "row_item w DChildren t i = ItemChildren (children_of w (t_entities t ! i))"
| "row_item w DEntityRef t i = ItemEntity (t_entities t ! i) \<lparr>table_id = t_id t, table_row = of_nat i\<rparr>"
| "row_item w DEntityMut t i = ItemEntity (t_entities t ! i) \<lparr>table_id = t_id t, table_row = of_nat i\<rparr>"
| "row_item w (DRef c) t i = column_item value_item t c i"
| "row_item w (DOptRef c) t i = column_item value_item t c i"
| "row_item w (DTickRef c) t i = column_item ticked_item t c i"
| "row_item w (DOptTickRef c) t i = column_item ticked_item t c i"
| "row_item w (DMutRef c) t i = column_item ticked_item t c i"
| "row_item w (DOptMutRef c) t i = column_item ticked_item t c i"
| "row_item w (DMut c) t i = column_item ticked_item t c i"
| "row_item w (DOptMut c) t i = column_item ticked_item t c i"
| "row_item w (DTuple ds) t i = ItemTuple (map (\<lambda>d. row_item w d t i) ds)"

fun data_fits :: "entities \<Rightarrow> query_data \<Rightarrow> 'v data_cache \<Rightarrow> bool" where
  "data_fits w DEntityId c \<longleftrightarrow> True"
| "data_fits w DParent c \<longleftrightarrow> c = NodesCache (e_nodes w)"
| "data_fits w DChildren c \<longleftrightarrow> c = NodesCache (e_nodes w)"
| "data_fits w DEntityRef c \<longleftrightarrow> (\<exists>t lr tr. c = EntityCache t lr tr)"
| "data_fits w DEntityMut c \<longleftrightarrow> (\<exists>t lr tr. c = EntityCache t lr tr)"
| "data_fits w (DRef x) c \<longleftrightarrow> (\<exists>t. c = ColumnCache t)"
| "data_fits w (DOptRef x) c \<longleftrightarrow> (\<exists>t. c = ColumnCache t)"
| "data_fits w (DTuple ds) c \<longleftrightarrow> (\<exists>cs. c = DataCaches cs \<and> list_all2 (data_fits w) ds cs)"
| "data_fits w d c \<longleftrightarrow> (\<exists>t lr tr. c = ViewCache t lr tr)"

lemma data_build_fits: "data_fits w d (data_build_cache d w lr tr)"
  by (induction d) (auto simp: list_all2_conv_all_nth)

definition world_ready :: "entities \<Rightarrow> 'v table \<Rightarrow> bool" where
  "world_ready w t \<longleftrightarrow> table_ready t \<and> (\<forall>x \<in> set (t_entities t). alive w x)"

lemma fetch_column:
  assumes "table_ready t" "find_column t c = Some col" "i < length (t_entities t)"
  shows "fetch_value col (of_nat i) = Some (value_item col i)"
    "fetch_ticked col (of_nat i) = Some (ticked_item col i)"
proof -
  have col: "col \<in> set (t_columns t)"
    using assms(1,2) find_column_iff(3) by (auto simp: table_ready_def)
  note full = column_row_full [OF assms(1) col assms(3)]
  have "unat (of_nat i :: u32) = i"
    using full(4) by (intro unat_of_nat_small) simp
  then show "fetch_value col (of_nat i) = Some (value_item col i)"
    "fetch_ticked col (of_nat i) = Some (ticked_item col i)"
    using full by (auto simp: fetch_value_def fetch_ticked_def value_item_def ticked_item_def column_defs)
qed

lemma fetch_node_alive: "alive w x \<Longrightarrow> fetch_node (e_nodes w) x = Some (slot w (index x))"
  using alive_node_at [of w x] by (auto simp: fetch_node_def alive_def node_at_def Let_def split: if_splits)

lemma fetch_handle_row:
  assumes "table_ready t" "i < length (t_entities t)"
  shows "fetch_handle (Some t) (t_entities t ! i) (of_nat i)
    = Some (ItemEntity (t_entities t ! i) \<lparr>table_id = t_id t, table_row = of_nat i\<rparr>)"
proof -
  have "unat (of_nat i :: u32) = i"
    using assms by (intro unat_of_nat_small) (auto simp: table_ready_def table_inv_def)
  then show ?thesis
    using assms(2) by (simp add: fetch_handle_def)
qed

lemma column_data:
  assumes "table_ready t" "i < length (t_entities t)"
  shows "required fetch_value (find_column t c) (of_nat i)
      = Some (if find_column t c = None then None else Some (column_item value_item t c i))"
    "required fetch_ticked (find_column t c) (of_nat i)
      = Some (if find_column t c = None then None else Some (column_item ticked_item t c i))"
    "optional fetch_value (find_column t c) (of_nat i) = Some (Some (column_item value_item t c i))"
    "optional fetch_ticked (find_column t c) (of_nat i) = Some (Some (column_item ticked_item t c i))"
  using fetch_column [OF assms(1) _ assms(2), of c]
  by (auto simp: required_def optional_def column_item_def split: option.splits)

lemma those_map_Some: "(\<And>x. x \<in> set xs \<Longrightarrow> g x = Some (h x)) \<Longrightarrow> those (map g xs) = Some (map h xs)"
  by (induction xs) auto

lemma world_ready_facts:
  assumes "world_ready w t"
  shows "table_ready t" "x \<in> set (t_entities t) \<Longrightarrow> alive w x"
    "(\<exists>y. find_column t c = Some y) \<longleftrightarrow> c \<in> set (t_components t)"
    "find_column t c = None \<longleftrightarrow> c \<notin> set (t_components t)"
  using assms find_column_iff(1) [of t c] by (auto simp: world_ready_def table_ready_def)

lemma map_fst_part: "length ys = length xs \<Longrightarrow> map (\<lambda>p. h (fst p)) (zip xs ys) = map h xs"
  by (rule nth_equalityI) simp_all

lemma data_update_serves:
  assumes "world_ready w t" "data_fits w d c" "data_update_table d c t = (m, c')"
  shows "data_fits w d c' \<and> (m \<longleftrightarrow> needs d \<subseteq> set (t_components t))
    \<and> (m \<longrightarrow> (\<forall>i < length (t_entities t).
         data_fetch d c' (t_entities t ! i) (of_nat i) = Some (Some (row_item w d t i))))"
  using assms(2,3)
proof (induction d arbitrary: c m c')
  case (DTuple ds)
  then obtain cs where cs: "c = DataCaches cs" "list_all2 (data_fits w) ds cs"
    by auto
  let ?rs = "map2 (\<lambda>d c. data_update_table d c t) ds cs"
  have res: "m = list_all fst ?rs" "c' = DataCaches (map snd ?rs)" "length cs = length ds"
    using DTuple.prems(2) cs by (auto simp: Let_def list_all2_lengthD)
  have part: "data_fits w (ds ! j) (snd (?rs ! j)) \<and> (fst (?rs ! j) \<longleftrightarrow> needs (ds ! j) \<subseteq> set (t_components t))
      \<and> (fst (?rs ! j) \<longrightarrow> (\<forall>i < length (t_entities t).
          data_fetch (ds ! j) (snd (?rs ! j)) (t_entities t ! i) (of_nat i) = Some (Some (row_item w (ds ! j) t i))))"
    if "j < length ds" for j
    using DTuple.IH [of "ds ! j" "cs ! j" "fst (?rs ! j)" "snd (?rs ! j)"] that cs(2) res(3)
    by (simp add: list_all2_conv_all_nth)
  have "data_fetch (DTuple ds) c' (t_entities t ! i) (of_nat i) = Some (Some (row_item w (DTuple ds) t i))"
    if m and i: "i < length (t_entities t)" for i
  proof -
    have one: "data_fetch (fst p) (snd p) (t_entities t ! i) (of_nat i) = Some (Some (row_item w (fst p) t i))"
      if "p \<in> set (zip ds (map snd ?rs))" for p
    proof -
      obtain j where "j < length ds" "fst p = ds ! j" "snd p = snd (?rs ! j)"
        using \<open>p \<in> _\<close> res(3) by (auto simp: in_set_zip)
      then show ?thesis
        using part [of j] \<open>m\<close> i res(1,3) by (simp add: list_all_length)
    qed
    have "those (map2 (\<lambda>d c. data_fetch d c (t_entities t ! i) (of_nat i)) ds (map snd ?rs))
        = Some (map (\<lambda>p. Some (row_item w (fst p) t i)) (zip ds (map snd ?rs)))"
    proof (rule those_map_Some)
      fix p
      assume "p \<in> set (zip ds (map snd ?rs))"
      from one [OF this] show "(case p of (d, c) \<Rightarrow> data_fetch d c (t_entities t ! i) (of_nat i))
          = Some (Some (row_item w (fst p) t i))"
        by (simp only: split_beta)
    qed
    moreover have "those (map (\<lambda>p. Some (row_item w (fst p) t i)) (zip ds (map snd ?rs)))
        = Some (map (\<lambda>p. row_item w (fst p) t i) (zip ds (map snd ?rs)))"
      by (rule those_map_Some) simp
    moreover have "map (\<lambda>p. row_item w (fst p) t i) (zip ds (map snd ?rs)) = map (\<lambda>d. row_item w d t i) ds"
      using res(3) by (intro map_fst_part) simp
    ultimately show ?thesis
      by (simp add: res(2))
  qed
  moreover
  have "m \<longleftrightarrow> (\<forall>j < length ds. needs (ds ! j) \<subseteq> set (t_components t))"
    using part res(1,3) by (simp add: list_all_length)
  then have "m \<longleftrightarrow> needs (DTuple ds) \<subseteq> set (t_components t)"
    by (simp add: UN_subset_iff all_set_conv_all_nth)
  moreover have "data_fits w (DTuple ds) c'"
    using part res(2,3) by (simp add: list_all2_conv_all_nth)
  ultimately show ?case by blast
qed (auto simp: world_ready_facts [OF assms(1)] fetch_node_alive parent_of_def children_of_def
    fetch_handle_row column_data)

section \<open>Iteration\<close>

definition table_rows ::
  "tick \<Rightarrow> tick \<Rightarrow> entities \<Rightarrow> query_data \<Rightarrow> query_filter \<Rightarrow> 'v table \<Rightarrow> 'v query_item list" where
  "table_rows lr tr w d f t = map (row_item w d t) (filter (row_sat lr tr f t) [0..<length (t_entities t)])"

text \<open>The caches of an iterator have been updated for table \<open>t\<close>, and the iterator is inside it.\<close>

definition inside ::
  "tick \<Rightarrow> tick \<Rightarrow> entities \<Rightarrow> query_data \<Rightarrow> query_filter \<Rightarrow> 'v table \<Rightarrow> 'v query_iter \<Rightarrow> bool" where
  "inside lr tr w d f t it \<longleftrightarrow> qi_entities it = t_entities t \<and> serves lr tr f (qi_f_cache it) True t
     \<and> (\<forall>i < length (t_entities t).
          data_fetch d (qi_d_cache it) (t_entities t ! i) (of_nat i) = Some (Some (row_item w d t i)))"

definition fits :: "tick \<Rightarrow> tick \<Rightarrow> entities \<Rightarrow> query_data \<Rightarrow> query_filter \<Rightarrow> 'v query_iter \<Rightarrow> bool" where
  "fits lr tr w d f it \<longleftrightarrow> cache_fits f lr tr (qi_f_cache it) \<and> data_fits w d (qi_d_cache it)"

lemma next_in_table:
  assumes "inside lr tr w d f t it" "qi_row it \<le> length (t_entities t)"
  shows "query_iter_next ts d f it =
    (case filter (row_sat lr tr f t) [qi_row it..<length (t_entities t)] of
       [] \<Rightarrow> query_iter_next ts d f (it\<lparr>qi_row := length (t_entities t)\<rparr>)
     | j # js \<Rightarrow> Some (Some (row_item w d t j), it\<lparr>qi_row := Suc j\<rparr>))"
  using assms
proof (induction "length (t_entities t) - qi_row it" arbitrary: it)
  case 0
  then have "it\<lparr>qi_row := length (t_entities t)\<rparr> = it" by simp
  then show ?case using 0 by simp
next
  case (Suc k)
  let ?r = "qi_row it"
  have lt: "?r < length (t_entities t)"
    using Suc.hyps(2) by simp
  have ent: "qi_entities it = t_entities t"
    and fetch: "data_fetch d (qi_d_cache it) (t_entities t ! ?r) (of_nat ?r) = Some (Some (row_item w d t ?r))"
    and row: "(if enable_entity_filter f then filter_row f (qi_f_cache it) (of_nat ?r) else Some True)
      = Some (row_sat lr tr f t ?r)"
    using Suc.prems(1) lt by (auto simp: inside_def serves_def)
  have step: "query_iter_next ts d f it =
      (if row_sat lr tr f t ?r then Some (Some (row_item w d t ?r), it\<lparr>qi_row := Suc ?r\<rparr>)
       else query_iter_next ts d f (it\<lparr>qi_row := Suc ?r\<rparr>))"
    using lt ent fetch row
    by (subst query_iter_next.simps; cases "row_sat lr tr f t ?r"; cases "enable_entity_filter f") (simp_all add: Let_def)
  have upt: "[?r..<length (t_entities t)] = ?r # [Suc ?r..<length (t_entities t)]"
    using lt by (rule upt_conv_Cons)
  show ?case
  proof (cases "row_sat lr tr f t ?r")
    case True
    then show ?thesis using step by (simp add: upt)
  next
    case False
    have "query_iter_next ts d f (it\<lparr>qi_row := Suc ?r\<rparr>) =
      (case filter (row_sat lr tr f t) [Suc ?r..<length (t_entities t)] of
         [] \<Rightarrow> query_iter_next ts d f (it\<lparr>qi_row := length (t_entities t)\<rparr>)
       | j # js \<Rightarrow> Some (Some (row_item w d t j), it\<lparr>qi_row := Suc j\<rparr>))"
      using Suc.hyps(1) [of "it\<lparr>qi_row := Suc ?r\<rparr>"] Suc.hyps(2) Suc.prems(1) lt
      by (simp add: inside_def split: list.splits)
    then show ?thesis using step False by (simp add: upt)
  qed
qed

definition storage_ok :: "tick \<Rightarrow> entities \<Rightarrow> query_data \<Rightarrow> query_filter \<Rightarrow> 'v table list \<Rightarrow> u32 \<Rightarrow> bool" where
  "storage_ok tr w d f ts i \<longleftrightarrow> unat i < length ts \<and> world_ready w (ts ! unat i)
     \<and> filter_ready tr f (ts ! unat i) \<and> needs d \<subseteq> set (t_components (ts ! unat i))"

lemma table_rows_Nil: "t_entities t = [] \<Longrightarrow> table_rows lr tr w d f t = []"
  by (simp add: table_rows_def)

lemma serves_none: "serves lr tr f c False t \<Longrightarrow> table_rows lr tr w d f t = []"
  by (auto simp: serves_def table_rows_def filter_empty_conv)

lemma next_storage_spec:
  assumes "fits lr tr w d f it" "\<forall>i \<in> set is. storage_ok tr w d f ts i"
  shows "\<exists>found it'. next_storage ts d f is it = Some (found, it')
    \<and> qi_row it' = qi_row it
    \<and> (if found then \<exists>t. fits lr tr w d f it' \<and> inside lr tr w d f t it' \<and> t_entities t \<noteq> []
           \<and> set (qi_storages it') \<subseteq> set is \<and> length (qi_storages it') < length is
           \<and> concat (map (\<lambda>i. table_rows lr tr w d f (ts ! unat i)) is)
             = table_rows lr tr w d f t @ concat (map (\<lambda>i. table_rows lr tr w d f (ts ! unat i)) (qi_storages it'))
       else concat (map (\<lambda>i. table_rows lr tr w d f (ts ! unat i)) is) = [])"
  using assms
proof (induction "is" arbitrary: it)
  case (Cons i "is")
  let ?t = "ts ! unat i" and ?it = "it\<lparr>qi_entities := t_entities (ts ! unat i)\<rparr>"
  have ok: "unat i < length ts" "world_ready w ?t" "filter_ready tr f ?t" "needs d \<subseteq> set (t_components ?t)"
    using Cons.prems(2) by (auto simp: storage_ok_def)
  show ?case
  proof (cases "t_entities ?t = []")
    case True
    have "fits lr tr w d f ?it"
      using Cons.prems(1) by (simp add: fits_def)
    then show ?thesis
      using Cons.IH [of ?it] Cons.prems(2) ok(1) True by (fastforce simp: table_rows_Nil Let_def)
  next
    case False
    obtain dm dc where du: "data_update_table d (qi_d_cache it) ?t = (dm, dc)"
      by fastforce
    note data = data_update_serves [OF ok(2) _ du]
    obtain fm fc where fu: "filter_update_table f (qi_f_cache it) ?t = Some (fm, fc)"
        "cache_fits f lr tr fc" "serves lr tr f fc fm ?t"
      using filter_update_serves [OF world_ready_facts(1) [OF ok(2)] ok(3)] Cons.prems(1) unfolding fits_def by blast
    let ?it2 = "it\<lparr>qi_entities := t_entities ?t, qi_d_cache := dc, qi_f_cache := fc\<rparr>"
    have dm: dm and fits: "fits lr tr w d f ?it2"
      using data Cons.prems(1) ok(4) fu(2) by (auto simp: fits_def)
    show ?thesis
    proof (cases fm)
      case True
      have "inside lr tr w d f ?t (?it2\<lparr>qi_storages := is\<rparr>)"
        using data dm fu(3) True Cons.prems(1) by (simp add: inside_def fits_def)
      moreover have "next_storage ts d f (i # is) it = Some (True, ?it2\<lparr>qi_storages := is\<rparr>)"
        using ok(1) False du fu(1) dm True by (simp add: Let_def)
      ultimately show ?thesis
        using fits False by (auto simp: fits_def)
    next
      case unmatched: False
      have "next_storage ts d f (i # is) it = next_storage ts d f is ?it2"
        using ok(1) False du fu(1) unmatched by (simp add: Let_def)
      then show ?thesis
        using Cons.IH [OF fits] Cons.prems(2) serves_none [of lr tr f fc ?t w d] fu(3) unmatched
        by (fastforce simp: less_Suc_eq)
    qed
  qed
qed auto

text \<open>The iterator still has to deliver \<open>items\<close>.\<close>

definition iter_at ::
  "tick \<Rightarrow> tick \<Rightarrow> entities \<Rightarrow> query_data \<Rightarrow> query_filter \<Rightarrow> 'v table list \<Rightarrow> 'v query_iter \<Rightarrow> 'v query_item list
     \<Rightarrow> bool" where
  "iter_at lr tr w d f ts it items \<longleftrightarrow> fits lr tr w d f it \<and> (\<forall>i \<in> set (qi_storages it). storage_ok tr w d f ts i)
     \<and> (\<exists>cur. items = cur @ concat (map (\<lambda>i. table_rows lr tr w d f (ts ! unat i)) (qi_storages it))
         \<and> (length (qi_entities it) \<le> qi_row it \<and> cur = []
            \<or> (\<exists>t. inside lr tr w d f t it \<and> qi_row it \<le> length (t_entities t)
                \<and> cur = map (row_item w d t) (filter (row_sat lr tr f t) [qi_row it..<length (t_entities t)]))))"

lemma next_at_end:
  assumes "length (qi_entities it) \<le> qi_row it" "update_slice ts d f it = Some (True, it1)"
    "qi_row it1 < length (qi_entities it1)"
  shows "query_iter_next ts d f it = query_iter_next ts d f it1"
  using assms by (subst (1 2) query_iter_next.simps) simp

definition yields where
  "yields lr tr w d f ts it items \<longleftrightarrow> (\<exists>it'. query_iter_next ts d f it
      = Some (case items of [] \<Rightarrow> None | x # xs \<Rightarrow> Some x, it')
    \<and> (items \<noteq> [] \<longrightarrow> iter_at lr tr w d f ts it' (tl items)))"

lemma filter_upt_Cons:
  assumes "filter P [a..<n] = j # js"
  shows "filter P [Suc j..<n] = js" "j < n"
proof -
  obtain us vs where "[a..<n] = us @ j # vs" "filter P vs = js"
    using assms by (auto simp: filter_eq_Cons_iff)
  then have "a + length us < n" "[a..<n] ! length us = j" "drop (Suc (length us)) [a..<n] = vs"
    by (auto simp: nth_append dest: arg_cong [of _ _ length])
  then show "filter P [Suc j..<n] = js" "j < n"
    using \<open>filter P vs = js\<close> by (auto simp: add.commute)
qed

lemma next_yields:
  assumes "iter_at lr tr w d f ts it items"
  shows "yields lr tr w d f ts it items"
  using assms
proof (induction "length (qi_storages it)" arbitrary: it items rule: less_induct)
  case less
  let ?rest = "concat (map (\<lambda>i. table_rows lr tr w d f (ts ! unat i)) (qi_storages it))"
  have ok: "fits lr tr w d f it" "\<forall>i \<in> set (qi_storages it). storage_ok tr w d f ts i"
    using less.prems by (auto simp: iter_at_def)
  have ended: "yields lr tr w d f ts (it\<lparr>qi_row := k\<rparr>) ?rest" if k: "length (qi_entities it) \<le> k" for k
  proof -
    obtain found it1 where n: "next_storage ts d f (qi_storages it) (it\<lparr>qi_row := 0\<rparr>) = Some (found, it1)"
      and row: "qi_row it1 = 0"
      and spec: "if found then \<exists>t. fits lr tr w d f it1 \<and> inside lr tr w d f t it1 \<and> t_entities t \<noteq> []
           \<and> set (qi_storages it1) \<subseteq> set (qi_storages it) \<and> length (qi_storages it1) < length (qi_storages it)
           \<and> ?rest = table_rows lr tr w d f t @ concat (map (\<lambda>i. table_rows lr tr w d f (ts ! unat i)) (qi_storages it1))
         else ?rest = []"
      using next_storage_spec [of lr tr w d f "it\<lparr>qi_row := 0\<rparr>" "qi_storages it" ts] ok
      by (auto simp: fits_def simp del: concat_eq_Nil_conv)
    have slice: "update_slice ts d f (it\<lparr>qi_row := k\<rparr>) = Some (found, it1)"
      using n by (simp add: update_slice_def)
    show ?thesis
    proof (cases found)
      case True
      then obtain t where t: "fits lr tr w d f it1" "inside lr tr w d f t it1" "t_entities t \<noteq> []"
        "set (qi_storages it1) \<subseteq> set (qi_storages it)" "length (qi_storages it1) < length (qi_storages it)"
        "?rest = table_rows lr tr w d f t @ concat (map (\<lambda>i. table_rows lr tr w d f (ts ! unat i)) (qi_storages it1))"
        using spec by auto
      have "iter_at lr tr w d f ts it1 ?rest"
        using t ok row unfolding iter_at_def table_rows_def by auto
      then have "yields lr tr w d f ts it1 ?rest"
        using t(5) less.hyps by blast
      moreover have "query_iter_next ts d f (it\<lparr>qi_row := k\<rparr>) = query_iter_next ts d f it1"
        using slice True k row t(2,3) by (intro next_at_end) (auto simp: inside_def)
      ultimately show ?thesis
        by (simp add: yields_def)
    next
      case False
      then have "query_iter_next ts d f (it\<lparr>qi_row := k\<rparr>) = Some (None, it1)"
        using slice k by (subst query_iter_next.simps) simp
      moreover have "?rest = []"
        using spec False by (simp only: if_False simp_thms)
      ultimately show ?thesis
        unfolding \<open>?rest = []\<close> yields_def by simp
    qed
  qed
  show ?case
  proof (cases "length (qi_entities it) \<le> qi_row it \<and> items = ?rest")
    case True
    have "it\<lparr>qi_row := qi_row it\<rparr> = it" by simp
    then show ?thesis
      using ended [of "qi_row it"] True by simp
  next
    case False
    then obtain t where t: "inside lr tr w d f t it" "qi_row it \<le> length (t_entities t)"
      "items = map (row_item w d t) (filter (row_sat lr tr f t) [qi_row it..<length (t_entities t)]) @ ?rest"
      using less.prems by (auto simp: iter_at_def)
    note nx = next_in_table [OF t(1,2), of ts]
    show ?thesis
    proof (cases "filter (row_sat lr tr f t) [qi_row it..<length (t_entities t)]")
      case Nil
      then have "query_iter_next ts d f it = query_iter_next ts d f (it\<lparr>qi_row := length (t_entities t)\<rparr>)" "items = ?rest"
        using nx t(3) by simp_all
      then show ?thesis
        using ended [of "length (t_entities t)"] t(1) by (simp add: yields_def inside_def)
    next
      case (Cons j js)
      have "inside lr tr w d f t (it\<lparr>qi_row := Suc j\<rparr>)" "Suc j \<le> length (t_entities t)"
        "js = filter (row_sat lr tr f t) [Suc j..<length (t_entities t)]"
        using t(1) filter_upt_Cons [OF Cons] by (auto simp: inside_def)
      then have "iter_at lr tr w d f ts (it\<lparr>qi_row := Suc j\<rparr>) (map (row_item w d t) js @ ?rest)"
        using ok unfolding iter_at_def fits_def by auto
      then show ?thesis
        using nx t(3) Cons by (simp add: yields_def)
    qed
  qed
qed

lemma collect_yields:
  "iter_at lr tr w d f ts it items \<Longrightarrow> length items < n \<Longrightarrow> query_iter_collect n ts d f it = Some items"
proof (induction n arbitrary: it items)
  case (Suc n)
  obtain it' where it': "query_iter_next ts d f it = Some (case items of [] \<Rightarrow> None | x # xs \<Rightarrow> Some x, it')"
    "items \<noteq> [] \<longrightarrow> iter_at lr tr w d f ts it' (tl items)"
    using next_yields [OF Suc.prems(1)] by (auto simp: yields_def)
  then show ?case
    using Suc.IH [of it' "tl items"] Suc.prems(2) by (cases items) auto
qed simp

lemma row_sat_sat: "table_inv t \<Longrightarrow> row_sat lr tr f t i \<Longrightarrow> sat f (set (t_components t))"
proof (induction f)
  case (FChanged s c)
  then show ?case using find_column_iff(1) [of t c] by auto
next
  case (FAdded s c)
  then show ?case using find_column_iff(1) [of t c] by auto
qed auto

lemma unvisited_rows:
  assumes "table_inv t" "needs d \<subseteq> set (t_components t)" "\<not> visits d f t"
  shows "table_rows lr tr w d f t = []"
  using assms row_sat_sat [OF assms(1), of lr tr f] by (auto simp: visits_def table_rows_def filter_empty_conv)

lemma concat_map_filter:
  "(\<And>x. x \<in> set xs \<Longrightarrow> Q x \<Longrightarrow> \<not> P x \<Longrightarrow> g x = []) \<Longrightarrow> (\<And>x. P x \<Longrightarrow> Q x) \<Longrightarrow>
     concat (map g (filter P xs)) = concat (map g (filter Q xs))"
  by (induction xs) auto

lemma map_nth_filter: "map ((!) xs) (filter (\<lambda>i. P (xs ! i)) [0..<length xs]) = filter P xs"
proof -
  have "filter P xs = filter P (map ((!) xs) [0..<length xs])"
    by (simp only: map_nth)
  then show ?thesis
    by (simp add: filter_map comp_def)
qed

section \<open>Properties\<close>


definition lone_entities :: entities where
  "lone_entities = \<lparr>e_root = {new_id 1 1},
     e_nodes = [DEFAULT_NODE, DEFAULT_NODE\<lparr>n_location := Some \<lparr>table_id = 1, table_row = 0\<rparr>\<rparr>],
     e_labeled = Map.empty\<rparr>"

lemma busy_ready: "world_ready lone_entities busy_table"
  by (simp add: world_ready_def table_ready_def table_inv_def busy_table_def col_ok_def row_full_def item_full_def
      item_def rows_def alive_def slot_def node_at_def lone_entities_def)

lemma busy_parts: "t_components busy_table = [7]" "t_entities busy_table = [new_id 1 1]"
  by (simp_all add: busy_table_def)



end
