(* ===== verification/Access_Table.thy ===== *)
theory Access_Table
  imports Query_Rows
begin

text \<open>
  Access tables (\<^verbatim>\<open>zlim-core/src/system/access/table.rs\<close>): everything a system may touch, and the test
  whether two systems may run at the same time. The specification reads a table as two sets of cells, a cell being
  a resource or one component of the entities with a given component set.
\<close>

section \<open>Tables and their operations\<close>

text \<open>
  The hash map from filter descriptors to summaries is an association list with distinct keys;
  nothing depends on its order.
\<close>

datatype 'b access_table =
    WorldMut
  | WorldRef
  | Normal 'b 'b "(filter_param \<times> 'b component_access) list"

definition access_table_new :: "'b bitset_ops \<Rightarrow> 'b access_table" where
  "access_table_new B = Normal (bs_new B) (bs_new B) []"

definition all_readonly :: "'b bitset_ops \<Rightarrow> (filter_param \<times> 'b component_access) list \<Rightarrow> bool" where
  "all_readonly B cs = list_all (\<lambda>(k, v). is_readonly B v) cs"

fun set_world_mut :: "'b bitset_ops \<Rightarrow> 'b access_table \<Rightarrow> bool \<times> 'b access_table" where
  "set_world_mut B WorldMut = (False, WorldMut)"
| "set_world_mut B WorldRef = (False, WorldRef)"
| "set_world_mut B (Normal r w cs) =
     (if cs = [] \<and> bs_is_clear B r \<and> bs_is_clear B w then (True, WorldMut) else (False, Normal r w cs))"

fun set_world_ref :: "'b bitset_ops \<Rightarrow> 'b access_table \<Rightarrow> bool \<times> 'b access_table" where
  "set_world_ref B WorldMut = (False, WorldMut)"
| "set_world_ref B WorldRef = (True, WorldRef)"
| "set_world_ref B (Normal r w cs) =
     (if bs_is_clear B w \<and> all_readonly B cs then (True, WorldRef) else (False, Normal r w cs))"

fun set_reading_res :: "'b bitset_ops \<Rightarrow> 'b access_table \<Rightarrow> u32 \<Rightarrow> bool \<times> 'b access_table" where
  "set_reading_res B WorldMut i = (False, WorldMut)"
| "set_reading_res B WorldRef i = (True, WorldRef)"
| "set_reading_res B (Normal r w cs) i =
     (if bs_contains B w (unat i) then (False, Normal r w cs)
      else (True, Normal (bs_grow_and_insert B r (unat i)) w cs))"

fun set_writing_res :: "'b bitset_ops \<Rightarrow> 'b access_table \<Rightarrow> u32 \<Rightarrow> bool \<times> 'b access_table" where
  "set_writing_res B WorldMut i = (False, WorldMut)"
| "set_writing_res B WorldRef i = (True, WorldRef)"
| "set_writing_res B (Normal r w cs) i =
     (if bs_contains B r (unat i) then (False, Normal r w cs)
      else (True, Normal (bs_grow_and_insert B r (unat i)) (bs_grow_and_insert B w (unat i)) cs))"

text \<open>Merging into the bucket of a descriptor, or making a new bucket.\<close>

definition merge_bucket ::
  "'b bitset_ops \<Rightarrow> 'b component_access \<Rightarrow> filter_param \<Rightarrow> (filter_param \<times> 'b component_access) list
     \<Rightarrow> (filter_param \<times> 'b component_access) list" where
  "merge_bucket B data param cs =
     (if param \<in> fst ` set cs
      then map (\<lambda>(k, v). (k, if k = param then merge_with B v data else v)) cs
      else cs @ [(param, data)])"

fun set_component_access ::
  "'b bitset_ops \<Rightarrow> 'b access_table \<Rightarrow> 'b component_access \<Rightarrow> filter_param list \<Rightarrow> bool \<times> 'b access_table" where
  "set_component_access B WorldMut data filters = (False, WorldMut)"
| "set_component_access B WorldRef data filters = (is_readonly B data, WorldRef)"
| "set_component_access B (Normal r w cs) data filters =
     (if list_all (\<lambda>param. list_all (\<lambda>(k, v). param_is_disjoint k param \<or> ca_parallelizable B data v) cs) filters
      then (True, Normal r w (fold (merge_bucket B data) filters cs))
      else (False, Normal r w cs))"

definition merge_world_mut :: "'b access_table \<Rightarrow> 'b access_table" where
  "merge_world_mut t = WorldMut"

fun merge_world_ref :: "'b bitset_ops \<Rightarrow> 'b access_table \<Rightarrow> 'b access_table" where
  "merge_world_ref B (Normal r w cs) = (if bs_is_clear B w \<and> all_readonly B cs then WorldRef else WorldMut)"
| "merge_world_ref B t = t"

fun merge_reading_res :: "'b bitset_ops \<Rightarrow> 'b access_table \<Rightarrow> u32 \<Rightarrow> 'b access_table" where
  "merge_reading_res B (Normal r w cs) i = Normal (bs_grow_and_insert B r (unat i)) w cs"
| "merge_reading_res B t i = t"

fun merge_writing_res :: "'b bitset_ops \<Rightarrow> 'b access_table \<Rightarrow> u32 \<Rightarrow> 'b access_table" where
  "merge_writing_res B WorldMut i = WorldMut"
| "merge_writing_res B WorldRef i = WorldMut"
| "merge_writing_res B (Normal r w cs) i =
     Normal (bs_grow_and_insert B r (unat i)) (bs_grow_and_insert B w (unat i)) cs"

fun merge_component_access ::
  "'b bitset_ops \<Rightarrow> 'b access_table \<Rightarrow> 'b component_access \<Rightarrow> filter_param list \<Rightarrow> 'b access_table" where
  "merge_component_access B WorldMut data filters = WorldMut"
| "merge_component_access B WorldRef data filters = WorldMut"
| "merge_component_access B (Normal r w cs) data filters = Normal r w (fold (merge_bucket B data) filters cs)"

text \<open>The registering operations; the log message of the strict mode is left out.\<close>

definition register_world_mut :: "'b bitset_ops \<Rightarrow> 'b access_table \<Rightarrow> bool \<times> 'b access_table" where
  "register_world_mut B t =
     (case set_world_mut B t of (ok, t1) \<Rightarrow> (ok, if \<not> ok then merge_world_mut t1 else t1))"

definition register_world_ref :: "'b bitset_ops \<Rightarrow> 'b access_table \<Rightarrow> bool \<times> 'b access_table" where
  "register_world_ref B t =
     (case set_world_ref B t of (ok, t1) \<Rightarrow> (ok, if \<not> ok then merge_world_ref B t1 else t1))"

definition register_reading_res :: "'b bitset_ops \<Rightarrow> 'b access_table \<Rightarrow> u32 \<Rightarrow> bool \<times> 'b access_table" where
  "register_reading_res B t i =
     (case set_reading_res B t i of (ok, t1) \<Rightarrow> (ok, if \<not> ok then merge_reading_res B t1 i else t1))"

definition register_writing_res :: "'b bitset_ops \<Rightarrow> 'b access_table \<Rightarrow> u32 \<Rightarrow> bool \<times> 'b access_table" where
  "register_writing_res B t i =
     (case set_writing_res B t i of (ok, t1) \<Rightarrow> (ok, if \<not> ok then merge_writing_res B t1 i else t1))"

definition register_component_access ::
  "'b bitset_ops \<Rightarrow> 'b access_table \<Rightarrow> 'b component_access \<Rightarrow> filter_param list \<Rightarrow> bool \<times> 'b access_table" where
  "register_component_access B t data filters =
     (case set_component_access B t data filters of
        (ok, t1) \<Rightarrow> (ok, if \<not> ok then merge_component_access B t1 data filters else t1))"

text \<open>\<^verbatim>\<open>QueryState::register_access\<close>; no filter type of the crate edits the table any further.\<close>

definition query_register_access :: "'b bitset_ops \<Rightarrow> 'b query_state \<Rightarrow> 'b access_table \<Rightarrow> bool \<times> 'b access_table" where
  "query_register_access B q t =
     (case t of WorldMut \<Rightarrow> (False, WorldMut)
      | _ \<Rightarrow> register_component_access B t (qs_access_data q) (qs_access_filter q))"

fun at_parallelizable :: "'b bitset_ops \<Rightarrow> 'b access_table \<Rightarrow> 'b access_table \<Rightarrow> bool" where
  "at_parallelizable B WorldMut u = False"
| "at_parallelizable B t WorldMut = False"
| "at_parallelizable B WorldRef WorldRef = True"
| "at_parallelizable B WorldRef (Normal r w cs) = (bs_is_clear B w \<and> all_readonly B cs)"
| "at_parallelizable B (Normal r w cs) WorldRef = (bs_is_clear B w \<and> all_readonly B cs)"
| "at_parallelizable B (Normal r1 w1 c1) (Normal r2 w2 c2) =
     (bs_is_disjoint B w1 r2 \<and> bs_is_disjoint B w2 r1
      \<and> list_all (\<lambda>(k, v). list_all (\<lambda>(x, y). param_is_disjoint k x \<or> ca_parallelizable B v y) c2) c1)"

fun at_merge :: "'b bitset_ops \<Rightarrow> 'b access_table \<Rightarrow> 'b access_table \<Rightarrow> 'b access_table" where
  "at_merge B WorldMut u = WorldMut"
| "at_merge B t WorldMut = WorldMut"
| "at_merge B WorldRef WorldRef = WorldRef"
| "at_merge B WorldRef (Normal r w cs) =
     (if \<not> bs_is_clear B w \<or> \<not> all_readonly B cs then WorldMut else WorldRef)"
| "at_merge B (Normal r w cs) WorldRef =
     (if bs_is_clear B w \<and> all_readonly B cs then WorldRef else WorldMut)"
| "at_merge B (Normal r1 w1 c1) (Normal r2 w2 c2) =
     Normal (bs_union_with B r1 r2) (bs_union_with B w1 w2)
       (fold (\<lambda>(param, data). merge_bucket B data param) c2 c1)"

section \<open>Cells\<close>

datatype cell = Resource nat | Cell "u32 set" nat

definition bucket_cells :: "('b component_access \<Rightarrow> nat set) \<Rightarrow> filter_param \<times> 'b component_access \<Rightarrow> cell set" where
  "bucket_cells g b = {Cell A c | A c. param_matches (fst b) A \<and> c \<in> g (snd b)}"

fun at_reads :: "'b bitset_ops \<Rightarrow> 'b access_table \<Rightarrow> cell set" where
  "at_reads B (Normal r w cs) = Resource ` els B r \<union> (\<Union>b \<in> set cs. bucket_cells (ca_reads B) b)"
| "at_reads B t = UNIV"

fun at_writes :: "'b bitset_ops \<Rightarrow> 'b access_table \<Rightarrow> cell set" where
  "at_writes B WorldMut = UNIV"
| "at_writes B WorldRef = {}"
| "at_writes B (Normal r w cs) = Resource ` els B w \<union> (\<Union>b \<in> set cs. bucket_cells (ca_writes B) b)"

definition bucket_ok :: "'b bitset_ops \<Rightarrow> filter_param \<times> 'b component_access \<Rightarrow> bool" where
  "bucket_ok B b \<longleftrightarrow> param_ok (fst b) \<and> ca_wf B (snd b)"

fun at_wf :: "'b bitset_ops \<Rightarrow> 'b access_table \<Rightarrow> bool" where
  "at_wf B (Normal r w cs) \<longleftrightarrow> els B w \<subseteq> els B r \<and> list_all (bucket_ok B) cs \<and> distinct (map fst cs)"
| "at_wf B t \<longleftrightarrow> True"

fun exclusive :: "'b access_table \<Rightarrow> bool" where
  "exclusive WorldMut \<longleftrightarrow> True"
| "exclusive WorldRef \<longleftrightarrow> False"
| "exclusive (Normal r w cs) \<longleftrightarrow> EntityMut \<in> snd ` set cs"

text \<open>Two sets of accesses that must not happen at the same time.\<close>

definition clash :: "'a set \<Rightarrow> 'a set \<Rightarrow> 'a set \<Rightarrow> 'a set \<Rightarrow> bool" where
  "clash r1 w1 r2 w2 \<longleftrightarrow> w1 \<inter> r2 \<noteq> {} \<or> w2 \<inter> r1 \<noteq> {}"

lemma bucket_param_matches: "param_ok p \<Longrightarrow> param_matches p (set (param_with p))"
  by (auto simp: param_matches_def param_ok_def)

lemma bucket_cells_empty: "param_ok (fst b) \<Longrightarrow> bucket_cells g b = {} \<longleftrightarrow> g (snd b) = {}"
  using bucket_param_matches [of "fst b"] by (auto simp: bucket_cells_def)

lemma bucket_cells_disjoint:
  assumes "param_ok (fst b)" "param_ok (fst c)"
  shows "bucket_cells g b \<inter> bucket_cells h c = {} \<longleftrightarrow>
    param_is_disjoint (fst b) (fst c) \<or> g (snd b) \<inter> h (snd c) = {}"
  unfolding param_is_disjoint_iff [OF assms] by (auto simp: bucket_cells_def)

section \<open>The parallel test\<close>

context fixed_bitset
begin

lemma all_readonly_iff: "all_readonly B cs \<longleftrightarrow> (\<forall>b \<in> set cs. ca_writes B (snd b) = {})"
  by (auto simp: all_readonly_def list_all_iff readonly_iff split: prod.splits)

lemma no_writes_iff:
  assumes "at_wf B (Normal r w cs)"
  shows "bs_is_clear B w \<and> all_readonly B cs \<longleftrightarrow> at_writes B (Normal r w cs) = {}"
  using assms by (auto simp: clear_iff all_readonly_iff bucket_cells_empty list_all_iff bucket_ok_def)

lemma normal_parallel:
  assumes "at_wf B (Normal r1 w1 c1)" "at_wf B (Normal r2 w2 c2)"
  shows "at_parallelizable B (Normal r1 w1 c1) (Normal r2 w2 c2) \<longleftrightarrow>
    els B w1 \<inter> els B r2 = {} \<and> els B w2 \<inter> els B r1 = {}
    \<and> (\<forall>b \<in> set c1. \<forall>c \<in> set c2. param_is_disjoint (fst b) (fst c) \<or> ca_parallelizable B (snd b) (snd c))"
  by (simp add: disjoint_iff list_all_iff split_def)

lemma bucket_clash:
  assumes "bucket_ok B b" "bucket_ok B c"
  shows "clash (bucket_cells (ca_reads B) b) (bucket_cells (ca_writes B) b)
      (bucket_cells (ca_reads B) c) (bucket_cells (ca_writes B) c)
    \<longleftrightarrow> \<not> param_is_disjoint (fst b) (fst c)
        \<and> clash (ca_reads B (snd b)) (ca_writes B (snd b)) (ca_reads B (snd c)) (ca_writes B (snd c))"
  using assms param_is_disjoint_sym [of "fst b" "fst c"]
  by (auto simp: clash_def bucket_cells_disjoint bucket_ok_def)

lemma ca_parallel_clash:
  "ca_parallelizable B a b \<longleftrightarrow> a \<noteq> EntityMut \<and> b \<noteq> EntityMut
     \<and> \<not> clash (ca_reads B a) (ca_writes B a) (ca_reads B b) (ca_writes B b)"
  by (auto simp: parallelizable_iff clash_def)

lemma resource_cells [simp]:
  "Resource ` R \<inter> Resource ` S = {} \<longleftrightarrow> R \<inter> S = {}" "Resource ` R \<inter> bucket_cells g b = {}"
  "bucket_cells g b \<inter> Resource ` R = {}"
  by (auto simp: bucket_cells_def)

lemma clash_normal:
  "clash (at_reads B (Normal r1 w1 c1)) (at_writes B (Normal r1 w1 c1))
      (at_reads B (Normal r2 w2 c2)) (at_writes B (Normal r2 w2 c2))
    \<longleftrightarrow> els B w1 \<inter> els B r2 \<noteq> {} \<or> els B w2 \<inter> els B r1 \<noteq> {}
      \<or> (\<exists>b \<in> set c1. \<exists>c \<in> set c2. clash (bucket_cells (ca_reads B) b) (bucket_cells (ca_writes B) b)
           (bucket_cells (ca_reads B) c) (bucket_cells (ca_writes B) c))"
proof -
  have dist: "(Resource ` R \<union> (\<Union>b \<in> set bs. bucket_cells g b)) \<inter> (Resource ` S \<union> (\<Union>c \<in> set cs. bucket_cells h c)) = {}
      \<longleftrightarrow> R \<inter> S = {} \<and> (\<forall>b \<in> set bs. \<forall>c \<in> set cs. bucket_cells g b \<inter> bucket_cells h c = {})" for R S bs cs g h
  proof -
    have union: "(X \<union> Y) \<inter> (V \<union> Z) = {} \<longleftrightarrow> X \<inter> V = {} \<and> X \<inter> Z = {} \<and> Y \<inter> V = {} \<and> Y \<inter> Z = {}"
      for X Y V Z :: "cell set"
      by blast
    have "Resource ` R \<inter> (\<Union>c \<in> set cs. bucket_cells h c) = {}" "(\<Union>b \<in> set bs. bucket_cells g b) \<inter> Resource ` S = {}"
      by (auto simp: bucket_cells_def)
    moreover have "(\<Union>b \<in> set bs. bucket_cells g b) \<inter> (\<Union>c \<in> set cs. bucket_cells h c) = {}
        \<longleftrightarrow> (\<forall>b \<in> set bs. \<forall>c \<in> set cs. bucket_cells g b \<inter> bucket_cells h c = {})"
      by blast
    ultimately show ?thesis
      unfolding union by simp
  qed
  show ?thesis
    unfolding clash_def at_reads.simps at_writes.simps dist by blast
qed

lemma parallel_exact:
  assumes "at_wf B t" "at_wf B u"
  shows "at_parallelizable B t u \<Longrightarrow> \<not> clash (at_reads B t) (at_writes B t) (at_reads B u) (at_writes B u)"
    "\<not> at_parallelizable B t u \<Longrightarrow> exclusive t \<or> exclusive u
       \<or> clash (at_reads B t) (at_writes B t) (at_reads B u) (at_writes B u)"
proof -
  have "(at_parallelizable B t u \<longrightarrow> \<not> clash (at_reads B t) (at_writes B t) (at_reads B u) (at_writes B u))
    \<and> (\<not> at_parallelizable B t u \<longrightarrow> exclusive t \<or> exclusive u
       \<or> clash (at_reads B t) (at_writes B t) (at_reads B u) (at_writes B u))"
  proof (cases t)
    case WorldMut
    then show ?thesis by simp
  next
    case WorldRef
    then show ?thesis
      using assms no_writes_iff
      by (cases u) (auto simp: clash_def simp del: at_writes.simps(3))
  next
    case t: (Normal r1 w1 c1)
    show ?thesis
    proof (cases u)
      case WorldMut
      then show ?thesis by (simp add: t)
    next
      case WorldRef
      then show ?thesis
        using assms no_writes_iff t by (auto simp: clash_def simp del: at_writes.simps(3))
    next
      case u: (Normal r2 w2 c2)
      have ok: "bucket_ok B b" if "b \<in> set c1 \<union> set c2" for b
        using assms that t u by (auto simp: list_all_iff)
      have ex: "exclusive t \<longleftrightarrow> (\<exists>b \<in> set c1. snd b = EntityMut)" "exclusive u \<longleftrightarrow> (\<exists>b \<in> set c2. snd b = EntityMut)"
        by (force simp: t u)+
      have "clash (at_reads B t) (at_writes B t) (at_reads B u) (at_writes B u)
        \<longleftrightarrow> els B w1 \<inter> els B r2 \<noteq> {} \<or> els B w2 \<inter> els B r1 \<noteq> {}
        \<or> (\<exists>b \<in> set c1. \<exists>c \<in> set c2. \<not> param_is_disjoint (fst b) (fst c)
            \<and> clash (ca_reads B (snd b)) (ca_writes B (snd b)) (ca_reads B (snd c)) (ca_writes B (snd c)))"
        using bucket_clash [OF ok ok] unfolding t u clash_normal by blast
      moreover have "at_parallelizable B t u \<longleftrightarrow> els B w1 \<inter> els B r2 = {} \<and> els B w2 \<inter> els B r1 = {}
        \<and> (\<forall>b \<in> set c1. \<forall>c \<in> set c2. param_is_disjoint (fst b) (fst c) \<or> ca_parallelizable B (snd b) (snd c))"
        using normal_parallel assms unfolding t u by blast
      ultimately show ?thesis
        unfolding ex ca_parallel_clash by blast
    qed
  qed
  then show "at_parallelizable B t u \<Longrightarrow> \<not> clash (at_reads B t) (at_writes B t) (at_reads B u) (at_writes B u)"
    "\<not> at_parallelizable B t u \<Longrightarrow> exclusive t \<or> exclusive u
       \<or> clash (at_reads B t) (at_writes B t) (at_reads B u) (at_writes B u)"
    by blast+
qed

end

section \<open>Registration\<close>

text \<open>What a parameter of a system asks for: the world, a resource, or a query.\<close>

datatype 'b request =
    NeedWorldMut
  | NeedWorldRef
  | NeedRes u32
  | NeedResMut u32
  | NeedQuery "'b component_access" "filter_param list"

fun register :: "'b bitset_ops \<Rightarrow> 'b access_table \<Rightarrow> 'b request \<Rightarrow> bool \<times> 'b access_table" where
  "register B t NeedWorldMut = register_world_mut B t"
| "register B t NeedWorldRef = register_world_ref B t"
| "register B t (NeedRes i) = register_reading_res B t i"
| "register B t (NeedResMut i) = register_writing_res B t i"
| "register B t (NeedQuery a fs) = register_component_access B t a fs"

fun req_reads :: "'b bitset_ops \<Rightarrow> 'b request \<Rightarrow> cell set" where
  "req_reads B NeedWorldMut = UNIV"
| "req_reads B NeedWorldRef = UNIV"
| "req_reads B (NeedRes i) = {Resource (unat i)}"
| "req_reads B (NeedResMut i) = {Resource (unat i)}"
| "req_reads B (NeedQuery a fs) = (\<Union>p \<in> set fs. bucket_cells (ca_reads B) (p, a))"

fun req_writes :: "'b bitset_ops \<Rightarrow> 'b request \<Rightarrow> cell set" where
  "req_writes B NeedWorldMut = UNIV"
| "req_writes B NeedWorldRef = {}"
| "req_writes B (NeedRes i) = {}"
| "req_writes B (NeedResMut i) = {Resource (unat i)}"
| "req_writes B (NeedQuery a fs) = (\<Union>p \<in> set fs. bucket_cells (ca_writes B) (p, a))"

fun req_ok :: "'b bitset_ops \<Rightarrow> 'b request \<Rightarrow> bool" where
  "req_ok B (NeedQuery a fs) \<longleftrightarrow> ca_wf B a \<and> list_all param_ok fs"
| "req_ok B r \<longleftrightarrow> True"

text \<open>
  The two requests that registration loses: a write to a resource by a system that already reads the
  whole world, and exclusive entities under a descriptor that already has a bucket.
\<close>

fun loses :: "'b access_table \<Rightarrow> 'b request \<Rightarrow> bool" where
  "loses WorldRef (NeedResMut i) \<longleftrightarrow> True"
| "loses (Normal r w cs) (NeedQuery EntityMut fs) \<longleftrightarrow> (\<exists>(p, a) \<in> set cs. p \<in> set fs \<and> a \<noteq> EntityMut)"
| "loses t r \<longleftrightarrow> False"

lemmas register_table_defs = register_world_mut_def register_world_ref_def register_reading_res_def
  register_writing_res_def register_component_access_def merge_world_mut_def

lemma bucket_cells_mono: "g (snd b) \<subseteq> h (snd c) \<Longrightarrow> fst b = fst c \<Longrightarrow> bucket_cells g b \<subseteq> bucket_cells h c"
  by (auto simp: bucket_cells_def)

text \<open>A reading of summaries that merging never shrinks, and that covers the merged part unless that is a dropped \<open>EntityMut\<close>.\<close>

definition merges :: "'b bitset_ops \<Rightarrow> ('b component_access \<Rightarrow> nat set) \<Rightarrow> bool" where
  "merges B g \<longleftrightarrow> (\<forall>a b. g a \<subseteq> g (merge_with B a b) \<and> (b \<noteq> EntityMut \<or> a = EntityMut \<longrightarrow> g b \<subseteq> g (merge_with B a b)))"

lemma merge_bucket_covers:
  assumes "merges B g" "data = EntityMut \<longrightarrow> (\<forall>a. (p, a) \<in> set cs \<longrightarrow> a = EntityMut)"
  shows "(\<Union>b \<in> set cs. bucket_cells g b) \<union> bucket_cells g (p, data)
    \<subseteq> (\<Union>b \<in> set (merge_bucket B data p cs). bucket_cells g b)"
proof (cases "p \<in> fst ` set cs")
  case False
  then show ?thesis by (auto simp: merge_bucket_def)
next
  case True
  let ?f = "\<lambda>(k, v). (k, if k = p then merge_with B v data else v)"
  have set: "set (merge_bucket B data p cs) = ?f ` set cs"
    using True by (simp add: merge_bucket_def)
  have "bucket_cells g b \<subseteq> bucket_cells g (?f b)" for b
  proof (rule bucket_cells_mono)
    show "g (snd b) \<subseteq> g (snd (?f b))" "fst b = fst (?f b)"
      using assms(1) by (cases b; simp add: merges_def)+
  qed
  then have "(\<Union>b \<in> set cs. bucket_cells g b) \<subseteq> (\<Union>b \<in> ?f ` set cs. bucket_cells g b)"
    by blast
  moreover obtain a where a: "(p, a) \<in> set cs"
    using True by auto
  have "g data \<subseteq> g (merge_with B a data)"
    using assms a unfolding merges_def by blast
  then have "bucket_cells g (p, data) \<subseteq> bucket_cells g (?f (p, a))"
    by (intro bucket_cells_mono) simp_all
  then have "bucket_cells g (p, data) \<subseteq> (\<Union>b \<in> ?f ` set cs. bucket_cells g b)"
    using a by blast
  ultimately show ?thesis
    unfolding set by blast
qed

lemma merge_bucket_exclusive:
  assumes "\<forall>q a. q \<in> Q \<longrightarrow> (q, a) \<in> set cs \<longrightarrow> a = EntityMut" "(q, a) \<in> set (merge_bucket B EntityMut p cs)" "q \<in> Q"
  shows "a = EntityMut"
proof -
  have "(q, a) \<in> set cs \<or> a = EntityMut \<or> (\<exists>v. (q, v) \<in> set cs \<and> a = merge_with B v EntityMut)"
    using assms(2) by (auto simp: merge_bucket_def split: if_splits)
  then show ?thesis
    using assms(1,3) by (metis merge_with.simps(1))
qed

lemma fold_merge_covers:
  assumes "merges B g" "data = EntityMut \<longrightarrow> (\<forall>q a. q \<in> set ps \<longrightarrow> (q, a) \<in> set cs \<longrightarrow> a = EntityMut)"
  shows "(\<Union>b \<in> set cs. bucket_cells g b) \<union> (\<Union>p \<in> set ps. bucket_cells g (p, data))
    \<subseteq> (\<Union>b \<in> set (fold (merge_bucket B data) ps cs). bucket_cells g b)"
  using assms(2)
proof (induction ps arbitrary: cs)
  case (Cons p ps)
  have step: "X \<union> (Y \<union> P) \<subseteq> F" if "X \<union> Y \<subseteq> M" "M \<union> P \<subseteq> F" for X Y M P F :: "cell set"
    using that by blast
  have one: "(\<Union>b \<in> set cs. bucket_cells g b) \<union> bucket_cells g (p, data)
      \<subseteq> (\<Union>b \<in> set (merge_bucket B data p cs). bucket_cells g b)"
  proof (rule merge_bucket_covers [OF assms(1)])
    show "data = EntityMut \<longrightarrow> (\<forall>a. (p, a) \<in> set cs \<longrightarrow> a = EntityMut)"
      using Cons.prems unfolding list.set by blast
  qed
  have "data = EntityMut \<longrightarrow>
      (\<forall>q a. q \<in> set ps \<longrightarrow> (q, a) \<in> set (merge_bucket B data p cs) \<longrightarrow> a = EntityMut)"
  proof (intro impI allI)
    fix q a
    assume q: "data = EntityMut" "q \<in> set ps" "(q, a) \<in> set (merge_bucket B data p cs)"
    have "\<forall>q a. q \<in> set ps \<longrightarrow> (q, a) \<in> set cs \<longrightarrow> a = EntityMut"
      using Cons.prems q(1) unfolding list.set by blast
    then show "a = EntityMut"
      using q merge_bucket_exclusive [of "set ps" cs q a B p] by blast
  qed
  from step [OF one Cons.IH [OF this]] show ?case
    by simp
qed simp

lemma merge_bucket_keys: "distinct (map fst (merge_bucket B data p cs)) \<longleftrightarrow> distinct (map fst cs)"
proof (cases "p \<in> fst ` set cs")
  case True
  have "map fst (map (\<lambda>(k, v). (k, if k = p then merge_with B v data else v)) cs) = map fst cs"
    by (auto simp: split_def)
  then show ?thesis
    using True by (simp only: merge_bucket_def if_True)
next
  case False
  then show ?thesis by (simp add: merge_bucket_def)
qed

context fixed_bitset
begin

lemma merges_reads: "merges B (ca_reads B)" and merges_writes: "merges B (ca_writes B)"
proof -
  have "ca_reads B b \<subseteq> ca_reads B (merge_with B a b)" "ca_writes B b \<subseteq> ca_writes B (merge_with B a b)"
    if "b \<noteq> EntityMut \<or> a = EntityMut" for a b
    using that merge_with_effect [of b a] by (cases "a = EntityMut"; simp)+
  then show "merges B (ca_reads B)" "merges B (ca_writes B)"
    using merge_with_keeps by (simp_all add: merges_def)
qed

lemma merge_bucket_ok:
  assumes "list_all (bucket_ok B) cs" "bucket_ok B (p, data)"
  shows "list_all (bucket_ok B) (merge_bucket B data p cs)"
  using assms wf_kept(6) by (auto simp: merge_bucket_def bucket_ok_def list_all_iff)

lemma fold_merge_ok:
  assumes "list_all (bucket_ok B) cs" "distinct (map fst cs)" "ca_wf B data" "list_all param_ok ps"
  shows "list_all (bucket_ok B) (fold (merge_bucket B data) ps cs)"
    "distinct (map fst (fold (merge_bucket B data) ps cs))"
proof -
  have "list_all (bucket_ok B) (fold (merge_bucket B data) ps cs) \<and> distinct (map fst (fold (merge_bucket B data) ps cs))"
    using assms by (intro fold_keeps [where P = "\<lambda>cs. list_all (bucket_ok B) cs \<and> distinct (map fst cs)"])
      (auto intro: merge_bucket_ok simp: merge_bucket_keys list_all_iff [of param_ok] bucket_ok_def [of B "(_, data)"])
  then show "list_all (bucket_ok B) (fold (merge_bucket B data) ps cs)"
    "distinct (map fst (fold (merge_bucket B data) ps cs))"
    by simp_all
qed

lemma register_wf:
  assumes "at_wf B t" "req_ok B r"
  shows "at_wf B (snd (register B t r))"
  using assms
proof (cases r)
  case (NeedQuery a fs)
  then show ?thesis
    using assms fold_merge_ok [of _ a fs] by (cases t) (auto simp: register_table_defs)
qed (cases t; auto simp: register_table_defs set_laws)+

lemma register_covers:
  assumes "at_wf B t" "\<not> loses t r"
  shows "at_reads B t \<union> req_reads B r \<subseteq> at_reads B (snd (register B t r))"
    "at_writes B t \<union> req_writes B r \<subseteq> at_writes B (snd (register B t r))"
proof -
  have "at_reads B t \<union> req_reads B r \<subseteq> at_reads B (snd (register B t r))
    \<and> at_writes B t \<union> req_writes B r \<subseteq> at_writes B (snd (register B t r))"
  proof (cases r)
    case (NeedQuery a fs)
    show ?thesis
    proof (cases t)
      case (Normal rd wr cs)
      have "a = EntityMut \<longrightarrow> (\<forall>q b. q \<in> set fs \<longrightarrow> (q, b) \<in> set cs \<longrightarrow> b = EntityMut)"
        using assms(2) NeedQuery Normal by (cases a) auto
      note cover = fold_merge_covers [OF merges_reads this] fold_merge_covers [OF merges_writes this]
      have widen: "(R \<union> X) \<union> Y \<subseteq> R \<union> F" if "X \<union> Y \<subseteq> F" for R X Y F :: "cell set"
        using that by blast
      have "snd (register B t r) = Normal rd wr (fold (merge_bucket B a) fs cs)"
        by (simp add: NeedQuery Normal register_table_defs)
      then show ?thesis
        using widen [OF cover(1)] widen [OF cover(2)] NeedQuery Normal by simp
    next
      case WorldRef
      then show ?thesis
        using NeedQuery by (simp add: register_table_defs readonly_iff bucket_cells_def)
    qed (simp add: NeedQuery register_table_defs)
  next
    case (NeedResMut i)
    then show ?thesis
      using assms by (cases t) (auto simp: register_table_defs set_laws)
  next
    case NeedWorldRef
    then show ?thesis
      using assms no_writes_iff by (cases t) (auto simp: register_table_defs simp del: at_writes.simps(3))
  qed (cases t; auto simp: register_table_defs set_laws)+
  then show "at_reads B t \<union> req_reads B r \<subseteq> at_reads B (snd (register B t r))"
    "at_writes B t \<union> req_writes B r \<subseteq> at_writes B (snd (register B t r))"
    by blast+
qed

end

context fixed_bitset
begin

lemma register_accepts:
  assumes "at_wf B t" "req_ok B r" "\<not> loses t r" "fst (register B t r)"
  shows "\<not> clash (at_reads B t) (at_writes B t) (req_reads B r) (req_writes B r)"
proof (cases r)
  case (NeedQuery a fs)
  show ?thesis
  proof (cases t)
    case (Normal rd wr cs)
    have par: "param_is_disjoint (fst b) p \<or> ca_parallelizable B a (snd b)" if "b \<in> set cs" "p \<in> set fs" for b p
      using assms(4) NeedQuery Normal that by (auto simp: register_table_defs list_all_iff split_def split: if_splits)
    have "\<not> clash (bucket_cells (ca_reads B) b) (bucket_cells (ca_writes B) b)
        (bucket_cells (ca_reads B) (p, a)) (bucket_cells (ca_writes B) (p, a))" if "b \<in> set cs" "p \<in> set fs" for b p
    proof -
      have ok: "bucket_ok B b" "bucket_ok B (p, a)"
        using assms(1,2) NeedQuery Normal that by (auto simp: list_all_iff bucket_ok_def)
      show ?thesis
        using par [OF that] unfolding bucket_clash [OF ok] ca_parallel_clash by (auto simp: clash_def)
    qed
    then have "\<not> clash (at_reads B (Normal rd wr cs)) (at_writes B (Normal rd wr cs))
        (at_reads B (Normal (bs_new B) (bs_new B) (map (\<lambda>p. (p, a)) fs)))
        (at_writes B (Normal (bs_new B) (bs_new B) (map (\<lambda>p. (p, a)) fs)))"
      unfolding clash_normal by (simp add: set_laws)
    moreover have "at_reads B (Normal (bs_new B) (bs_new B) (map (\<lambda>p. (p, a)) fs)) = req_reads B r"
      "at_writes B (Normal (bs_new B) (bs_new B) (map (\<lambda>p. (p, a)) fs)) = req_writes B r"
      by (simp_all add: NeedQuery set_laws)
    ultimately show ?thesis
      by (simp only: Normal not_False_eq_True)
  next
    case WorldRef
    then show ?thesis
      using assms(4) NeedQuery by (simp add: register_table_defs readonly_iff bucket_cells_def clash_def)
  next
    case WorldMut
    then show ?thesis
      using assms(4) NeedQuery by (simp add: register_table_defs)
  qed
next
  case (NeedRes i)
  then show ?thesis
    using assms by (cases t) (auto simp: register_table_defs clash_def set_laws bucket_cells_def split: if_splits)
next
  case (NeedResMut i)
  then show ?thesis
    using assms by (cases t) (auto simp: register_table_defs clash_def set_laws bucket_cells_def split: if_splits)
next
  case NeedWorldMut
  then show ?thesis
    using assms by (cases t) (auto simp: register_table_defs clash_def set_laws split: if_splits)
next
  case NeedWorldRef
  then show ?thesis
    using assms no_writes_iff
    by (cases t) (auto simp: register_table_defs clash_def simp del: at_writes.simps(3) split: if_splits)
qed

end

text \<open>The table of a system is built by registering its parameters one after the other.\<close>

definition register_all :: "'b bitset_ops \<Rightarrow> 'b request list \<Rightarrow> 'b access_table \<Rightarrow> 'b access_table" where
  "register_all B rs t = fold (\<lambda>r t. snd (register B t r)) rs t"

fun lossless :: "'b bitset_ops \<Rightarrow> 'b access_table \<Rightarrow> 'b request list \<Rightarrow> bool" where
  "lossless B t [] \<longleftrightarrow> True"
| "lossless B t (r # rs) \<longleftrightarrow> \<not> loses t r \<and> lossless B (snd (register B t r)) rs"

fun all_accepted :: "'b bitset_ops \<Rightarrow> 'b access_table \<Rightarrow> 'b request list \<Rightarrow> bool" where
  "all_accepted B t [] \<longleftrightarrow> True"
| "all_accepted B t (r # rs) \<longleftrightarrow> fst (register B t r) \<and> all_accepted B (snd (register B t r)) rs"

definition req_clash :: "'b bitset_ops \<Rightarrow> 'b request \<Rightarrow> 'b request \<Rightarrow> bool" where
  "req_clash B r s \<longleftrightarrow> clash (req_reads B r) (req_writes B r) (req_reads B s) (req_writes B s)"

lemma register_all_simps [simp]: "register_all B [] t = t"
  "register_all B (r # rs) t = register_all B rs (snd (register B t r))"
  by (simp_all add: register_all_def)

context fixed_bitset
begin

lemma new_table_wf: "at_wf B (access_table_new B)"
  by (simp add: access_table_new_def set_laws)

lemma register_all_wf: "at_wf B t \<Longrightarrow> list_all (req_ok B) rs \<Longrightarrow> at_wf B (register_all B rs t)"
  by (induction rs arbitrary: t) (auto intro: register_wf)

lemma register_all_covers:
  assumes "at_wf B t" "list_all (req_ok B) rs" "lossless B t rs"
  shows "at_reads B t \<subseteq> at_reads B (register_all B rs t) \<and> at_writes B t \<subseteq> at_writes B (register_all B rs t)
    \<and> (\<forall>r \<in> set rs. req_reads B r \<subseteq> at_reads B (register_all B rs t)
         \<and> req_writes B r \<subseteq> at_writes B (register_all B rs t))"
  using assms
proof (induction rs arbitrary: t)
  case (Cons r rs)
  have "at_wf B (snd (register B t r))" "\<not> loses t r"
    using Cons.prems register_wf by auto
  then show ?case
    using Cons.IH [of "snd (register B t r)"] Cons.prems register_covers [of t r] by (simp add: subset_iff)
qed simp

lemma clash_mono:
  "r1 \<subseteq> r1' \<Longrightarrow> w1 \<subseteq> w1' \<Longrightarrow> r2 \<subseteq> r2' \<Longrightarrow> w2 \<subseteq> w2' \<Longrightarrow> clash r1 w1 r2 w2 \<Longrightarrow> clash r1' w1' r2' w2'"
  unfolding clash_def by blast

lemma accepted_disjoint:
  assumes "at_wf B t" "list_all (req_ok B) rs" "lossless B t rs" "all_accepted B t rs"
  shows "(\<forall>r \<in> set rs. \<not> clash (at_reads B t) (at_writes B t) (req_reads B r) (req_writes B r))
    \<and> sorted_wrt (\<lambda>r s. \<not> req_clash B r s) rs"
  using assms
proof (induction rs arbitrary: t)
  case (Cons r rs)
  let ?t = "snd (register B t r)"
  have wf: "at_wf B ?t"
    using Cons.prems register_wf by auto
  have now: "\<not> clash (at_reads B t) (at_writes B t) (req_reads B r) (req_writes B r)"
    using Cons.prems by (intro register_accepts) auto
  have cov: "at_reads B t \<union> req_reads B r \<subseteq> at_reads B ?t" "at_writes B t \<union> req_writes B r \<subseteq> at_writes B ?t"
    using register_covers [of t r] Cons.prems by auto
  have later: "\<not> clash (at_reads B ?t) (at_writes B ?t) (req_reads B s) (req_writes B s)" if "s \<in> set rs" for s
    using Cons.IH [OF wf] Cons.prems that by auto
  have rest: "sorted_wrt (\<lambda>r s. \<not> req_clash B r s) rs"
    using Cons.IH [OF wf] Cons.prems by auto
  have "\<not> clash (at_reads B t) (at_writes B t) (req_reads B s) (req_writes B s)" "\<not> req_clash B r s" if "s \<in> set rs" for s
    using later [OF that] cov clash_mono unfolding req_clash_def by (meson Un_subset_iff order_refl)+
  then show ?case
    using now rest by auto
qed simp

end

section \<open>Accesses of one query\<close>

text \<open>The parts of a query's data, in registration order, and what each of them touches.\<close>

fun leaves :: "query_data \<Rightarrow> query_data list" where
  "leaves (DTuple ds) = concat (map leaves ds)"
| "leaves d = [d]"

fun leaf_reads :: "query_data \<Rightarrow> nat set" where
  "leaf_reads DEntityRef = UNIV"
| "leaf_reads DEntityMut = UNIV"
| "leaf_reads (DRef c) = {unat c}"
| "leaf_reads (DOptRef c) = {unat c}"
| "leaf_reads (DTickRef c) = {unat c}"
| "leaf_reads (DOptTickRef c) = {unat c}"
| "leaf_reads (DMutRef c) = {unat c}"
| "leaf_reads (DOptMutRef c) = {unat c}"
| "leaf_reads (DMut c) = {unat c}"
| "leaf_reads (DOptMut c) = {unat c}"
| "leaf_reads d = {}"

fun leaf_writes :: "query_data \<Rightarrow> nat set" where
  "leaf_writes DEntityMut = UNIV"
| "leaf_writes (DMutRef c) = {unat c}"
| "leaf_writes (DOptMutRef c) = {unat c}"
| "leaf_writes (DMut c) = {unat c}"
| "leaf_writes (DOptMut c) = {unat c}"
| "leaf_writes d = {}"

definition leaf_clash :: "query_data \<Rightarrow> query_data \<Rightarrow> bool" where
  "leaf_clash d e \<longleftrightarrow> clash (leaf_reads d) (leaf_writes d) (leaf_reads e) (leaf_writes e)"

definition reg_step ::
  "'b bitset_ops \<Rightarrow> query_data \<Rightarrow> bool \<times> 'b component_access \<Rightarrow> bool \<times> 'b component_access" where
  "reg_step B d s = (case data_register_access B d (snd s) of (ok, a') \<Rightarrow> (fst s \<and> ok, a'))"

lemma reg_fold:
  "fold (reg_step B) ds (b, a)
    = (b \<and> fst (fold (reg_step B) ds (True, a)), snd (fold (reg_step B) ds (True, a)))"
proof (induction ds arbitrary: a b)
  case (Cons d ds)
  obtain ok a' where r: "data_register_access B d a = (ok, a')"
    by fastforce
  have st: "reg_step B d (c, a) = (c \<and> ok, a')" for c
    by (simp add: reg_step_def r)
  let ?run = "fold (reg_step B) ds (True, a')"
  have "fold (reg_step B) (d # ds) (b, a) = (b \<and> ok \<and> fst ?run, snd ?run)"
    using Cons.IH [of "b \<and> ok" a'] by (simp add: st)
  moreover have "fold (reg_step B) (d # ds) (True, a) = (ok \<and> fst ?run, snd ?run)"
    using Cons.IH [of ok a'] by (simp add: st)
  ultimately show ?case
    by (simp only: fst_conv snd_conv)
qed simp

lemma reg_step_leaves: "reg_step B d s = fold (reg_step B) (leaves d) s"
proof (induction d arbitrary: s)
  case (DTuple ds)
  have un: "(\<lambda>d (all_ok, a). case data_register_access B d a of (ok, a') \<Rightarrow> (all_ok \<and> ok, a')) = reg_step B"
    by (auto simp: reg_step_def fun_eq_iff split_def)
  have "fold (reg_step B) ds s = fold (reg_step B) (concat (map leaves ds)) s"
    using DTuple.IH by (induction ds arbitrary: s) simp_all
  moreover have "data_register_access B (DTuple ds) (snd s) = fold (reg_step B) ds (True, snd s)"
    by (simp only: data_register_access.simps un)
  then have "reg_step B (DTuple ds) s = fold (reg_step B) ds s"
    using reg_fold [of B ds "fst s" "snd s"] unfolding reg_step_def [of B "DTuple ds"] by (simp only: split_def prod.collapse)
  ultimately show ?case by simp
qed simp_all

lemma leaves_atomic: "DTuple ds \<notin> set (leaves d)"
  by (induction d) auto

lemma data_register_leaves: "data_register_access B d a = fold (reg_step B) (leaves d) (True, a)"
  using reg_step_leaves [of B d "(True, a)"] by (simp add: reg_step_def split_def)

context fixed_bitset
begin

lemma leaf_register:
  assumes "ca_wf B a" "\<forall>ds. d \<noteq> DTuple ds" "\<not> (d = DEntityMut \<and> a = EntityRef)"
  shows "ca_wf B (snd (data_register_access B d a))"
    "ca_reads B a \<union> leaf_reads d \<subseteq> ca_reads B (snd (data_register_access B d a))"
    "ca_writes B a \<union> leaf_writes d \<subseteq> ca_writes B (snd (data_register_access B d a))"
    "fst (data_register_access B d a) \<longleftrightarrow> \<not> clash (ca_reads B a) (ca_writes B a) (leaf_reads d) (leaf_writes d)"
    "fst (data_register_access B d a) \<Longrightarrow> ca_reads B (snd (data_register_access B d a)) = ca_reads B a \<union> leaf_reads d
       \<and> ca_writes B (snd (data_register_access B d a)) = ca_writes B a \<union> leaf_writes d"
    "d \<noteq> DEntityRef \<Longrightarrow> a \<noteq> EntityRef \<Longrightarrow> snd (data_register_access B d a) \<noteq> EntityRef"
proof -
  note eff = register_reading_effect [of a] register_writing_effect [OF assms(1)] register_entity_ref_effect [of a]
    register_entity_mut_effect [OF assms(1)]
  have wf: "ca_writes B a \<subseteq> ca_reads B a"
    using assms(1) by (simp add: ca_wf_def)
  show "ca_wf B (snd (data_register_access B d a))"
    using wf_kept [OF assms(1,1)] assms(1,2) by (cases d) simp_all
  show "ca_reads B a \<union> leaf_reads d \<subseteq> ca_reads B (snd (data_register_access B d a))"
    using eff assms(2,3) by (cases d) auto
  show "ca_writes B a \<union> leaf_writes d \<subseteq> ca_writes B (snd (data_register_access B d a))"
    using eff assms(2,3) by (cases d) auto
  show "fst (data_register_access B d a) \<longleftrightarrow> \<not> clash (ca_reads B a) (ca_writes B a) (leaf_reads d) (leaf_writes d)"
    using eff assms(2,3) wf by (cases d) (auto simp: clash_def)
  show "ca_reads B (snd (data_register_access B d a)) = ca_reads B a \<union> leaf_reads d
       \<and> ca_writes B (snd (data_register_access B d a)) = ca_writes B a \<union> leaf_writes d"
    if "fst (data_register_access B d a)"
    using eff assms(2,3) that by (cases d) (auto split: if_splits)
  show "snd (data_register_access B d a) \<noteq> EntityRef" if "d \<noteq> DEntityRef" "a \<noteq> EntityRef"
    using that assms(2) by (cases d; cases a; auto simp: register_defs)
qed

end

definition handles_apart :: "query_data list \<Rightarrow> bool" where
  "handles_apart ls \<longleftrightarrow> \<not> (DEntityRef \<in> set ls \<and> DEntityMut \<in> set ls)"

lemma clash_Un: "clash (r \<union> r') (w \<union> w') s v \<longleftrightarrow> clash r w s v \<or> clash r' w' s v"
  unfolding clash_def by blast

context fixed_bitset
begin

lemma leaves_register:
  assumes "ca_wf B a" "\<forall>l \<in> set ls. \<forall>ds. l \<noteq> DTuple ds" "handles_apart ls"
    "DEntityMut \<in> set ls \<longrightarrow> a \<noteq> EntityRef"
  shows "ca_wf B (snd (fold (reg_step B) ls (True, a)))
    \<and> ca_reads B a \<union> (\<Union>l \<in> set ls. leaf_reads l) \<subseteq> ca_reads B (snd (fold (reg_step B) ls (True, a)))
    \<and> ca_writes B a \<union> (\<Union>l \<in> set ls. leaf_writes l) \<subseteq> ca_writes B (snd (fold (reg_step B) ls (True, a)))
    \<and> (fst (fold (reg_step B) ls (True, a)) \<longleftrightarrow>
        (\<forall>l \<in> set ls. \<not> clash (ca_reads B a) (ca_writes B a) (leaf_reads l) (leaf_writes l))
        \<and> sorted_wrt (\<lambda>l m. \<not> leaf_clash l m) ls)"
  using assms
proof (induction ls arbitrary: a)
  case (Cons l ls)
  obtain ok a1 where r: "data_register_access B l a = (ok, a1)"
    by fastforce
  have l: "\<forall>ds. l \<noteq> DTuple ds" "\<not> (l = DEntityMut \<and> a = EntityRef)"
    using Cons.prems by auto
  note reg = leaf_register [OF Cons.prems(1) l, unfolded r fst_conv snd_conv]
  have "DEntityMut \<in> set ls \<longrightarrow> a1 \<noteq> EntityRef"
    using Cons.prems(3,4) reg(6) by (auto simp: handles_apart_def)
  then have IH: "ca_wf B (snd (fold (reg_step B) ls (True, a1)))
    \<and> ca_reads B a1 \<union> (\<Union>l \<in> set ls. leaf_reads l) \<subseteq> ca_reads B (snd (fold (reg_step B) ls (True, a1)))
    \<and> ca_writes B a1 \<union> (\<Union>l \<in> set ls. leaf_writes l) \<subseteq> ca_writes B (snd (fold (reg_step B) ls (True, a1)))
    \<and> (fst (fold (reg_step B) ls (True, a1)) \<longleftrightarrow>
        (\<forall>l \<in> set ls. \<not> clash (ca_reads B a1) (ca_writes B a1) (leaf_reads l) (leaf_writes l))
        \<and> sorted_wrt (\<lambda>l m. \<not> leaf_clash l m) ls)"
    using Cons.prems by (intro Cons.IH [OF reg(1)]) (auto simp: handles_apart_def)
  have fold: "fold (reg_step B) (l # ls) (True, a)
      = (ok \<and> fst (fold (reg_step B) ls (True, a1)), snd (fold (reg_step B) ls (True, a1)))"
    using reg_fold [of B ls ok a1] by (simp add: reg_step_def [of B l] r)
  have widen: "X \<union> (Y \<union> P) \<subseteq> F" if "X \<union> Y \<subseteq> M" "M \<union> P \<subseteq> F" for X Y M P F :: "nat set"
    using that by blast
  have "ok \<and> fst (fold (reg_step B) ls (True, a1)) \<longleftrightarrow>
      (\<forall>m \<in> set (l # ls). \<not> clash (ca_reads B a) (ca_writes B a) (leaf_reads m) (leaf_writes m))
      \<and> sorted_wrt (\<lambda>l m. \<not> leaf_clash l m) (l # ls)"
  proof (cases ok)
    case True
    then have "\<not> clash (ca_reads B a) (ca_writes B a) (leaf_reads l) (leaf_writes l)"
        "ca_reads B a1 = ca_reads B a \<union> leaf_reads l" "ca_writes B a1 = ca_writes B a \<union> leaf_writes l"
      using reg(4,5) by auto
    then show ?thesis
      using IH True by (auto simp: clash_Un leaf_clash_def)
  next
    case False
    then show ?thesis using reg(4) by simp
  qed
  then show ?case
    using IH widen [OF reg(2), of "\<Union>l \<in> set ls. leaf_reads l"] widen [OF reg(3), of "\<Union>l \<in> set ls. leaf_writes l"]
    unfolding fold by simp
qed simp

lemma filter_register_wf: "ca_wf B a \<Longrightarrow> ca_wf B (filter_register_access B f a)
  \<and> ca_reads B a \<subseteq> ca_reads B (filter_register_access B f a) \<and> ca_writes B a = ca_writes B (filter_register_access B f a)"
proof (induction f arbitrary: a)
  case (FAnd fs)
  let ?P = "\<lambda>s. ca_wf B s \<and> ca_reads B a \<subseteq> ca_reads B s \<and> ca_writes B a = ca_writes B s"
  have "?P (fold (filter_register_access B) fs a)"
  proof (rule fold_keeps)
    show "?P (filter_register_access B f s)" if "f \<in> set fs" "?P s" for f s
      using FAnd.IH [OF that(1), of s] that(2) by auto
  qed (use FAnd.prems in simp)
  then show ?case by simp
next
  case (FOr fs)
  let ?P = "\<lambda>s. ca_wf B s \<and> ca_reads B a \<subseteq> ca_reads B s \<and> ca_writes B a = ca_writes B s"
  have "?P (fold (filter_register_access B) fs a)"
  proof (rule fold_keeps)
    show "?P (filter_register_access B f s)" if "f \<in> set fs" "?P s" for f s
      using FOr.IH [OF that(1), of s] that(2) by auto
  qed (use FOr.prems in simp)
  then show ?case by simp
next
  case (FChanged s c)
  then show ?case using wf_kept(5) [of a a c] force_reading_effect [of a c] by auto
next
  case (FAdded s c)
  then show ?case using wf_kept(5) [of a a c] force_reading_effect [of a c] by auto
qed simp_all

lemma data_register_covers:
  assumes "handles_apart (leaves d)"
  shows "ca_wf B (snd (data_register_access B d (component_access_new B)))"
    "(\<Union>l \<in> set (leaves d). leaf_reads l) \<subseteq> ca_reads B (snd (data_register_access B d (component_access_new B)))"
    "(\<Union>l \<in> set (leaves d). leaf_writes l) \<subseteq> ca_writes B (snd (data_register_access B d (component_access_new B)))"
    "fst (data_register_access B d (component_access_new B)) \<longleftrightarrow> sorted_wrt (\<lambda>l m. \<not> leaf_clash l m) (leaves d)"
proof -
  have "component_access_new B \<noteq> EntityRef"
    by (simp add: component_access_new_def)
  then show "ca_wf B (snd (data_register_access B d (component_access_new B)))"
    "(\<Union>l \<in> set (leaves d). leaf_reads l) \<subseteq> ca_reads B (snd (data_register_access B d (component_access_new B)))"
    "(\<Union>l \<in> set (leaves d). leaf_writes l) \<subseteq> ca_writes B (snd (data_register_access B d (component_access_new B)))"
    "fst (data_register_access B d (component_access_new B)) \<longleftrightarrow> sorted_wrt (\<lambda>l m. \<not> leaf_clash l m) (leaves d)"
    using leaves_register [OF new_grants(3) _ assms] leaves_atomic [of _ d] new_grants
    unfolding data_register_leaves by (auto simp: clash_def)
qed

end

text \<open>What a query parameter registers.\<close>

definition query_request :: "'b query_state \<Rightarrow> 'b request" where
  "query_request q = NeedQuery (qs_access_data q) (qs_access_filter q)"

lemma query_run_access:
  "query_run B hf order d f ts q \<Longrightarrow> qs_access_data q
     = filter_register_access B f (snd (data_register_access B d (component_access_new B)))"
  by (induction rule: query_run.induct) (auto simp: query_build_def query_update_def split_def Let_def)

context fixed_bitset
begin

lemma query_request_covers:
  assumes "query_run B hf order d f ts q" "order_ok order" "tables_ok ts" "handles_apart (leaves d)"
  shows "req_ok B (query_request q)"
    and "i < length ts \<Longrightarrow> visits d f (ts ! i) \<Longrightarrow> c \<in> (\<Union>l \<in> set (leaves d). leaf_reads l) \<Longrightarrow>
      Cell (set (t_components (ts ! i))) c \<in> req_reads B (query_request q)"
    and "i < length ts \<Longrightarrow> visits d f (ts ! i) \<Longrightarrow> c \<in> (\<Union>l \<in> set (leaves d). leaf_writes l) \<Longrightarrow>
      Cell (set (t_components (ts ! i))) c \<in> req_writes B (query_request q)"
proof -
  note run = query_run_storages [OF assms(1-3)] and data = data_register_covers [OF assms(4)]
  have acc: "ca_wf B (qs_access_data q)" "(\<Union>l \<in> set (leaves d). leaf_reads l) \<subseteq> ca_reads B (qs_access_data q)"
    "(\<Union>l \<in> set (leaves d). leaf_writes l) \<subseteq> ca_writes B (qs_access_data q)"
    using filter_register_wf [OF data(1), of f] data query_run_access [OF assms(1)] by auto
  have "list_all param_ok (qs_access_filter q)"
    using query_params_ok [OF assms(2)] run by (simp add: list_all_iff)
  then show "req_ok B (query_request q)"
    using acc by (simp add: query_request_def)
  have hit: "\<exists>p \<in> set (qs_access_filter q). param_matches p (set (t_components (ts ! i)))" if "visits d f (ts ! i)"
    using query_params_match [OF assms(2), of hf d f] run that by (simp add: visits_def)
  show "Cell (set (t_components (ts ! i))) c \<in> req_reads B (query_request q)"
    if "visits d f (ts ! i)" "c \<in> (\<Union>l \<in> set (leaves d). leaf_reads l)"
    using hit [OF that(1)] that(2) acc(2) by (auto simp: query_request_def bucket_cells_def)
  show "Cell (set (t_components (ts ! i))) c \<in> req_writes B (query_request q)"
    if "visits d f (ts ! i)" "c \<in> (\<Union>l \<in> set (leaves d). leaf_writes l)"
    using hit [OF that(1)] that(2) acc(3) by (auto simp: query_request_def bucket_cells_def)
qed

end

section \<open>Properties\<close>

text \<open>C6: systems that may run in parallel have no data race in their queries: take two systems whose tables are
  built from their parameters without losing a request, with a query among the parameters of each. If
  the tables are parallelizable, then on every table of the world that both queries visit, neither
  query writes a component that the other one reads or writes.\<close>
theorem parallel_queries_race_free:
  assumes "fixed_bitset B"
    and "query_run B hf order d1 f1 ts q1" "query_run B hf order d2 f2 ts q2" "order_ok order" "tables_ok ts"
    and "handles_apart (leaves d1)" "handles_apart (leaves d2)"
    and "list_all (req_ok B) rs1" "lossless B (access_table_new B) rs1" "query_request q1 \<in> set rs1"
    and "list_all (req_ok B) rs2" "lossless B (access_table_new B) rs2" "query_request q2 \<in> set rs2"
    and "at_parallelizable B (register_all B rs1 (access_table_new B)) (register_all B rs2 (access_table_new B))"
    and "i < length ts" "visits d1 f1 (ts ! i)" "visits d2 f2 (ts ! i)"
    and "l \<in> set (leaves d1)" "m \<in> set (leaves d2)"
  shows "\<not> leaf_clash l m"
proof
  assume "leaf_clash l m"
  then obtain c where c: "c \<in> leaf_writes l \<and> c \<in> leaf_reads m \<or> c \<in> leaf_writes m \<and> c \<in> leaf_reads l"
    by (auto simp: leaf_clash_def clash_def)
  let ?t = "register_all B rs1 (access_table_new B)" and ?u = "register_all B rs2 (access_table_new B)"
  let ?x = "Cell (set (t_components (ts ! i))) c"
  note wf = fixed_bitset.new_table_wf [OF assms(1)]
  have "\<not> clash (at_reads B ?t) (at_writes B ?t) (at_reads B ?u) (at_writes B ?u)"
    using fixed_bitset.parallel_exact(1) [OF assms(1) _ _ assms(14)] fixed_bitset.register_all_wf [OF assms(1) wf] assms(8,11)
    by blast
  moreover note cover1 = fixed_bitset.register_all_covers [OF assms(1) wf assms(8,9)]
    and cover2 = fixed_bitset.register_all_covers [OF assms(1) wf assms(11,12)]
  note req1 = fixed_bitset.query_request_covers(2,3) [OF assms(1,2,4,5,6,15,16), of c]
    and req2 = fixed_bitset.query_request_covers(2,3) [OF assms(1,3,4,5,7,15,17), of c]
  have sub: "req_reads B (query_request q1) \<subseteq> at_reads B ?t" "req_writes B (query_request q1) \<subseteq> at_writes B ?t"
    "req_reads B (query_request q2) \<subseteq> at_reads B ?u" "req_writes B (query_request q2) \<subseteq> at_writes B ?u"
    using cover1 cover2 assms(10,13) by simp_all
  have "c \<in> leaf_reads l \<Longrightarrow> ?x \<in> at_reads B ?t" "c \<in> leaf_writes l \<Longrightarrow> ?x \<in> at_writes B ?t"
    using req1 [OF UN_I [OF assms(18)]] sub(1,2) by (simp_all add: subset_iff)
  moreover have "c \<in> leaf_reads m \<Longrightarrow> ?x \<in> at_reads B ?u" "c \<in> leaf_writes m \<Longrightarrow> ?x \<in> at_writes B ?u"
    using req2 [OF UN_I [OF assms(19)]] sub(3,4) by (simp_all add: subset_iff)
  moreover have "?x \<in> at_writes B ?t \<and> ?x \<in> at_reads B ?u \<or> ?x \<in> at_writes B ?u \<and> ?x \<in> at_reads B ?t"
    using c calculation by blast
  ultimately show False
    unfolding clash_def by blast
qed

definition peek_query :: "nat query_state" where
  "peek_query = query_build nat_bits (\<lambda>_ _. 0) id (DRef 7) FUnit [busy_table]"

lemma peek_query_run: "query_run nat_bits (\<lambda>_ _. 0) id (DRef 7) FUnit [busy_table] peek_query"
  unfolding peek_query_def by (rule query_built)

lemma peek_query_access: "list_all (req_ok nat_bits) [query_request peek_query]"
    "lossless nat_bits (access_table_new nat_bits) [query_request peek_query]"
    "at_parallelizable nat_bits (register_all nat_bits [query_request peek_query] (access_table_new nat_bits))
       (register_all nat_bits [query_request peek_query] (access_table_new nat_bits))"
    "all_accepted nat_bits (access_table_new nat_bits) [query_request peek_query, query_request peek_query]"
    "lossless nat_bits (access_table_new nat_bits) [query_request peek_query, query_request peek_query]"
proof -
  have "order_ok (id :: filter_param list \<Rightarrow> filter_param list)" "tables_ok [busy_table]"
    by (simp_all add: order_ok_def tables_ok_def busy_table_def)
  then show "list_all (req_ok nat_bits) [query_request peek_query]"
    using nat_bits.query_request_covers(1) [OF peek_query_run] by (simp add: handles_apart_def)
  show "lossless nat_bits (access_table_new nat_bits) [query_request peek_query]"
    by code_simp
  show "at_parallelizable nat_bits (register_all nat_bits [query_request peek_query] (access_table_new nat_bits))
       (register_all nat_bits [query_request peek_query] (access_table_new nat_bits))"
    by code_simp
  show "all_accepted nat_bits (access_table_new nat_bits) [query_request peek_query, query_request peek_query]"
    by code_simp
  show "lossless nat_bits (access_table_new nat_bits) [query_request peek_query, query_request peek_query]"
    by code_simp
qed

theorem parallel_queries_race_free_witness: "\<not> leaf_clash (DRef 7) (DRef 7)"
  by (rule parallel_queries_race_free [OF nat_bits.fixed_bitset_axioms peek_query_run peek_query_run,
        of "[query_request peek_query]" "[query_request peek_query]" 0])
    (use peek_query_access in \<open>simp_all add: order_ok_def tables_ok_def handles_apart_def visits_def busy_parts\<close>)

text \<open>C21: the parameters of one system do not alias: if all of them are accepted and none is lost, no two of them
  touch the same cell with one of the accesses a write.\<close>
theorem accepted_parameters_disjoint:
  assumes "fixed_bitset B" "list_all (req_ok B) rs" "lossless B (access_table_new B) rs"
    "all_accepted B (access_table_new B) rs"
  shows "sorted_wrt (\<lambda>r s. \<not> req_clash B r s) rs
    \<and> (\<forall>r \<in> set rs. req_reads B r \<subseteq> at_reads B (register_all B rs (access_table_new B))
         \<and> req_writes B r \<subseteq> at_writes B (register_all B rs (access_table_new B)))"
  using fixed_bitset.accepted_disjoint [OF assms(1) fixed_bitset.new_table_wf [OF assms(1)] assms(2-4)]
    fixed_bitset.register_all_covers [OF assms(1) fixed_bitset.new_table_wf [OF assms(1)] assms(2,3)]
  by blast

theorem accepted_parameters_disjoint_witness: "\<not> req_clash nat_bits (query_request peek_query) (query_request peek_query)"
  using accepted_parameters_disjoint [OF nat_bits.fixed_bitset_axioms _ peek_query_access(5,4)] peek_query_access(1)
  by simp

text \<open>C28: the parallel test is exact: two tables built by registration are reported parallelizable only if
  no cell is written by one and read or written by the other, and are otherwise reported as conflicting only
  if there is such a cell or one of them asks for the whole world or whole entities
  exclusively.\<close>
theorem parallel_test_exact:
  assumes "fixed_bitset B" "list_all (req_ok B) rs1" "list_all (req_ok B) rs2"
    "t = register_all B rs1 (access_table_new B)" "u = register_all B rs2 (access_table_new B)"
  shows "(at_parallelizable B t u \<longrightarrow> \<not> clash (at_reads B t) (at_writes B t) (at_reads B u) (at_writes B u))
    \<and> (\<not> at_parallelizable B t u \<longrightarrow> exclusive t \<or> exclusive u
         \<or> clash (at_reads B t) (at_writes B t) (at_reads B u) (at_writes B u))"
proof -
  have "at_wf B t" "at_wf B u"
    using assms fixed_bitset.register_all_wf [OF assms(1) fixed_bitset.new_table_wf [OF assms(1)]] by simp_all
  then show ?thesis
    using fixed_bitset.parallel_exact [OF assms(1)] by blast
qed

theorem parallel_test_exact_witness:
  "\<not> at_parallelizable nat_bits (register_all nat_bits [NeedResMut 3] (access_table_new nat_bits))
      (register_all nat_bits [NeedRes 3] (access_table_new nat_bits))"
proof
  let ?t = "register_all nat_bits [NeedResMut 3] (access_table_new nat_bits)"
  let ?u = "register_all nat_bits [NeedRes 3] (access_table_new nat_bits)"
  assume "at_parallelizable nat_bits ?t ?u"
  then have "\<not> clash (at_reads nat_bits ?t) (at_writes nat_bits ?t) (at_reads nat_bits ?u) (at_writes nat_bits ?u)"
    using parallel_test_exact [OF nat_bits.fixed_bitset_axioms _ _ refl refl, of "[NeedResMut 3]" "[NeedRes 3]"] by simp
  moreover have "at_writes nat_bits ?t = {Resource 3}" "at_reads nat_bits ?u = {Resource 3}"
    by (simp_all add: access_table_new_def register_table_defs nat_bits.set_laws)
  ultimately show False
    by (simp add: clash_def)
qed

text \<open>Registering the data of a query that does not mix shared and exclusive entity handles reports
  exactly the conflicts: it is accepted if and only if no two of its parts touch the same component with one access
  a write, and the summary covers the reads and writes of all parts even when it is not accepted.\<close>
theorem query_access_checked:
  assumes "fixed_bitset B" "handles_apart (leaves d)"
  shows "(fst (data_register_access B d (component_access_new B)) \<longleftrightarrow> sorted_wrt (\<lambda>l m. \<not> leaf_clash l m) (leaves d))
    \<and> (\<forall>l \<in> set (leaves d).
         leaf_reads l \<subseteq> ca_reads B (snd (data_register_access B d (component_access_new B)))
         \<and> leaf_writes l \<subseteq> ca_writes B (snd (data_register_access B d (component_access_new B))))"
  using fixed_bitset.data_register_covers [OF assms] by blast

theorem query_access_checked_witness:
  "\<not> fst (data_register_access nat_bits (DTuple [DRef 7, DMut 7]) (component_access_new nat_bits))"
  using query_access_checked [OF nat_bits.fixed_bitset_axioms, of "DTuple [DRef 7, DMut 7]"]
  by (simp add: handles_apart_def leaf_clash_def clash_def del: data_register_access.simps)

definition any_param :: filter_param where
  "any_param = \<lparr>fp_hash = 0, fp_with_len = 0, fp_params = []\<rparr>"


end
