(* ===== verification/Message_Queue.thy ===== *)
theory Message_Queue
  imports Zlim_Prelude
begin

text \<open>
  Message queues (\<^verbatim>\<open>zlim-core/src/message/queue.rs\<close>, \<^verbatim>\<open>iterators.rs\<close>): messages of one type in two
  sequences, the older still readable one and the one being written; \<^verbatim>\<open>update\<close> rotates them, so that a
  message can be read until the second rotation after it was written. Every message has a global index, and each reading
  system keeps a cursor into them. The indices are \<^verbatim>\<open>usize\<close> values with the wrapping operations of the code.
  The specification is the history of all messages written and the two positions in it
  at which the sequences start. The argument \<open>debug\<close> says whether debug assertions are compiled in.
\<close>

section \<open>Queues\<close>

record 'm message_sequence =
  ms_messages :: "(u64 \<times> 'm) list"
  ms_start_id :: u64

record 'm message_queue =
  mq_a :: "'m message_sequence"
  mq_b :: "'m message_sequence"
  mq_counter :: u64

definition sequence_default :: "'m message_sequence" where
  "sequence_default = \<lparr>ms_messages = [], ms_start_id = 0\<rparr>"

definition queue_default :: "'m message_queue" where
  "queue_default = \<lparr>mq_a = sequence_default, mq_b = sequence_default, mq_counter = 0\<rparr>"

definition queue_len :: "'m message_queue \<Rightarrow> u64" where
  "queue_len q = of_nat (length (ms_messages (mq_a q))) + of_nat (length (ms_messages (mq_b q)))"

definition queue_is_empty :: "'m message_queue \<Rightarrow> bool" where
  "queue_is_empty q =
     (0 = (of_nat (length (ms_messages (mq_a q))) OR of_nat (length (ms_messages (mq_b q))) :: u64))"

definition oldest_message_index :: "'m message_queue \<Rightarrow> u64" where
  "oldest_message_index q = ms_start_id (mq_a q)"

text \<open>\<^verbatim>\<open>slice::get\<close> with an index and with a range that is open at the end.\<close>

definition slice_get :: "'a list \<Rightarrow> u64 \<Rightarrow> 'a option" where
  "slice_get xs i = (if unat i < length xs then Some (xs ! unat i) else None)"

definition slice_from :: "'a list \<Rightarrow> u64 \<Rightarrow> 'a list option" where
  "slice_from xs i = (if unat i \<le> length xs then Some (drop (unat i) xs) else None)"

definition queue_get :: "'m message_queue \<Rightarrow> u64 \<Rightarrow> (u64 \<times> 'm) option" where
  "queue_get q k =
     (if k < ms_start_id (mq_a q) then None
      else let seq = (if k < ms_start_id (mq_b q) then mq_a q else mq_b q)
           in slice_get (ms_messages seq) (k - ms_start_id seq))"

text \<open>\<^verbatim>\<open>get_mut\<close> with the value the caller stores through the reference it returns.\<close>

definition sequence_put :: "'m message_sequence \<Rightarrow> u64 \<Rightarrow> 'm \<Rightarrow> 'm message_sequence" where
  "sequence_put s i m =
     s\<lparr>ms_messages := (ms_messages s)[unat i := (fst (ms_messages s ! unat i), m)]\<rparr>"

definition queue_get_mut :: "'m message_queue \<Rightarrow> u64 \<Rightarrow> 'm \<Rightarrow> (u64 \<times> 'm) option \<times> 'm message_queue" where
  "queue_get_mut q k m =
     (if k < ms_start_id (mq_a q) then (None, q)
      else if k < ms_start_id (mq_b q) then
        let i = k - ms_start_id (mq_a q)
        in (slice_get (ms_messages (mq_a q)) i,
            if unat i < length (ms_messages (mq_a q)) then q\<lparr>mq_a := sequence_put (mq_a q) i m\<rparr> else q)
      else
        let i = k - ms_start_id (mq_b q)
        in (slice_get (ms_messages (mq_b q)) i,
            if unat i < length (ms_messages (mq_b q)) then q\<lparr>mq_b := sequence_put (mq_b q) i m\<rparr> else q))"

definition queue_write :: "'m message_queue \<Rightarrow> 'm \<Rightarrow> u64 \<times> 'm message_queue" where
  "queue_write q m =
     (mq_counter q,
      q\<lparr>mq_b := (mq_b q)\<lparr>ms_messages := ms_messages (mq_b q) @ [(mq_counter q, m)]\<rparr>,
        mq_counter := mq_counter q + 1\<rparr>)"

text \<open>The closure of \<^verbatim>\<open>extend\<close> numbers the messages as they are appended.\<close>

fun number_from :: "u64 \<Rightarrow> 'm list \<Rightarrow> (u64 \<times> 'm) list \<times> u64" where
  "number_from n [] = ([], n)"
| "number_from n (m # ms) = (case number_from (n + 1) ms of (kms, n') \<Rightarrow> ((n, m) # kms, n'))"

definition queue_extend :: "'m message_queue \<Rightarrow> 'm list \<Rightarrow> 'm message_queue" where
  "queue_extend q ms =
     (case number_from (mq_counter q) ms of (kms, n) \<Rightarrow>
        q\<lparr>mq_b := (mq_b q)\<lparr>ms_messages := ms_messages (mq_b q) @ kms\<rparr>, mq_counter := n\<rparr>)"

text \<open>\<^verbatim>\<open>MessageKeyIter\<close>: the keys from the first to, exclusively, the second.\<close>

type_synonym message_key_iter = "u64 \<times> u64"

definition write_batch :: "'m message_queue \<Rightarrow> 'm list \<Rightarrow> message_key_iter \<times> 'm message_queue" where
  "write_batch q ms = (let q' = queue_extend q ms in ((mq_counter q, mq_counter q'), q'))"

definition key_iter_next :: "message_key_iter \<Rightarrow> u64 option \<times> message_key_iter" where
  "key_iter_next it = (if fst it = snd it then (None, it) else (Some (fst it), (fst it + 1, snd it)))"

definition key_iter_count :: "message_key_iter \<Rightarrow> u64" where
  "key_iter_count it = snd it - fst it"

definition queue_clear :: "'m message_queue \<Rightarrow> 'm message_queue" where
  "queue_clear q =
     q\<lparr>mq_a := \<lparr>ms_messages = [], ms_start_id = mq_counter q\<rparr>,
       mq_b := \<lparr>ms_messages = [], ms_start_id = mq_counter q\<rparr>\<rparr>"

text \<open>The assertion at the end of \<^verbatim>\<open>update\<close> and \<^verbatim>\<open>update_drain\<close>.\<close>

definition rotation_asserted :: "bool \<Rightarrow> 'm message_queue \<Rightarrow> bool" where
  "rotation_asserted debug q \<longleftrightarrow>
     (debug \<longrightarrow> ms_start_id (mq_a q) + of_nat (length (ms_messages (mq_a q))) = ms_start_id (mq_b q))"

definition queue_update :: "bool \<Rightarrow> 'm message_queue \<Rightarrow> (unit, unit) outcome \<times> 'm message_queue" where
  "queue_update debug q =
     (let q' = q\<lparr>mq_a := mq_b q, mq_b := \<lparr>ms_messages = [], ms_start_id = mq_counter q\<rparr>\<rparr>
      in (if rotation_asserted debug q' then Ok () else Panic, q'))"

definition queue_drain :: "'m message_queue \<Rightarrow> 'm list \<times> 'm message_queue" where
  "queue_drain q =
     (map snd (ms_messages (mq_a q)) @ map snd (ms_messages (mq_b q)),
      q\<lparr>mq_a := \<lparr>ms_messages = [], ms_start_id = mq_counter q\<rparr>,
        mq_b := \<lparr>ms_messages = [], ms_start_id = mq_counter q\<rparr>\<rparr>)"

definition update_drain :: "bool \<Rightarrow> 'm message_queue \<Rightarrow> (unit, 'm list) outcome \<times> 'm message_queue" where
  "update_drain debug q =
     (let q' = q\<lparr>mq_a := mq_b q, mq_b := \<lparr>ms_messages = [], ms_start_id = mq_counter q\<rparr>\<rparr>
      in (if rotation_asserted debug q' then Ok (map snd (ms_messages (mq_a q))) else Panic, q'))"

section \<open>Cursors and readers\<close>

type_synonym message_cursor = u64

definition cursor_new :: "'m message_queue \<Rightarrow> message_cursor" where
  "cursor_new q = oldest_message_index q"

definition cursor_len :: "message_cursor \<Rightarrow> 'm message_queue \<Rightarrow> u64" where
  "cursor_len c q = min (mq_counter q - c) (queue_len q)"

definition cursor_is_empty :: "message_cursor \<Rightarrow> 'm message_queue \<Rightarrow> bool" where
  "cursor_is_empty c q \<longleftrightarrow> queue_is_empty q \<or> mq_counter q = c"

definition cursor_clear :: "message_cursor \<Rightarrow> 'm message_queue \<Rightarrow> message_cursor" where
  "cursor_clear c q = mq_counter q"

text \<open>
  \<^verbatim>\<open>MessageWithKeyIter\<close>: the cursor it borrows, the chained slices it still has to deliver, and the
  number of messages it announces.
\<close>

record 'm message_reader =
  mr_cursor :: message_cursor
  mr_chain :: "(u64 \<times> 'm) list"
  mr_unread :: u64

definition unwrap_or_default :: "'a list option \<Rightarrow> 'a list" where
  "unwrap_or_default r = (case r of Some xs \<Rightarrow> xs | None \<Rightarrow> [])"

definition reader_new ::
  "bool \<Rightarrow> message_cursor \<Rightarrow> 'm message_queue \<Rightarrow> (unit, 'm message_reader) outcome" where
  "reader_new debug c q =
     (let unread = cursor_len c q;
          last_index = mq_counter q - unread;
          a_index = last_index - ms_start_id (mq_a q);
          b_index = last_index - ms_start_id (mq_b q);
          a = unwrap_or_default (slice_from (ms_messages (mq_a q)) a_index);
          b = unwrap_or_default (slice_from (ms_messages (mq_b q)) b_index)
      in if debug \<and> unread \<noteq> of_nat (length a + length b) then Panic
         else Ok \<lparr>mr_cursor = last_index, mr_chain = a @ b, mr_unread = unread\<rparr>)"

definition reader_next :: "'m message_reader \<Rightarrow> (u64 \<times> 'm) option \<times> 'm message_reader" where
  "reader_next r =
     (case mr_chain r of
        [] \<Rightarrow> (None, r)
      | x # xs \<Rightarrow> (Some x, \<lparr>mr_cursor = mr_cursor r + 1, mr_chain = xs,
                         mr_unread = saturating_sub (mr_unread r) 1\<rparr>))"

text \<open>The consuming methods return the cursor they leave behind.\<close>

definition reader_count :: "'m message_reader \<Rightarrow> u64 \<times> message_cursor" where
  "reader_count r = (mr_unread r, mr_cursor r + mr_unread r)"

definition reader_last :: "'m message_reader \<Rightarrow> (u64 \<times> 'm) option \<times> message_cursor" where
  "reader_last r =
     (if mr_chain r = [] then (None, mr_cursor r)
      else (Some (last (mr_chain r)), mr_cursor r + mr_unread r))"

definition saturating_add :: "u64 \<Rightarrow> u64 \<Rightarrow> u64" where
  "saturating_add a b = (case checked_add a b of Some c \<Rightarrow> c | None \<Rightarrow> - 1)"

definition reader_nth :: "'m message_reader \<Rightarrow> u64 \<Rightarrow> (u64 \<times> 'm) option \<times> 'm message_reader" where
  "reader_nth r n =
     (if unat n < length (mr_chain r) then
        (let advanced = saturating_add n 1
         in (Some (mr_chain r ! unat n),
             \<lparr>mr_cursor = mr_cursor r + advanced, mr_chain = drop (Suc (unat n)) (mr_chain r),
              mr_unread = saturating_sub (mr_unread r) advanced\<rparr>))
      else (None, \<lparr>mr_cursor = mr_cursor r + mr_unread r, mr_chain = [], mr_unread = 0\<rparr>))"

text \<open>A \<^verbatim>\<open>for\<close> loop over a reader: the items in order, and the cursor afterwards.\<close>

function reader_drive :: "'m message_reader \<Rightarrow> (u64 \<times> 'm) list \<times> message_cursor" where
  "reader_drive r =
     (case reader_next r of
        (None, r') \<Rightarrow> ([], mr_cursor r')
      | (Some x, r') \<Rightarrow> (case reader_drive r' of (xs, c) \<Rightarrow> (x # xs, c)))"
  by pat_completeness auto
termination
  by (relation "measure (\<lambda>r. length (mr_chain r))")
    (auto simp: reader_next_def split: list.splits)

declare reader_drive.simps [simp del]

definition read_all ::
  "bool \<Rightarrow> message_cursor \<Rightarrow> 'm message_queue \<Rightarrow> (unit, 'm list \<times> message_cursor) outcome" where
  "read_all debug c q =
     (case reader_new debug c q of
        Ok r \<Rightarrow> (case reader_drive r of (xs, c') \<Rightarrow> Ok (map snd xs, c'))
      | Err e \<Rightarrow> Err e
      | Panic \<Rightarrow> Panic)"

text \<open>
  A \<^verbatim>\<open>for\<close> loop over \<^verbatim>\<open>read_mut\<close> that replaces every message it visits by the value of \<open>f\<close>; the two slices
  borrow the tails of the sequences.
\<close>

definition map_from :: "u64 \<Rightarrow> ('m \<Rightarrow> 'm) \<Rightarrow> (u64 \<times> 'm) list \<Rightarrow> (u64 \<times> 'm) list" where
  "map_from i f xs =
     (if unat i \<le> length xs then take (unat i) xs @ map (apsnd f) (drop (unat i) xs) else xs)"

definition read_mut_each ::
  "bool \<Rightarrow> message_cursor \<Rightarrow> ('m \<Rightarrow> 'm) \<Rightarrow> 'm message_queue \<Rightarrow> (unit, message_cursor) outcome \<times> 'm message_queue" where
  "read_mut_each debug c f q =
     (case reader_new debug c q of
        Ok r \<Rightarrow>
          let i = mr_cursor r - ms_start_id (mq_a q); j = mr_cursor r - ms_start_id (mq_b q)
          in (Ok (snd (reader_drive r)),
              q\<lparr>mq_a := (mq_a q)\<lparr>ms_messages := map_from i f (ms_messages (mq_a q))\<rparr>,
                mq_b := (mq_b q)\<lparr>ms_messages := map_from j f (ms_messages (mq_b q))\<rparr>\<rparr>)
      | Err e \<Rightarrow> (Err e, q)
      | Panic \<Rightarrow> (Panic, q))"

section \<open>The history\<close>

text \<open>
  The messages \<open>H\<close> written so far, and the positions at which the older and the newer sequence start; the
  queue that holds them. Fewer than \<open>2 ^ 64\<close> messages have been written.
\<close>

definition span :: "'m list \<Rightarrow> nat \<Rightarrow> nat \<Rightarrow> bool" where
  "span H i j \<longleftrightarrow> i \<le> j \<and> j \<le> length H \<and> length H < 2 ^ 64"

definition keyed :: "'m list \<Rightarrow> nat \<Rightarrow> nat \<Rightarrow> (u64 \<times> 'm) list" where
  "keyed H i j = map (\<lambda>k. (of_nat k, H ! k)) [i..<j]"

definition queue_of :: "'m list \<Rightarrow> nat \<Rightarrow> nat \<Rightarrow> 'm message_queue" where
  "queue_of H i j =
     \<lparr>mq_a = \<lparr>ms_messages = keyed H i j, ms_start_id = of_nat i\<rparr>,
      mq_b = \<lparr>ms_messages = keyed H j (length H), ms_start_id = of_nat j\<rparr>,
      mq_counter = of_nat (length H)\<rparr>"

lemma queue_of_sel [simp]:
  "ms_messages (mq_a (queue_of H i j)) = keyed H i j" "ms_start_id (mq_a (queue_of H i j)) = of_nat i"
  "ms_messages (mq_b (queue_of H i j)) = keyed H j (length H)"
  "ms_start_id (mq_b (queue_of H i j)) = of_nat j" "mq_counter (queue_of H i j) = of_nat (length H)"
  by (simp_all add: queue_of_def)

lemma length_keyed [simp]: "length (keyed H i j) = j - i"
  by (simp add: keyed_def)

lemma nth_keyed: "n < j - i \<Longrightarrow> keyed H i j ! n = (of_nat (i + n), H ! (i + n))"
  by (simp add: keyed_def)

lemma keyed_empty [simp]: "j \<le> i \<Longrightarrow> keyed H i j = []"
  by (simp add: keyed_def)

lemma drop_keyed: "drop n (keyed H i j) = keyed H (i + n) j"
  by (simp add: keyed_def drop_map)

lemma keyed_append: "j \<le> length H \<Longrightarrow> keyed (H @ ms) i j = keyed H i j"
  by (simp add: keyed_def nth_append)

lemma keyed_split: "i \<le> j \<Longrightarrow> j \<le> k \<Longrightarrow> keyed H i j @ keyed H j k = keyed H i k"
  using upt_add_eq_append [of i j "k - j"] by (simp add: keyed_def)

lemma map_snd_keyed: "j \<le> length H \<Longrightarrow> map snd (keyed H i j) = drop i (take j H)"
  by (rule nth_equalityI) (simp_all add: keyed_def)

lemma keyed_snoc: "length H = n \<Longrightarrow> i \<le> n \<Longrightarrow> keyed (H @ [m]) i (Suc n) = keyed H i n @ [(of_nat n, m)]"
  by (auto simp: keyed_def nth_append)

text \<open>Indices below the bound are faithful, and their differences are the ones of the natural numbers.\<close>

lemma index_less: "m < 2 ^ 64 \<Longrightarrow> n < 2 ^ 64 \<Longrightarrow> (of_nat m :: u64) < of_nat n \<longleftrightarrow> m < n"
  by (simp add: word_less_nat_alt unat_of_nat_small)

lemma index_diff: "m \<le> n \<Longrightarrow> (of_nat n :: u64) - of_nat m = of_nat (n - m)"
  by (simp add: of_nat_diff)

lemma len64: "LENGTH(64) = 64"
  by simp

lemma index_add: "m \<le> n \<Longrightarrow> (of_nat m :: u64) + of_nat (n - m) = of_nat n"
  by simp

lemma index_wrap:
  assumes "m < n" "n < 2 ^ 64"
  shows "unat ((of_nat m :: u64) - of_nat n) = 2 ^ 64 - (n - m)"
  using assms by (simp add: unat_sub_if' unat_of_nat_small)

lemma number_from_keyed:
  "number_from (of_nat (length H)) ms
    = (keyed (H @ ms) (length H) (length (H @ ms)), of_nat (length (H @ ms)))"
proof (induction ms arbitrary: H)
  case (Cons m ms)
  have c: "(of_nat (length H) :: u64) + 1 = of_nat (length (H @ [m]))"
    by simp
  have "keyed (H @ m # ms) (length H) (length (H @ m # ms))
      = (of_nat (length H), m) # keyed (H @ m # ms) (Suc (length H)) (length (H @ m # ms))"
    by (simp add: keyed_def upt_conv_Cons del: upt_Suc)
  then show ?case
    using Cons [of "H @ [m]"] by (simp add: c del: of_nat_add of_nat_Suc)
qed (simp add: keyed_def)

section \<open>The operations on the history\<close>

lemma queue_default_of: "queue_default = queue_of [] 0 0"
  by (simp add: queue_default_def queue_of_def sequence_default_def)

lemma queue_extend_of:
  assumes "j \<le> length H"
  shows "queue_extend (queue_of H i j) ms = queue_of (H @ ms) i j"
  using assms keyed_split [of j "length H" "length (H @ ms)" "H @ ms"]
  by (simp add: queue_extend_def number_from_keyed) (simp add: queue_of_def keyed_append)

lemma queue_write_of:
  assumes "j \<le> length H"
  shows "queue_write (queue_of H i j) m = (of_nat (length H), queue_of (H @ [m]) i j)"
  using assms by (simp add: queue_write_def queue_of_def keyed_append keyed_snoc add.commute)

lemma queue_update_of:
  assumes "span H i j"
  shows "queue_update debug (queue_of H i j) = (Ok (), queue_of H j (length H))"
  using assms
  by (simp add: queue_update_def rotation_asserted_def Let_def queue_of_def span_def of_nat_diff)

lemma queue_clear_of: "queue_clear (queue_of H i j) = queue_of H (length H) (length H)"
  by (simp add: queue_clear_def queue_of_def)

lemma queue_drain_of:
  assumes "span H i j"
  shows "queue_drain (queue_of H i j) = (drop i H, queue_of H (length H) (length H))"
proof -
  have "keyed H i j @ keyed H j (length H) = keyed H i (length H)"
    using assms by (intro keyed_split) (auto simp: span_def)
  then have "map snd (keyed H i j) @ map snd (keyed H j (length H)) = drop i H"
    by (metis append_Nil2 map_append map_snd_keyed order_refl take_all)
  then show ?thesis
    by (simp add: queue_drain_def queue_of_def)
qed

lemma update_drain_of:
  assumes "span H i j"
  shows "update_drain debug (queue_of H i j) = (Ok (drop i (take j H)), queue_of H j (length H))"
  using assms
  by (simp add: update_drain_def rotation_asserted_def Let_def map_snd_keyed queue_of_def span_def of_nat_diff)

lemma queue_get_of:
  assumes s: "span H i j" and k: "k < 2 ^ 64"
  shows "queue_get (queue_of H i j) (of_nat k) = (if i \<le> k \<and> k < length H then Some (of_nat k, H ! k) else None)"
proof -
  have b: "i < 2 ^ 64" "j < 2 ^ 64"
    using s by (auto simp: span_def)
  have u: "unat ((of_nat k :: u64) - of_nat m) = k - m" if "m \<le> k" for m
    using that k unat_of_nat_small [of "k - m", where 'l = 64] by (simp add: index_diff [OF that] del: of_nat_diff)
  consider "k < i" | "i \<le> k" "k < j" | "j \<le> k" "k < length H" | "length H \<le> k"
    by linarith
  then show ?thesis
  proof cases
    case 1
    then show ?thesis
      using k b by (simp add: queue_get_def index_less)
  next
    case 2
    then show ?thesis
      using k b s u [of i] by (simp add: queue_get_def index_less slice_get_def Let_def nth_keyed span_def)
  next
    case 3
    then show ?thesis
      using k b s u [of j] by (simp add: queue_get_def index_less slice_get_def Let_def nth_keyed span_def)
  next
    case 4
    then show ?thesis
      using k b s u [of j] by (simp add: queue_get_def index_less slice_get_def Let_def span_def)
  qed
qed

lemma queue_len_of: "span H i j \<Longrightarrow> queue_len (queue_of H i j) = of_nat (length H - i)"
  by (simp add: queue_len_def span_def flip: of_nat_add)

lemma list_update_keyed:
  assumes "i \<le> k" "k < j" "j \<le> length H"
  shows "(keyed H i j)[k - i := (of_nat k, m)] = keyed (H[k := m]) i j"
proof (rule nth_equalityI)
  fix n
  assume "n < length ((keyed H i j)[k - i := (of_nat k, m)])"
  then show "(keyed H i j)[k - i := (of_nat k, m)] ! n = keyed (H[k := m]) i j ! n"
    using assms by (cases "n = k - i") (auto simp: nth_keyed nth_list_update)
qed (use assms in simp)

lemma keyed_update_out: "k < i \<or> j \<le> k \<Longrightarrow> keyed (H[k := m]) i j = keyed H i j"
  by (auto simp: keyed_def)

lemma queue_get_mut_of:
  assumes s: "span H i j" and k: "i \<le> k" "k < length H"
  shows "queue_get_mut (queue_of H i j) (of_nat k) m = (Some (of_nat k, H ! k), queue_of (H[k := m]) i j)"
proof -
  have b: "i < 2 ^ 64" "j < 2 ^ 64" "k < 2 ^ 64"
    using s k by (auto simp: span_def)
  have u: "unat ((of_nat k :: u64) - of_nat n) = k - n" if "n \<le> k" for n
    using that b(3) unat_of_nat_small [of "k - n", where 'l = 64] by (simp add: index_diff [OF that] del: of_nat_diff)
  show ?thesis
  proof (cases "k < j")
    case True
    then have "(keyed H i j)[k - i := (of_nat k, m)] = keyed (H[k := m]) i j"
      using s k by (intro list_update_keyed) (auto simp: span_def)
    then show ?thesis
      using True s k b u [of i]
      by (simp add: queue_get_mut_def index_less slice_get_def Let_def nth_keyed sequence_put_def)
        (simp add: queue_of_def keyed_update_out)
  next
    case False
    then have "(keyed H j (length H))[k - j := (of_nat k, m)] = keyed (H[k := m]) j (length H)"
      using s k by (intro list_update_keyed) (auto simp: span_def)
    then show ?thesis
      using False s k b u [of j]
      by (simp add: queue_get_mut_def index_less slice_get_def Let_def nth_keyed sequence_put_def)
        (simp add: queue_of_def keyed_update_out)
  qed
qed

section \<open>Readers on the history\<close>

lemma reader_drive_chain:
  "reader_drive r = (mr_chain r, mr_cursor r + of_nat (length (mr_chain r)))"
proof (induction "mr_chain r" arbitrary: r)
  case Nil
  then show ?case
    by (simp add: reader_drive.simps [of r] reader_next_def split: list.splits)
next
  case (Cons x xs)
  let ?r = "\<lparr>mr_cursor = mr_cursor r + 1, mr_chain = xs, mr_unread = saturating_sub (mr_unread r) 1\<rparr>"
  have "reader_next r = (Some x, ?r)"
    by (simp add: reader_next_def flip: Cons.hyps(2))
  moreover have "reader_drive ?r = (xs, mr_cursor r + 1 + of_nat (length xs))"
    using Cons.hyps(1) [of ?r] by simp
  ultimately show ?case
    by (simp add: reader_drive.simps [of r] flip: Cons.hyps(2))
qed

lemma cursor_len_of:
  assumes s: "span H i j" and c: "c \<le> length H"
  shows "cursor_len (of_nat c) (queue_of H i j) = of_nat (length H - max c i)"
proof -
  have "length H - c < 2 ^ 64" "length H - i < 2 ^ 64"
    using s by (auto simp: span_def)
  then have "min (of_nat (length H - c)) (of_nat (length H - i)) = (of_nat (min (length H - c) (length H - i)) :: u64)"
    by (simp add: min_def word_le_nat_alt unat_of_nat_small del: of_nat_diff)
  also have "min (length H - c) (length H - i) = length H - max c i"
    by simp
  finally show ?thesis
    using s c by (simp add: cursor_len_def queue_len_of index_diff [OF c] del: of_nat_diff)
qed

text \<open>The slice a reader takes of a sequence whose messages have the indices from \<open>m\<close> to \<open>n\<close>.\<close>

lemma slice_from_keyed:
  assumes "m \<le> n" "n \<le> N" "e \<le> N" "N < 2 ^ 64"
  shows "unwrap_or_default (slice_from (keyed H m n) (of_nat e - of_nat m)) = (if e < m then [] else keyed H e n)"
proof (cases "e < m")
  case True
  then have "unat ((of_nat e :: u64) - of_nat m) = 2 ^ 64 - (m - e)"
    using assms by (intro index_wrap) auto
  then show ?thesis
    using True assms by (simp add: slice_from_def unwrap_or_default_def)
next
  case False
  then have "unat ((of_nat e :: u64) - of_nat m) = e - m"
    using assms unat_of_nat_small [of "e - m", where 'l = 64] by (simp add: index_diff del: of_nat_diff)
  then show ?thesis
    using False by (simp add: slice_from_def unwrap_or_default_def drop_keyed)
qed

definition served :: "'m list \<Rightarrow> nat \<Rightarrow> nat \<Rightarrow> nat" where
  "served H j e = (if e < j then j else length H)"

lemma reader_new_of:
  assumes s: "span H i j" and c: "c \<le> length H"
  shows "reader_new debug (of_nat c) (queue_of H i j) =
    (let e = max c i in
     if debug \<and> e < j \<and> j < length H then Panic
     else Ok \<lparr>mr_cursor = of_nat e, mr_chain = keyed H e (served H j e), mr_unread = of_nat (length H - e)\<rparr>)"
proof -
  define e where "e = max c i"
  have b: "e \<le> length H" "i \<le> e" "i \<le> j" "j \<le> length H" "length H < 2 ^ 64"
    using s c by (auto simp: span_def e_def)
  have cur: "(of_nat (length H) :: u64) - of_nat (length H - e) = of_nat e"
    using b(1) by simp
  have a: "unwrap_or_default (slice_from (keyed H i j) (of_nat e - of_nat i)) = keyed H e j"
    using slice_from_keyed [of i j "length H" e H] b by simp
  have bb: "unwrap_or_default (slice_from (keyed H j (length H)) (of_nat e - of_nat j))
      = (if e < j then [] else keyed H e (length H))"
    using slice_from_keyed [of j "length H" "length H" e H] b by simp
  have ne: "(of_nat (length H - e) :: u64) = of_nat m \<longleftrightarrow> length H - e = m" if "m \<le> length H" for m
  proof
    assume "(of_nat (length H - e) :: u64) = of_nat m"
    then have "unat (of_nat (length H - e) :: u64) = unat (of_nat m :: u64)"
      by simp
    moreover have "length H - e < 2 ^ 64" "m < 2 ^ 64"
      using that b by auto
    ultimately show "length H - e = m"
      by (simp only: unat_of_nat_small len64)
  qed simp
  show ?thesis
    using b ne [of "j - e"] ne [of "length H - e"]
    by (auto simp: reader_new_def cursor_len_of [OF s c] Let_def cur a bb served_def simp flip: e_def
        simp del: of_nat_diff)
qed

lemma read_all_of:
  assumes s: "span H i j" and c: "c \<le> length H"
  shows "read_all debug (of_nat c) (queue_of H i j) =
    (let e = max c i; n = served H j e in
     if debug \<and> e < j \<and> j < length H then Panic else Ok (drop e (take n H), of_nat n))"
proof -
  define e where "e = max c i"
  have n: "e \<le> served H j e" "served H j e \<le> length H"
    using s c by (auto simp: span_def e_def served_def)
  show ?thesis
    using n index_add [of e "served H j e"]
    by (simp add: read_all_def reader_new_of [OF s c] reader_drive_chain map_snd_keyed Let_def del: of_nat_diff
        flip: e_def)
qed

section \<open>The lifetime of a message\<close>

text \<open>What writers and readers rely on: a log with a window that moves at every rotation.\<close>

locale double_buffer =
  fixes shows_log :: "'s \<Rightarrow> 'm list \<Rightarrow> nat \<Rightarrow> nat \<Rightarrow> bool"
    and append_all :: "'s \<Rightarrow> 'm list \<Rightarrow> 's"
    and rotate_once :: "'s \<Rightarrow> 's"
    and at_index :: "'s \<Rightarrow> nat \<Rightarrow> 'm option"
    and bound :: nat
  assumes append_log: "shows_log s H i j \<Longrightarrow> length (H @ ms) < bound \<Longrightarrow> shows_log (append_all s ms) (H @ ms) i j"
    and rotate_log: "shows_log s H i j \<Longrightarrow> shows_log (rotate_once s) H j (length H)"
    and index_log: "shows_log s H i j \<Longrightarrow> k < bound \<Longrightarrow>
      at_index s k = (if i \<le> k \<and> k < length H then Some (H ! k) else None)"
    and log_order: "shows_log s H i j \<Longrightarrow> i \<le> j \<and> j \<le> length H \<and> length H < bound"
begin

text \<open>The messages appended before a rotation stay readable until the next one, and no longer.\<close>

lemma readable_until_second_rotation:
  assumes s: "shows_log s H i j" and k: "j \<le> k" "k < length H" and n: "length (H @ ms) < bound"
  shows "at_index s k = Some (H ! k)" "at_index (append_all (rotate_once s) ms) k = Some (H ! k)"
    "at_index (rotate_once (append_all (rotate_once s) ms)) k = None"
proof -
  have b: "k < bound" "i \<le> j"
    using log_order [OF s] k by auto
  show "at_index s k = Some (H ! k)"
    using index_log [OF s b(1)] k b by simp
  have s2: "shows_log (append_all (rotate_once s) ms) (H @ ms) j (length H)"
    by (rule append_log [OF rotate_log [OF s] n])
  show "at_index (append_all (rotate_once s) ms) k = Some (H ! k)"
    using index_log [OF s2 b(1)] k by (simp add: nth_append)
  show "at_index (rotate_once (append_all (rotate_once s) ms)) k = None"
    using index_log [OF rotate_log [OF s2] b(1)] k by simp
qed

end

definition holds_history :: "'m message_queue \<Rightarrow> 'm list \<Rightarrow> nat \<Rightarrow> nat \<Rightarrow> bool" where
  "holds_history q H i j \<longleftrightarrow> span H i j \<and> q = queue_of H i j"

interpretation mq: double_buffer holds_history queue_extend "\<lambda>q. snd (queue_update debug q)"
    "\<lambda>q k. map_option snd (queue_get q (of_nat k))" "2 ^ 64" for debug
proof unfold_locales
  fix q :: "'a message_queue" and H ms :: "'a list" and i j k
  assume h: "holds_history q H i j"
  then have s: "span H i j" "q = queue_of H i j"
    by (simp_all add: holds_history_def)
  show "holds_history (queue_extend q ms) (H @ ms) i j" if "length (H @ ms) < 2 ^ 64"
    using that s queue_extend_of [of j H i ms] by (simp add: holds_history_def span_def)
  show "holds_history (snd (queue_update debug q)) H j (length H)"
    using s queue_update_of [of H i j debug] by (simp add: holds_history_def span_def)
  show "map_option snd (queue_get q (of_nat k)) = (if i \<le> k \<and> k < length H then Some (H ! k) else None)"
    if "k < 2 ^ 64"
    using queue_get_of [OF s(1) that] s(2) by simp
  show "i \<le> j \<and> j \<le> length H \<and> length H < 2 ^ 64"
    using s(1) by (simp add: span_def)
qed

section \<open>A reading system beside writers and rotations\<close>

text \<open>
  The queue, the cursor of one reading system, the history, what the system has received, and whether
  it has read since the last rotation. A system that runs once per frame reads between any two rotations.
\<close>

inductive msg_run ::
  "bool \<Rightarrow> 'm message_queue \<Rightarrow> message_cursor \<Rightarrow> 'm list \<Rightarrow> 'm list \<Rightarrow> bool \<Rightarrow> bool" for debug where
  run_start: "msg_run debug queue_default (cursor_new (queue_default :: 'm message_queue)) [] [] False"
| run_write: "msg_run debug q c H out f \<Longrightarrow> length (H @ ms) < 2 ^ 64 \<Longrightarrow>
    msg_run debug (snd (write_batch q ms)) c (H @ ms) out f"
| run_read: "msg_run debug q c H out f \<Longrightarrow> read_all debug c q = Ok (ms, c') \<Longrightarrow>
    msg_run debug q c' H (out @ ms) True"
| run_rotate: "msg_run debug q c H out True \<Longrightarrow> queue_update debug q = (Ok (), q') \<Longrightarrow>
    msg_run debug q' c H out False"

lemma msg_run_inv:
  assumes "msg_run debug q c H out f"
  shows "\<exists>i j k. q = queue_of H i j \<and> span H i j \<and> c = of_nat k \<and> i \<le> k \<and> k \<le> length H
    \<and> out = take k H \<and> (f \<longrightarrow> j \<le> k)"
  using assms
proof (induction rule: msg_run.induct)
  case run_start
  show ?case
    by (intro exI [of _ 0])
      (simp add: queue_default_of cursor_new_def oldest_message_index_def span_def)
next
  case (run_write q c H out f ms)
  then obtain i j k where q: "q = queue_of H i j" "span H i j" and c: "c = of_nat k" "i \<le> k" "k \<le> length H"
    "out = take k H" "f \<longrightarrow> j \<le> k"
    by blast
  have "snd (write_batch q ms) = queue_of (H @ ms) i j" "span (H @ ms) i j"
    using q run_write.hyps(2) by (simp_all add: write_batch_def Let_def queue_extend_of span_def)
  then show ?case
    using c by (intro exI [of _ i] exI [of _ j] exI [of _ k]) simp
next
  case (run_read q c H out f ms c')
  then obtain i j k where q: "q = queue_of H i j" "span H i j" and c: "c = of_nat k" "i \<le> k" "k \<le> length H"
    "out = take k H"
    by blast
  let ?n = "served H j k"
  have r: "ms = drop k (take ?n H)" "c' = of_nat ?n"
    using run_read.hyps(2) read_all_of [OF q(2) c(3), of debug] c(2)
    unfolding q(1) c(1) by (simp_all add: Let_def max_absorb1 split: if_splits)
  have "i \<le> ?n" "?n \<le> length H" "j \<le> ?n" "k \<le> ?n"
    using q(2) c(2,3) by (auto simp: served_def span_def)
  moreover from this have "out @ ms = take ?n H"
    unfolding c(4) r(1) by (metis append_take_drop_id min.absorb1 take_take)
  ultimately show ?case
    using q r(2) by (intro exI [of _ i] exI [of _ j] exI [of _ ?n]) simp
next
  case (run_rotate q c H out q')
  then obtain i j k where q: "q = queue_of H i j" "span H i j" and c: "c = of_nat k" "i \<le> k" "k \<le> length H"
    "out = take k H" "j \<le> k"
    by blast
  have "q' = queue_of H j (length H)" "span H j (length H)"
    using run_rotate.hyps(2) q queue_update_of [OF q(2), of debug] by (simp_all add: span_def)
  then show ?case
    using c by (intro exI [of _ j] exI [of _ "length H"] exI [of _ k]) simp
qed

section \<open>Properties\<close>

text \<open>C17: a queue is its history with a window: writing a batch appends to the history and returns the keys
  from the old to the new length, rotating and clearing move the window without failing the assertion, \<^verbatim>\<open>drain\<close> and
  \<^verbatim>\<open>update_drain\<close> return exactly the messages that leave it, and reading or overwriting by key
  succeeds exactly inside it.\<close>
theorem queue_refines_history:
  assumes "span H i j"
  shows "write_batch (queue_of H i j) ms = ((of_nat (length H), of_nat (length (H @ ms))), queue_of (H @ ms) i j)
    \<and> queue_write (queue_of H i j) m = (of_nat (length H), queue_of (H @ [m]) i j)
    \<and> queue_update debug (queue_of H i j) = (Ok (), queue_of H j (length H))
    \<and> queue_clear (queue_of H i j) = queue_of H (length H) (length H)
    \<and> queue_drain (queue_of H i j) = (drop i H, queue_of H (length H) (length H))
    \<and> update_drain debug (queue_of H i j) = (Ok (drop i (take j H)), queue_of H j (length H))
    \<and> (k < 2 ^ 64 \<longrightarrow> queue_get (queue_of H i j) (of_nat k)
        = (if i \<le> k \<and> k < length H then Some (of_nat k, H ! k) else None))
    \<and> (i \<le> k \<and> k < length H \<longrightarrow> queue_get_mut (queue_of H i j) (of_nat k) m
        = (Some (of_nat k, H ! k), queue_of (H[k := m]) i j))"
proof -
  have "j \<le> length H"
    using assms by (simp add: span_def)
  then have "write_batch (queue_of H i j) ms
      = ((of_nat (length H), of_nat (length (H @ ms))), queue_of (H @ ms) i j)"
    by (simp add: write_batch_def queue_extend_of Let_def)
  then show ?thesis
    using queue_write_of [OF \<open>j \<le> length H\<close>] queue_update_of [OF assms] queue_clear_of queue_drain_of [OF assms]
      update_drain_of [OF assms] queue_get_of [OF assms] queue_get_mut_of [OF assms] by blast
qed

theorem queue_refines_history_witness:
  "queue_update True (queue_of [7, 8 :: nat] 0 1) = (Ok (), queue_of [7, 8] 1 (length [7, 8 :: nat]))
    \<and> queue_get (queue_of [7, 8 :: nat] 0 1) 1 = Some (1, 8)"
  using queue_refines_history [of "[7, 8 :: nat]" 0 1 "[]" 0 True 1] by (simp add: span_def)

text \<open>A message can be read by its key from the moment it is written through any number of further writes and one
  rotation, and the second rotation after the write expires it.\<close>
theorem message_lifetime:
  assumes "span H i j" "length (H @ m # ms1 @ ms2) < 2 ^ 64" "queue_write (queue_of H i j) m = (key, q1)"
    "q2 = queue_extend q1 ms1" "q3 = queue_extend (snd (queue_update debug q2)) ms2"
  shows "map_option snd (queue_get q2 key) = Some m \<and> map_option snd (queue_get q3 key) = Some m
    \<and> queue_get (snd (queue_update debug q3)) key = None"
proof -
  have "j \<le> length H"
    using assms(1) by (simp add: span_def)
  then have w: "key = of_nat (length H)" "q1 = queue_of (H @ [m]) i j"
    using assms(3) queue_write_of [of j H i m] by auto
  have "queue_extend q1 ms1 = queue_of ((H @ [m]) @ ms1) i j"
    unfolding w(2) using \<open>j \<le> length H\<close> by (intro queue_extend_of) simp
  then have h: "holds_history q2 (H @ m # ms1) i j"
    using assms(1,2) by (simp add: assms(4) holds_history_def span_def)
  have at: "j \<le> length H" "length H < length (H @ m # ms1)" "length ((H @ m # ms1) @ ms2) < 2 ^ 64"
    using \<open>j \<le> length H\<close> assms(2) by simp_all
  show ?thesis
    using mq.readable_until_second_rotation [OF h at] by (simp add: w(1) assms(5))
qed

theorem message_lifetime_witness:
  "\<exists>q3. map_option snd (queue_get q3 0) = Some (5 :: nat) \<and> queue_get (snd (queue_update True q3)) 0 = None"
proof -
  have "queue_write (queue_of [] 0 0) (5 :: nat) = (0, queue_of [5] 0 0)"
    using queue_write_of [of 0 "[]" 0 5] by simp
  from message_lifetime [OF _ _ this refl refl, of "[6]" "[7]" True] show ?thesis
    by (auto simp: span_def)
qed



text \<open>C33: when a cursor stands in the older sequence and the newer one is not empty, a reader does
  not reach the newer messages: its offset into the newer sequence wraps around below zero and the slice is empty. With
  debug assertions it panics; without, it announces all unread messages and delivers those of the
  older sequence only.\<close>
theorem reader_hides_current:
  assumes "span H i j" "i \<le> k" "k < j" "j < length H"
  shows "reader_new True (of_nat k) (queue_of H i j) = Panic
    \<and> cursor_len (of_nat k) (queue_of H i j) = of_nat (length H - k)
    \<and> read_all False (of_nat k) (queue_of H i j) = Ok (drop k (take j H), of_nat j)"
proof -
  have k: "k \<le> length H" "max k i = k"
    using assms by auto
  show ?thesis
    using assms k reader_new_of [OF assms(1) k(1), of True] cursor_len_of [OF assms(1) k(1)]
      read_all_of [OF assms(1) k(1), of False] by (simp add: Let_def served_def del: of_nat_diff)
qed

theorem reader_hides_current_witness:
  "reader_new True 0 (snd (queue_write (snd (queue_update True (snd (queue_write queue_default 1)))) (2 :: nat))) = Panic
    \<and> read_all False 0 (snd (queue_write (snd (queue_update True (snd (queue_write queue_default 1)))) (2 :: nat)))
        = Ok ([1], 1)"
proof -
  have "snd (queue_write (snd (queue_update True (snd (queue_write queue_default 1)))) (2 :: nat)) = queue_of [1, 2] 0 1"
    by (simp add: queue_default_of queue_write_of queue_update_of span_def)
  then show ?thesis
    using reader_hides_current [of "[1, 2 :: nat]" 0 1 0] by (simp add: span_def)
qed

end
