(* ===== verification/Table_Registry.thy ===== *)
theory Table_Registry
  imports Table_Store
begin

text \<open>
  The registries of bundles and tables (\<^verbatim>\<open>zlim-core/src/bundle/info.rs\<close>, \<^verbatim>\<open>table/tables.rs\<close>,
  \<^verbatim>\<open>component/collector.rs\<close>): which table holds the entities with a given set of components, and to which
  table an entity moves when a bundle is inserted or removed. A component set is a strictly sorted list of ids; the
  interning of slices keeps the list and is the identity here. The transition caches, which the code
  keeps in the tables, are maps of the registry. \<open>None\<close> stands for an access outside a vector.
\<close>

section \<open>Identifiers\<close>

text \<open>\<^verbatim>\<open>define_ident!\<close>: \<^verbatim>\<open>without_provenance\<close> panics at the largest \<^verbatim>\<open>u32\<close>.\<close>

definition without_provenance :: "nat \<Rightarrow> (unit, u32) outcome" where
  "without_provenance n = (if 0xFFFFFFFF \<le> n then Panic else Ok (of_nat n))"

section \<open>Bundles\<close>

record bundles =
  bu_infos :: "u32 list list"
  bu_mapper :: "u32 list \<rightharpoonup> u32"
  bu_required :: "nat \<rightharpoonup> u32"
  bu_explicit :: "nat \<rightharpoonup> u32"

definition bundles_new :: "nat \<Rightarrow> bundles" where
  "bundles_new unit_type =
     \<lparr>bu_infos = [[]], bu_mapper = [[] \<mapsto> 0], bu_required = [unit_type \<mapsto> 0], bu_explicit = [unit_type \<mapsto> 0]\<rparr>"

definition bundle_components :: "bundles \<Rightarrow> u32 \<Rightarrow> u32 list option" where
  "bundle_components bu i = (if unat i < length (bu_infos bu) then Some (bu_infos bu ! unat i) else None)"

definition register_dynamic_bundle :: "bundles \<Rightarrow> u32 list \<Rightarrow> (unit, u32) outcome \<times> bundles" where
  "register_dynamic_bundle bu cs =
     (case bu_mapper bu cs of
        Some i \<Rightarrow> (Ok i, bu)
      | None \<Rightarrow>
          (case without_provenance (length (bu_infos bu)) of
             Ok i \<Rightarrow> (Ok i, bu\<lparr>bu_infos := bu_infos bu @ [cs], bu_mapper := (bu_mapper bu)(cs \<mapsto> i)\<rparr>)
           | Err e \<Rightarrow> (Err e, bu)
           | Panic \<Rightarrow> (Panic, bu)))"

text \<open>The two typed registrations share the steps above and remember the type.\<close>

definition register_required :: "bundles \<Rightarrow> nat \<Rightarrow> u32 list \<Rightarrow> (unit, u32) outcome \<times> bundles" where
  "register_required bu ty cs =
     then_do (register_dynamic_bundle bu cs) (\<lambda>i bu'. (Ok i, bu'\<lparr>bu_required := (bu_required bu')(ty \<mapsto> i)\<rparr>))"

definition register_explicit :: "bundles \<Rightarrow> nat \<Rightarrow> u32 list \<Rightarrow> (unit, u32) outcome \<times> bundles" where
  "register_explicit bu ty cs =
     then_do (register_dynamic_bundle bu cs) (\<lambda>i bu'. (Ok i, bu'\<lparr>bu_explicit := (bu_explicit bu')(ty \<mapsto> i)\<rparr>))"

section \<open>Component sets\<close>

text \<open>The two cursors of \<^verbatim>\<open>merge_sorted\<close> and \<^verbatim>\<open>subtract_sorted\<close> are the remaining lists.\<close>

fun merge_sorted :: "u32 list \<Rightarrow> u32 list \<Rightarrow> u32 list" where
  "merge_sorted (a # as) (b # bs) =
     (if a < b then a # merge_sorted as (b # bs)
      else if a = b then a # merge_sorted as bs
      else b # merge_sorted (a # as) bs)"
| "merge_sorted as [] = as"
| "merge_sorted [] bs = bs"

fun subtract_sorted :: "u32 list \<Rightarrow> u32 list \<Rightarrow> u32 list" where
  "subtract_sorted [] bs = []"
| "subtract_sorted (a # as) bs =
     (let bs' = dropWhile (\<lambda>b. b < a) bs
      in if bs' \<noteq> [] \<and> hd bs' = a then subtract_sorted as bs' else a # subtract_sorted as bs')"

text \<open>
  \<^verbatim>\<open>ComponentCollector::collect_required\<close>, for the requirements of one component after the other: a component that is
  new to the collected set brings its own requirements before the next one. The list holds the calls still
  to be made; \<open>req\<close> gives the components a component requires directly.
\<close>

function collect_required :: "(u32 \<Rightarrow> u32 list) \<Rightarrow> u32 list \<Rightarrow> u32 set \<Rightarrow> u32 set" where
  "collect_required req [] S = S"
| "collect_required req (c # cs) S =
     (if c \<in> S then collect_required req cs S else collect_required req (req c @ cs) (insert c S))"
  by pat_completeness auto
termination
  by (relation "inv_image (finite_psubset <*lex*> less_than) (\<lambda>(req, cs, S). (- S, length cs))")
    (intro wf_inv_image wf_lex_prod wf_finite_psubset wf_less_than, auto simp: finite_psubset_def)

text \<open>The loop of \<^verbatim>\<open>table_after_remove\<close>: the requirements of each remaining component, then the component.\<close>

fun collect_remaining :: "(u32 \<Rightarrow> u32 list) \<Rightarrow> u32 list \<Rightarrow> u32 set \<Rightarrow> u32 set" where
  "collect_remaining req [] S = S"
| "collect_remaining req (c # cs) S = collect_remaining req cs (insert c (collect_required req (req c) S))"

section \<open>Tables\<close>

record 'v tables =
  ts_tables :: "'v table list"
  ts_mapper :: "u32 list \<rightharpoonup> u32"
  ts_bundles :: "u32 option list"
  ts_after_insert :: "u32 \<times> u32 \<rightharpoonup> u32"
  ts_after_remove :: "u32 \<times> u32 \<rightharpoonup> u32"

definition tables_new :: "'v tables" where
  "tables_new = \<lparr>ts_tables = [table_empty], ts_mapper = [[] \<mapsto> 0], ts_bundles = [],
     ts_after_insert = Map.empty, ts_after_remove = Map.empty\<rparr>"

definition tables_get_id :: "'v tables \<Rightarrow> u32 list \<Rightarrow> u32 option" where
  "tables_get_id ts cs = ts_mapper ts cs"

definition tables_get :: "'v tables \<Rightarrow> u32 \<Rightarrow> 'v table option" where
  "tables_get ts i = (if unat i < length (ts_tables ts) then Some (ts_tables ts ! unat i) else None)"

type_synonym 'v tables_run = "((unit, u32) outcome \<times> 'v tables) option"

definition register_dynamic ::
  "(u32 \<Rightarrow> component_info) \<Rightarrow> 'v tables \<Rightarrow> u32 list \<Rightarrow> 'v tables_run" where
  "register_dynamic dbs ts cs =
     (case ts_mapper ts cs of
        Some i \<Rightarrow> Some (Ok i, ts)
      | None \<Rightarrow>
          (case without_provenance (length (ts_tables ts)) of
             Ok i \<Rightarrow>
               do { t \<leftarrow> table_new i dbs cs;
                    Some (Ok i, ts\<lparr>ts_tables := ts_tables ts @ [t], ts_mapper := (ts_mapper ts)(cs \<mapsto> i)\<rparr>) }
           | Err e \<Rightarrow> Some (Err e, ts)
           | Panic \<Rightarrow> Some (Panic, ts)))"

text \<open>\<^verbatim>\<open>Vec::resize_with\<close> fills up with \<^verbatim>\<open>None\<close>.\<close>

definition set_bundle :: "u32 \<Rightarrow> u32 \<Rightarrow> u32 option list \<Rightarrow> u32 option list" where
  "set_bundle b i xs = (xs @ replicate (unat b + 1 - length xs) None)[unat b := Some i]"

definition tables_register ::
  "(u32 \<Rightarrow> component_info) \<Rightarrow> bundles \<Rightarrow> 'v tables \<Rightarrow> u32 \<Rightarrow> 'v tables_run" where
  "tables_register dbs bu ts b =
     (case (if unat b < length (ts_bundles ts) then ts_bundles ts ! unat b else None) of
        Some i \<Rightarrow> Some (Ok i, ts)
      | None \<Rightarrow>
          do { cs \<leftarrow> bundle_components bu b;
               run_then (register_dynamic dbs ts cs)
                 (\<lambda>i ts'. Some (Ok i, ts'\<lparr>ts_bundles := set_bundle b i (ts_bundles ts')\<rparr>)) })"

definition table_after_insert ::
  "(u32 \<Rightarrow> component_info) \<Rightarrow> bundles \<Rightarrow> 'v tables \<Rightarrow> u32 \<Rightarrow> u32 \<Rightarrow> 'v tables_run" where
  "table_after_insert dbs bu ts current b =
     (if current = 0 then tables_register dbs bu ts b
      else do {
        t \<leftarrow> tables_get ts current;
        (case ts_after_insert ts (current, b) of
           Some i \<Rightarrow> Some (Ok i, ts)
         | None \<Rightarrow>
             do { cs \<leftarrow> bundle_components bu b;
                  run_then (register_dynamic dbs ts (merge_sorted (t_components t) cs))
                    (\<lambda>i ts'. Some (Ok i, ts'\<lparr>ts_after_insert := (ts_after_insert ts')((current, b) \<mapsto> i)\<rparr>)) }) })"

definition table_after_remove ::
  "(u32 \<Rightarrow> component_info) \<Rightarrow> (u32 \<Rightarrow> u32 list) \<Rightarrow> bundles \<Rightarrow> 'v tables \<Rightarrow> u32 \<Rightarrow> u32 \<Rightarrow> 'v tables_run" where
  "table_after_remove dbs req bu ts current b =
     do { t \<leftarrow> tables_get ts current;
          (case ts_after_remove ts (current, b) of
             Some i \<Rightarrow> Some (Ok i, ts)
           | None \<Rightarrow>
               do { cs \<leftarrow> bundle_components bu b;
                    run_then (register_dynamic dbs ts
                        (sorted_list_of_set (collect_remaining req (subtract_sorted (t_components t) cs) {})))
                      (\<lambda>i ts'. Some (Ok i, ts'\<lparr>ts_after_remove := (ts_after_remove ts')((current, b) \<mapsto> i)\<rparr>)) }) }"

section \<open>Merging, subtracting and collecting as set operations\<close>

lemma merge_sorted_set:
  "sorted_wrt (<) as \<Longrightarrow> sorted_wrt (<) bs \<Longrightarrow>
     sorted_wrt (<) (merge_sorted as bs) \<and> set (merge_sorted as bs) = set as \<union> set bs"
  by (induction as bs rule: merge_sorted.induct) force+

lemma subtract_sorted_set:
  "sorted_wrt (<) as \<Longrightarrow> sorted_wrt (<) bs \<Longrightarrow>
     sorted_wrt (<) (subtract_sorted as bs) \<and> set (subtract_sorted as bs) = set as - set bs"
proof (induction as bs rule: subtract_sorted.induct)
  case (2 a as bs)
  define bs' where "bs' = dropWhile (\<lambda>b. b < a) bs"
  have s: "sorted_wrt (<) bs'"
    unfolding bs'_def using 2(4) by (metis sorted_wrt_append takeWhile_dropWhile_id)
  have big: "a \<le> x" if "x \<in> set bs'" for x
  proof (cases bs')
    case (Cons y ys)
    then have "\<not> y < a"
      unfolding bs'_def by (metis dropWhile_eq_Cons_conv)
    then show ?thesis
      using that s Cons by auto
  qed (use that in simp)
  have rest: "set as - set bs = set as - set bs'"
  proof -
    have "x \<in> set bs'" if "x \<in> set as" "x \<in> set bs" for x
    proof -
      have "\<not> x < a"
        using that(1) 2(3) by auto
      then show ?thesis
        using that(2) unfolding bs'_def by (metis Un_iff set_append set_takeWhileD takeWhile_dropWhile_id)
    qed
    moreover have "set bs' \<subseteq> set bs"
      by (auto simp: bs'_def dest: set_dropWhileD)
    ultimately show ?thesis by auto
  qed
  have a: "a \<in> set bs \<longleftrightarrow> bs' \<noteq> [] \<and> hd bs' = a"
  proof
    assume "a \<in> set bs"
    then have "a \<in> set bs'"
      unfolding bs'_def by (metis Un_iff less_irrefl set_append set_takeWhileD takeWhile_dropWhile_id)
    then show "bs' \<noteq> [] \<and> hd bs' = a"
      using s big by (cases bs') force+
  next
    assume "bs' \<noteq> [] \<and> hd bs' = a"
    then have "a \<in> set bs'"
      by (metis list.set_sel(1))
    then show "a \<in> set bs"
      unfolding bs'_def by (rule set_dropWhileD)
  qed
  have as: "sorted_wrt (<) as" "\<forall>x\<in>set as. a < x"
    using 2(3) by auto
  show ?case
  proof (cases "bs' \<noteq> [] \<and> hd bs' = a")
    case True
    then show ?thesis
      using 2(1) [OF bs'_def] as s a rest by (auto simp: Let_def simp flip: bs'_def)
  next
    case False
    have "sorted_wrt (<) (subtract_sorted as bs') \<and> set (subtract_sorted as bs') = set as - set bs'"
      using 2(2) [OF bs'_def] False as(1) s by simp
    then show ?thesis
      using False as a rest by (auto simp: Let_def simp flip: bs'_def)
  qed
qed simp

text \<open>What a component requires, directly or through others.\<close>

definition requires :: "(u32 \<Rightarrow> u32 list) \<Rightarrow> (u32 \<times> u32) set" where
  "requires req = {(a, b). b \<in> set (req a)}"

lemma collect_required_contains: "S \<union> set cs \<subseteq> collect_required req cs S"
  by (induction req cs S rule: collect_required.induct) (auto split: if_splits)

lemma collect_required_closed:
  "x \<in> collect_required req cs S \<Longrightarrow> x \<notin> S \<Longrightarrow> set (req x) \<subseteq> collect_required req cs S"
proof (induction req cs S arbitrary: x rule: collect_required.induct)
  case (2 req c cs S)
  show ?case
  proof (cases "x = c")
    case True
    then show ?thesis
      using 2(4) collect_required_contains [of "insert c S" "req c @ cs" req] by auto
  next
    case False
    then show ?thesis
      using 2 by (auto split: if_splits)
  qed
qed simp

lemma collect_required_reach: "collect_required req cs S \<subseteq> S \<union> (requires req)\<^sup>* `` set cs"
proof (induction req cs S rule: collect_required.induct)
  case (2 req c cs S)
  have "(requires req)\<^sup>* `` set (req c @ cs) \<subseteq> (requires req)\<^sup>* `` set (c # cs)"
    by (auto simp: requires_def intro: converse_rtrancl_into_rtrancl)
  moreover have "c \<in> (requires req)\<^sup>* `` set (c # cs)"
    by auto
  ultimately show ?case
    using 2 by (cases "c \<in> S") (simp, blast, simp, blast)
qed simp

lemma collect_required_eq:
  assumes "\<And>x. x \<in> S \<Longrightarrow> set (req x) \<subseteq> S"
  shows "collect_required req cs S = S \<union> (requires req)\<^sup>* `` set cs"
proof
  let ?R = "collect_required req cs S"
  have step: "set (req x) \<subseteq> ?R" if "x \<in> ?R" for x
    using that collect_required_closed [of x req cs S] assms [of x] collect_required_contains [of S cs req] by blast
  have "y \<in> ?R" if "(x, y) \<in> (requires req)\<^sup>*" "x \<in> set cs" for x y
    using that
  proof (induction rule: rtrancl_induct)
    case base
    then show ?case
      using collect_required_contains [of S cs req] by blast
  qed (use step in \<open>auto simp: requires_def\<close>)
  then show "S \<union> (requires req)\<^sup>* `` set cs \<subseteq> ?R"
    using collect_required_contains [of S cs req] by blast
qed (rule collect_required_reach)

lemma collect_remaining_eq:
  assumes "\<And>x. x \<in> S \<Longrightarrow> set (req x) \<subseteq> S"
  shows "collect_remaining req cs S = S \<union> (requires req)\<^sup>* `` set cs"
  using assms
proof (induction cs arbitrary: S)
  case (Cons c cs)
  let ?S = "insert c (collect_required req (req c) S)"
  have "(requires req)\<^sup>* `` {c} = insert c ((requires req)\<^sup>* `` set (req c))"
    by (auto simp: requires_def elim: converse_rtranclE intro: converse_rtrancl_into_rtrancl)
  then have eq: "?S = S \<union> (requires req)\<^sup>* `` {c}"
    using collect_required_eq [OF Cons.prems, where cs = "req c"] by auto
  have "set (req x) \<subseteq> ?S" if "x \<in> ?S" for x
    using that Cons.prems unfolding eq by (auto simp: requires_def intro: rtrancl_into_rtrancl)
  from Cons.IH [OF this] show ?case
    unfolding collect_remaining.simps eq by (simp add: Un_assoc) auto
qed simp

section \<open>The invariant of the registry\<close>

definition bundles_inv :: "bundles \<Rightarrow> bool" where
  "bundles_inv bu \<longleftrightarrow> length (bu_infos bu) \<le> 0xFFFFFFFF \<and> (\<forall>cs\<in>set (bu_infos bu). sorted_wrt (<) cs)
     \<and> (\<forall>cs i. bu_mapper bu cs = Some i \<longleftrightarrow> bundle_components bu i = Some cs)"

definition set_of :: "'v tables \<Rightarrow> u32 \<Rightarrow> u32 list option" where
  "set_of ts i = map_option t_components (tables_get ts i)"

text \<open>The component sets that a bundle, inserted or removed, leads to.\<close>

definition inserted_set :: "bundles \<Rightarrow> u32 list \<Rightarrow> u32 \<Rightarrow> u32 list option" where
  "inserted_set bu cs b = map_option (\<lambda>bs. sorted_list_of_set (set cs \<union> set bs)) (bundle_components bu b)"

definition removed_set :: "(u32 \<Rightarrow> u32 list) \<Rightarrow> bundles \<Rightarrow> u32 list \<Rightarrow> u32 \<Rightarrow> u32 list option" where
  "removed_set req bu cs b =
     map_option (\<lambda>bs. sorted_list_of_set ((requires req)\<^sup>* `` (set cs - set bs))) (bundle_components bu b)"

text \<open>The caches agree with the sets of the tables, given by \<open>S\<close>.\<close>

definition bundle_cache_ok :: "bundles \<Rightarrow> (u32 \<rightharpoonup> u32 list) \<Rightarrow> u32 option list \<Rightarrow> bool" where
  "bundle_cache_ok bu S xs \<longleftrightarrow>
     (\<forall>b i. unat b < length xs \<longrightarrow> xs ! unat b = Some i \<longrightarrow> (\<exists>cs. bundle_components bu b = Some cs \<and> S i = Some cs))"

definition edge_cache_ok :: "(u32 list \<Rightarrow> u32 \<Rightarrow> u32 list option) \<Rightarrow> (u32 \<rightharpoonup> u32 list) \<Rightarrow> (u32 \<times> u32 \<rightharpoonup> u32) \<Rightarrow> bool" where
  "edge_cache_ok target S m \<longleftrightarrow>
     (\<forall>cur b i. m (cur, b) = Some i \<longrightarrow>
        (\<exists>cs cs'. S cur = Some cs \<and> target cs b = Some cs' \<and> S i = Some cs'))"

definition core_inv :: "'v tables \<Rightarrow> bool" where
  "core_inv ts \<longleftrightarrow>
     length (ts_tables ts) \<le> 0xFFFFFFFF \<and> set_of ts 0 = Some []
     \<and> (\<forall>k<length (ts_tables ts). t_id (ts_tables ts ! k) = of_nat k \<and> table_inv (ts_tables ts ! k))
     \<and> (\<forall>cs i. ts_mapper ts cs = Some i \<longleftrightarrow> set_of ts i = Some cs)"

definition tables_inv :: "(u32 \<Rightarrow> u32 list) \<Rightarrow> bundles \<Rightarrow> 'v tables \<Rightarrow> bool" where
  "tables_inv req bu ts \<longleftrightarrow> core_inv ts \<and> bundle_cache_ok bu (set_of ts) (ts_bundles ts)
     \<and> edge_cache_ok (inserted_set bu) (set_of ts) (ts_after_insert ts)
     \<and> edge_cache_ok (removed_set req bu) (set_of ts) (ts_after_remove ts)"

lemma map_leD: "S \<subseteq>\<^sub>m S' \<Longrightarrow> S x = Some y \<Longrightarrow> S' x = Some y"
  by (metis domI map_le_def)

lemma bundle_cache_mono: "S \<subseteq>\<^sub>m S' \<Longrightarrow> bundle_cache_ok bu S xs \<Longrightarrow> bundle_cache_ok bu S' xs"
  unfolding bundle_cache_ok_def by (meson map_leD)

lemma edge_cache_mono: "S \<subseteq>\<^sub>m S' \<Longrightarrow> edge_cache_ok f S m \<Longrightarrow> edge_cache_ok f S' m"
  unfolding edge_cache_ok_def by (meson map_leD)

lemma edge_cache_update:
  "edge_cache_ok f S m \<Longrightarrow> S cur = Some cs \<Longrightarrow> f cs b = Some cs' \<Longrightarrow> S i = Some cs' \<Longrightarrow>
     edge_cache_ok f S (m((cur, b) \<mapsto> i))"
  by (auto simp: edge_cache_ok_def)

lemma set_bundle_nth:
  "unat c < length (set_bundle b i xs) \<Longrightarrow>
     set_bundle b i xs ! unat c = (if c = b then Some i else if unat c < length xs then xs ! unat c else None)"
  by (auto simp: set_bundle_def nth_list_update nth_append word_unat_eq_iff)

lemma bundle_cache_update:
  "bundle_cache_ok bu S xs \<Longrightarrow> bundle_components bu b = Some cs \<Longrightarrow> S i = Some cs \<Longrightarrow>
     bundle_cache_ok bu S (set_bundle b i xs)"
  unfolding bundle_cache_ok_def by (metis option.inject option.distinct(1) set_bundle_nth)

lemma set_of_cong [simp]:
  "set_of (ts\<lparr>ts_bundles := x\<rparr>) = set_of ts" "set_of (ts\<lparr>ts_after_insert := y\<rparr>) = set_of ts"
  "set_of (ts\<lparr>ts_after_remove := y\<rparr>) = set_of ts"
  by (simp_all add: set_of_def tables_get_def fun_eq_iff)

lemma core_inv_cong [simp]:
  "core_inv (ts\<lparr>ts_bundles := x\<rparr>) = core_inv ts" "core_inv (ts\<lparr>ts_after_insert := y\<rparr>) = core_inv ts"
  "core_inv (ts\<lparr>ts_after_remove := y\<rparr>) = core_inv ts"
  by (simp_all add: core_inv_def)

lemma core_inv_mapper: "core_inv ts \<Longrightarrow> ts_mapper ts cs = Some i \<longleftrightarrow> set_of ts i = Some cs"
  by (simp add: core_inv_def)

lemma tables_new_inv: "tables_inv req bu tables_new"
proof -
  have s: "set_of tables_new i = (if i = 0 then Some [] else None)" for i
    by (auto simp: set_of_def tables_get_def tables_new_def table_empty_def unat_eq_zero)
  have m: "ts_mapper tables_new cs = (if cs = [] then Some 0 else None)" for cs
    by (simp add: tables_new_def)
  have "core_inv tables_new"
    by (auto simp: core_inv_def s m) (auto simp: tables_new_def table_empty_def table_inv_def)
  then show ?thesis
    by (simp add: tables_inv_def) (simp add: tables_new_def bundle_cache_ok_def edge_cache_ok_def)
qed

lemma table_new_ok:
  assumes "sorted_wrt (<) cs"
  obtains t :: "'v table" where "table_new i dbs cs = Some t" "table_inv t" "t_components t = cs" "t_id t = i" "t_entities t = []"
proof -
  have "sorted cs"
    using assms strict_sorted_imp_sorted by blast
  then have "\<exists>t :: 'v table. table_new i dbs cs = Some t \<and> table_inv t \<and> t_components t = cs \<and> t_id t = i \<and> t_entities t = []"
    using assms by (simp add: table_new_def table_inv_def col_ok_def column_new_def blob_new_def with_summary_def Let_def)
      auto
  then show ?thesis
    using that by blast
qed

text \<open>How the tables of a registry grow: old ones stay where they are, new ones are empty.\<close>

definition tables_grow :: "'v tables \<Rightarrow> 'v tables \<Rightarrow> bool" where
  "tables_grow ts ts' \<longleftrightarrow> (\<exists>new. ts_tables ts' = ts_tables ts @ new \<and> (\<forall>t\<in>set new. t_entities t = []))"

lemma tables_grow_refl [simp]: "tables_grow ts ts"
  by (simp add: tables_grow_def)

lemma grow_set_of: "tables_grow ts ts' \<Longrightarrow> set_of ts \<subseteq>\<^sub>m set_of ts'"
  by (auto simp: tables_grow_def set_of_def tables_get_def nth_append map_le_def)

lemma register_dynamic_ok:
  assumes inv: "tables_inv req bu ts" and cs: "sorted_wrt (<) cs" and room: "length (ts_tables ts) < 0xFFFFFFFF"
  obtains i ts' where "register_dynamic dbs ts cs = Some (Ok i, ts')" "tables_inv req bu ts'" "set_of ts' i = Some cs"
    "tables_grow ts ts'"
proof (cases "ts_mapper ts cs")
  case (Some i)
  then have "set_of ts i = Some cs"
    using inv core_inv_mapper by (auto simp: tables_inv_def)
  then show ?thesis
    using that [of i ts] Some inv by (simp add: register_dynamic_def)
next
  case None
  let ?n = "length (ts_tables ts)"
  have u: "unat (of_nat ?n :: u32) = ?n"
    using room by (intro unat_of_nat_small) simp
  obtain t :: "'a table" where t: "table_new (of_nat ?n) dbs cs = Some t" "table_inv t" "t_components t = cs" "t_id t = of_nat ?n"
    "t_entities t = []"
    by (rule table_new_ok [OF cs])
  let ?ts = "ts\<lparr>ts_tables := ts_tables ts @ [t], ts_mapper := (ts_mapper ts)(cs \<mapsto> of_nat ?n)\<rparr>"
  have g: "tables_grow ts ?ts"
    using t(5) by (auto simp: tables_grow_def)
  have s: "set_of ?ts i = (if i = of_nat ?n then Some cs else set_of ts i)" for i
    using t(3) u by (auto simp: set_of_def tables_get_def nth_append less_Suc_eq word_unat_eq_iff [of i])
  have new: "set_of ts (of_nat ?n) = None"
    by (simp add: set_of_def tables_get_def u)
  have "register_dynamic dbs ts cs = Some (Ok (of_nat ?n), ?ts)"
    using None room t(1) by (simp add: register_dynamic_def without_provenance_def)
  moreover have "tables_inv req bu ?ts"
  proof -
    have core: "core_inv ts"
      using inv by (simp add: tables_inv_def)
    have m: "set_of ts i \<noteq> Some cs" for i
      using core_inv_mapper [OF core, of cs i] None by simp
    have "ts_mapper ?ts ds = Some i \<longleftrightarrow> set_of ?ts i = Some ds" for ds i
      using core_inv_mapper [OF core, of ds i] m [of i] new unfolding s by auto
    moreover have "set_of ?ts 0 = Some []"
      using core new unfolding s by (auto simp: core_inv_def)
    moreover have "\<forall>k<length (ts_tables ?ts). t_id (ts_tables ?ts ! k) = of_nat k \<and> table_inv (ts_tables ?ts ! k)"
      using core t by (auto simp: core_inv_def nth_append less_Suc_eq)
    ultimately have "core_inv ?ts"
      using room by (simp add: core_inv_def)
    then show ?thesis
      using inv bundle_cache_mono [OF grow_set_of [OF g]] edge_cache_mono [OF grow_set_of [OF g]]
      by (simp add: tables_inv_def)
  qed
  ultimately show ?thesis
    using that g s by simp
qed

lemma set_of_sorted: "tables_inv req bu ts \<Longrightarrow> set_of ts i = Some cs \<Longrightarrow> sorted_wrt (<) cs"
  by (auto simp: tables_inv_def core_inv_def set_of_def tables_get_def table_inv_def split: if_splits)

lemma sorted_set_unique: "sorted_wrt (<) xs \<Longrightarrow> sorted_list_of_set (set xs) = xs"
  for xs :: "u32 list"
  by (simp add: sorted_list_of_set.idem_if_sorted_distinct strict_sorted_iff)

lemma bundle_sorted: "bundles_inv bu \<Longrightarrow> bundle_components bu b = Some bs \<Longrightarrow> sorted_wrt (<) bs"
  by (auto simp: bundles_inv_def bundle_components_def split: if_splits)

lemma tables_register_ok:
  assumes inv: "tables_inv req bu ts" and room: "length (ts_tables ts) < 0xFFFFFFFF" and bu: "bundles_inv bu"
    and b: "bundle_components bu b = Some bs"
  obtains i ts' where "tables_register dbs bu ts b = Some (Ok i, ts')" "tables_inv req bu ts'" "set_of ts' i = Some bs"
    "tables_grow ts ts'"
proof (cases "unat b < length (ts_bundles ts) \<and> ts_bundles ts ! unat b \<noteq> None")
  case True
  then obtain i where i: "unat b < length (ts_bundles ts)" "ts_bundles ts ! unat b = Some i"
    by auto
  moreover from this have "set_of ts i = Some bs"
    using inv b by (auto simp: tables_inv_def bundle_cache_ok_def)
  ultimately show ?thesis
    using that [of i ts] inv by (simp add: tables_register_def)
next
  case False
  obtain i ts' where r: "register_dynamic dbs ts bs = Some (Ok i, ts')" "tables_inv req bu ts'" "set_of ts' i = Some bs"
    "tables_grow ts ts'"
    by (rule register_dynamic_ok [OF inv bundle_sorted [OF bu b] room])
  let ?ts = "ts'\<lparr>ts_bundles := set_bundle b i (ts_bundles ts')\<rparr>"
  have "tables_register dbs bu ts b = Some (Ok i, ?ts)"
    using False b r(1) by (auto simp: tables_register_def)
  moreover have "tables_inv req bu ?ts"
    using r(2,3) b bundle_cache_update by (simp add: tables_inv_def)
  ultimately show ?thesis
    using that r(3,4) by (simp add: tables_grow_def)
qed

lemma table_after_insert_ok:
  assumes inv: "tables_inv req bu ts" and room: "length (ts_tables ts) < 0xFFFFFFFF" and bu: "bundles_inv bu"
    and b: "bundle_components bu b = Some bs" and cur: "set_of ts current = Some cs"
  obtains i ts' where "table_after_insert dbs bu ts current b = Some (Ok i, ts')" "tables_inv req bu ts'"
    "set_of ts' i = inserted_set bu cs b" "tables_grow ts ts'"
proof -
  have sbs: "sorted_wrt (<) bs" "sorted_wrt (<) cs"
    using bundle_sorted [OF bu b] set_of_sorted [OF inv cur] .
  then have merged: "merge_sorted cs bs = sorted_list_of_set (set cs \<union> set bs)" "sorted_wrt (<) (merge_sorted cs bs)"
    using merge_sorted_set [of cs bs] sorted_set_unique [of "merge_sorted cs bs"] by simp_all
  consider (empty) "current = 0" | (cached) i where "current \<noteq> 0" "ts_after_insert ts (current, b) = Some i"
    | (compute) "current \<noteq> 0" "ts_after_insert ts (current, b) = None"
    by fastforce
  then show ?thesis
  proof cases
    case empty
    then have "cs = []"
      using inv cur by (simp add: tables_inv_def core_inv_def)
    then have "inserted_set bu cs b = Some bs"
      using b sbs(1) by (simp add: inserted_set_def sorted_set_unique)
    then show ?thesis
      using tables_register_ok [OF inv room bu b, of dbs] that empty by (auto simp: table_after_insert_def)
  next
    case (cached i)
    then have "set_of ts i = inserted_set bu cs b"
      using inv cur by (fastforce simp: tables_inv_def edge_cache_ok_def)
    then show ?thesis
      using that [of i ts] cached cur inv by (auto simp: table_after_insert_def set_of_def)
  next
    case compute
    obtain i ts' where r: "register_dynamic dbs ts (merge_sorted cs bs) = Some (Ok i, ts')" "tables_inv req bu ts'"
      "set_of ts' i = Some (merge_sorted cs bs)" "tables_grow ts ts'"
      by (rule register_dynamic_ok [OF inv merged(2) room])
    let ?ts = "ts'\<lparr>ts_after_insert := (ts_after_insert ts')((current, b) \<mapsto> i)\<rparr>"
    have target: "inserted_set bu cs b = Some (merge_sorted cs bs)"
      using b merged by (simp add: inserted_set_def)
    have "table_after_insert dbs bu ts current b = Some (Ok i, ?ts)"
      using compute cur b r(1) by (auto simp: table_after_insert_def set_of_def)
    moreover have "tables_inv req bu ?ts"
      using r(2,3) target map_leD [OF grow_set_of [OF r(4)] cur]
        edge_cache_update [where S = "set_of ts'" and cur = current and cs = cs and i = i and b = b]
      by (simp add: tables_inv_def)
    ultimately show ?thesis
      using that r(3,4) target by (simp add: tables_grow_def)
  qed
qed

lemma table_after_remove_ok:
  assumes inv: "tables_inv req bu ts" and room: "length (ts_tables ts) < 0xFFFFFFFF" and bu: "bundles_inv bu"
    and b: "bundle_components bu b = Some bs" and cur: "set_of ts current = Some cs"
  obtains i ts' where "table_after_remove dbs req bu ts current b = Some (Ok i, ts')" "tables_inv req bu ts'"
    "set_of ts' i = removed_set req bu cs b" "tables_grow ts ts'"
proof (cases "ts_after_remove ts (current, b)")
  case (Some i)
  then have "set_of ts i = removed_set req bu cs b"
    using inv cur by (fastforce simp: tables_inv_def edge_cache_ok_def)
  then show ?thesis
    using that [of i ts] Some cur inv by (auto simp: table_after_remove_def set_of_def)
next
  case None
  let ?ds = "sorted_list_of_set (collect_remaining req (subtract_sorted cs bs) {})"
  have target: "removed_set req bu cs b = Some ?ds"
    using subtract_sorted_set [OF set_of_sorted [OF inv cur] bundle_sorted [OF bu b]]
      collect_remaining_eq [of "{}" req "subtract_sorted cs bs"] b by (simp add: removed_set_def)
  have "sorted_wrt (<) ?ds"
    by simp
  then obtain i ts' where r: "register_dynamic dbs ts ?ds = Some (Ok i, ts')" "tables_inv req bu ts'"
    "set_of ts' i = Some ?ds" "tables_grow ts ts'"
    by (rule register_dynamic_ok [OF inv _ room])
  let ?ts = "ts'\<lparr>ts_after_remove := (ts_after_remove ts')((current, b) \<mapsto> i)\<rparr>"
  have "table_after_remove dbs req bu ts current b = Some (Ok i, ?ts)"
    using None cur b r(1) by (auto simp: table_after_remove_def set_of_def)
  moreover have "tables_inv req bu ?ts"
    using r(2,3) target map_leD [OF grow_set_of [OF r(4)] cur]
        edge_cache_update [where S = "set_of ts'" and cur = current and cs = cs and i = i and b = b]
      by (simp add: tables_inv_def)
  ultimately show ?thesis
    using that r(3,4) target by (simp add: tables_grow_def)
qed

section \<open>Registering bundles\<close>

lemma register_dynamic_bundle_ok:
  assumes inv: "bundles_inv bu" and cs: "sorted_wrt (<) cs" and room: "length (bu_infos bu) < 0xFFFFFFFF"
  obtains i bu' where "register_dynamic_bundle bu cs = (Ok i, bu')" "bundles_inv bu'" "bundle_components bu' i = Some cs"
    "bundle_components bu \<subseteq>\<^sub>m bundle_components bu'"
proof (cases "bu_mapper bu cs")
  case (Some i)
  then show ?thesis
    using that [of i bu] inv by (simp add: register_dynamic_bundle_def bundles_inv_def)
next
  case None
  let ?n = "length (bu_infos bu)"
  have u: "unat (of_nat ?n :: u32) = ?n"
    using room by (intro unat_of_nat_small) simp
  let ?bu = "bu\<lparr>bu_infos := bu_infos bu @ [cs], bu_mapper := (bu_mapper bu)(cs \<mapsto> of_nat ?n)\<rparr>"
  have s: "bundle_components ?bu i = (if i = of_nat ?n then Some cs else bundle_components bu i)" for i
    using u by (auto simp: bundle_components_def nth_append less_Suc_eq word_unat_eq_iff [of i])
  have new: "bundle_components bu (of_nat ?n) = None"
    by (simp add: bundle_components_def u)
  have "bundle_components bu i \<noteq> Some cs" for i
    using inv None unfolding bundles_inv_def by (metis option.distinct(1))
  then have "bu_mapper ?bu ds = Some i \<longleftrightarrow> bundle_components ?bu i = Some ds" for ds i
    using inv new unfolding s bundles_inv_def by auto
  then have "bundles_inv ?bu"
    using inv cs room by (simp add: bundles_inv_def)
  moreover have "register_dynamic_bundle bu cs = (Ok (of_nat ?n), ?bu)"
    using None room by (simp add: register_dynamic_bundle_def without_provenance_def)
  moreover have "bundle_components bu \<subseteq>\<^sub>m bundle_components ?bu"
    using new by (auto simp: map_le_def s)
  ultimately show ?thesis
    using that s by simp
qed

lemma bundles_new_inv: "bundles_inv (bundles_new ty)"
  by (auto simp: bundles_inv_def bundles_new_def bundle_components_def unat_eq_zero)

section \<open>Properties\<close>



end
