(* ===== verification/Component_Writer.thy ===== *)
theory Component_Writer
  imports Table_Store
begin

text \<open>
  The component writer (\<^verbatim>\<open>zlim-core/src/component/writer.rs\<close>): while an entity is spawned, its bundle hands the
  components one by one to a writer of the freshly allocated row. A component type is identified with its
  component id. A bundle is the list of the components it writes and the list of the required components
  it constructs when they are missing, in the order of its \<^verbatim>\<open>write_explicit\<close> and \<^verbatim>\<open>write_required\<close>.
\<close>

section \<open>Writers\<close>

record 'v component_writer =
  cw_table :: "'v table"
  cw_row :: u32
  cw_now :: tick
  cw_slots :: "u32 \<rightharpoonup> bool"

type_synonym 'v writer_run = "((entity_error, unit) outcome \<times> 'v component_writer) option"

text \<open>A slot per component, marked as not initialised; the row must exist.\<close>

definition writer_from_table ::
  "'v table \<Rightarrow> u32 \<Rightarrow> tick \<Rightarrow> (entity_error, 'v component_writer) outcome" where
  "writer_from_table t row now =
     (if unat row < length (t_entities t)
      then Ok \<lparr>cw_table = t, cw_row = row, cw_now = now,
              cw_slots = (\<lambda>c. if c \<in> set (t_components t) then Some False else None)\<rparr>
      else Panic)"

definition writer_contains :: "'v component_writer \<Rightarrow> u32 \<Rightarrow> bool" where
  "writer_contains w cid \<longleftrightarrow> cw_slots w cid \<noteq> None"

definition assume_init :: "'v component_writer \<Rightarrow> u32 \<Rightarrow> (entity_error, unit) outcome \<times> 'v component_writer" where
  "assume_init w cid =
     (case cw_slots w cid of
        Some _ \<Rightarrow> (Ok (), w\<lparr>cw_slots := (cw_slots w)(cid \<mapsto> True)\<rparr>)
      | None \<Rightarrow> (Panic, w))"

text \<open>An initialised value is dropped in place before it is overwritten.\<close>

definition write_column :: "bool \<Rightarrow> tick \<Rightarrow> nat \<Rightarrow> 'v \<Rightarrow> 'v column \<Rightarrow> 'v column option" where
  "write_column init now i v c =
     do { c1 \<leftarrow> (if init
               then do { d \<leftarrow> blob_drop_item (c_data c) i; mark_changed (c\<lparr>c_data := d\<rparr>) i now }
               else mark_added_and_changed c i now);
          d \<leftarrow> blob_init_item (c_data c1) i (Some v);
          Some (c1\<lparr>c_data := d\<rparr>) }"

definition write_raw :: "'v component_writer \<Rightarrow> u32 \<Rightarrow> 'v \<Rightarrow> 'v component_writer option" where
  "write_raw w cid v =
     do { init \<leftarrow> cw_slots w cid;
          k \<leftarrow> get_table_col (cw_table w) cid;
          t \<leftarrow> on_column (cw_table w) k (cw_row w) (write_column init (cw_now w) (unat (cw_row w)) v);
          Some (w\<lparr>cw_table := t, cw_slots := (cw_slots w)(cid \<mapsto> True)\<rparr>) }"

definition writer_write :: "'v component_writer \<Rightarrow> u32 \<times> 'v \<Rightarrow> 'v writer_run" where
  "writer_write w p =
     (if writer_contains w (fst p) then map_option (Pair (Ok ())) (write_raw w (fst p) (snd p))
      else Some (Panic, w))"

definition write_if_uninit :: "'v component_writer \<Rightarrow> u32 \<times> 'v \<Rightarrow> 'v writer_run" where
  "write_if_uninit w p =
     (case cw_slots w (fst p) of
        None \<Rightarrow> Some (Panic, w)
      | Some True \<Rightarrow> Some (Ok (), w)
      | Some False \<Rightarrow> map_option (Pair (Ok ())) (write_raw w (fst p) (snd p)))"

fun write_each ::
  "('v component_writer \<Rightarrow> u32 \<times> 'v \<Rightarrow> 'v writer_run) \<Rightarrow> (u32 \<times> 'v) list \<Rightarrow> 'v component_writer \<Rightarrow> 'v writer_run" where
  "write_each f [] w = Some (Ok (), w)"
| "write_each f (p # ps) w = run_then (f w p) (\<lambda>_. write_each f ps)"

record 'v bundle_data =
  bd_explicit :: "(u32 \<times> 'v) list"
  bd_required :: "(u32 \<times> 'v) list"

text \<open>The two calls of the spawner on one writer.\<close>

definition write_bundle :: "'v bundle_data \<Rightarrow> 'v component_writer \<Rightarrow> 'v writer_run" where
  "write_bundle b w =
     run_then (write_each writer_write (bd_explicit b) w) (\<lambda>_. write_each write_if_uninit (bd_required b))"

section \<open>What has been written\<close>

text \<open>
  \<open>W\<close> lists for every component the values written to the row so far: the last one is stored, those before it have
  been dropped, and nothing but the row has changed.
\<close>

definition col_written :: "nat \<Rightarrow> nat \<Rightarrow> tick \<Rightarrow> 'v list \<Rightarrow> 'v column \<Rightarrow> 'v column \<Rightarrow> bool" where
  "col_written cap i now vs c0 c \<longleftrightarrow>
     col_ok cap c \<and> (\<forall>j<cap. j \<noteq> i \<longrightarrow> item c j = item c0 j) \<and> col_drops c = col_drops c0
     \<and> (if vs = [] then c = c0
        else item c i = (Some (last vs), Some now, Some now)
          \<and> col_log c = col_log c0 @ (if col_drops c0 then butlast vs else []))"

definition written :: "'v table \<Rightarrow> u32 \<Rightarrow> tick \<Rightarrow> (u32 \<Rightarrow> 'v list) \<Rightarrow> 'v component_writer \<Rightarrow> bool" where
  "written t0 row now W w \<longleftrightarrow>
     table_inv (cw_table w) \<and> t_id (cw_table w) = t_id t0 \<and> t_cap (cw_table w) = t_cap t0
     \<and> t_entities (cw_table w) = t_entities t0 \<and> t_components (cw_table w) = t_components t0
     \<and> cw_row w = row \<and> cw_now w = now
     \<and> cw_slots w = (\<lambda>c. if c \<in> set (t_components t0) then Some (W c \<noteq> []) else None)
     \<and> (\<forall>k<length (t_components t0).
          col_written (t_cap t0) (unat row) now (W (t_components t0 ! k)) (t_columns t0 ! k) (t_columns (cw_table w) ! k))"

lemma write_column_ok:
  assumes c: "col_written cap i now vs c0 c" and ok: "col_ok cap c0" and i: "i < cap"
  obtains c' where "write_column (vs \<noteq> []) now i v c = Some c'" "col_written cap i now (vs @ [v]) c0 c'"
proof (cases "vs = []")
  case True
  let ?c = "c0\<lparr>c_added := (c_added c0)[i := Some now], c_changed := (c_changed c0)[i := Some now],
    c_summary := try_mutate (c_summary c0) now, c_data := (c_data c0)\<lparr>b_cells := (b_cells (c_data c0))[i := Some v]\<rparr>\<rparr>"
  have "c = c0"
    using c True by (simp add: col_written_def)
  then have "write_column (vs \<noteq> []) now i v c = Some ?c"
    using True ok i by (simp add: write_column_def mark_added_and_changed_def tick_set_def blob_init_item_def col_ok_def)
  moreover have "col_written cap i now (vs @ [v]) c0 ?c"
    using True ok i by (auto simp: col_written_def column_defs)
  ultimately show ?thesis
    using that by blast
next
  case False
  have it: "b_cells (c_data c) ! i = Some (last vs)" "c_added c ! i = Some now" "col_ok cap c"
    using c False by (auto simp: col_written_def item_def)
  let ?c = "c\<lparr>c_changed := (c_changed c)[i := Some now], c_summary := try_mutate (c_summary c) now,
    c_data := (c_data c)\<lparr>b_cells := (b_cells (c_data c))[i := Some v],
      b_log := b_log (c_data c) @ (if b_drops (c_data c) then [last vs] else [])\<rparr>\<rparr>"
  have "write_column (vs \<noteq> []) now i v c = Some ?c"
    using False it i
    by (simp add: write_column_def blob_drop_item_def blob_get_def call_dropper_def mark_changed_def tick_set_def
        blob_init_item_def col_ok_def)
  moreover have "col_written cap i now (vs @ [v]) c0 ?c"
    using False c it i by (auto simp: col_written_def column_defs)
  ultimately show ?thesis
    using that by blast
qed

lemma write_raw_ok:
  assumes inv: "table_inv t0" and row: "unat row < length (t_entities t0)"
    and w: "written t0 row now W w" and cid: "cid \<in> set (t_components t0)"
  obtains w' where "write_raw w cid v = Some w'" "written t0 row now (W(cid := W cid @ [v])) w'"
proof -
  let ?t = "cw_table w" and ?cs = "t_components t0"
  have tw: "table_inv ?t" "t_components ?t = ?cs" "length (t_columns ?t) = length ?cs" "length (t_columns t0) = length ?cs"
    "sorted_wrt (<) ?cs" "t_cap ?t = t_cap t0" "length (t_entities t0) \<le> t_cap t0"
    using w inv by (auto simp: written_def table_inv_def)
  obtain k where k: "k < length ?cs" "?cs ! k = cid"
    using cid by (auto simp: in_set_conv_nth)
  then have col: "get_table_col ?t cid = Some k"
    using tw by (simp add: get_table_col_def binary_search_iff)
  have ck: "col_written (t_cap t0) (unat row) now (W cid) (t_columns t0 ! k) (t_columns ?t ! k)"
    using w k by (auto simp: written_def)
  have ok: "col_ok (t_cap t0) (t_columns t0 ! k)"
    using inv k tw by (simp add: table_inv_def)
  have i: "unat row < t_cap t0"
    using row tw by simp
  obtain c' where c': "write_column (W cid \<noteq> []) now (unat row) v (t_columns ?t ! k) = Some c'"
    "col_written (t_cap t0) (unat row) now (W cid @ [v]) (t_columns t0 ! k) c'"
    by (rule write_column_ok [OF ck ok i, of v])
  let ?t' = "?t\<lparr>t_columns := (t_columns ?t)[k := c']\<rparr>"
  let ?w = "w\<lparr>cw_table := ?t', cw_slots := (cw_slots w)(cid \<mapsto> True)\<rparr>"
  have "on_column ?t k row (write_column (W cid \<noteq> []) now (unat row) v) = Some ?t'"
    using w row c'(1) k tw by (simp add: on_column_def written_def)
  then have "write_raw w cid v = Some ?w"
    using w cid col by (simp add: write_raw_def written_def)
  moreover have "written t0 row now (W(cid := W cid @ [v])) ?w"
  proof -
    have "table_inv ?t'"
      using tw(1) c'(2) tw(6) by (auto simp: table_inv_def col_written_def set_update_subset_insert dest!: set_mp [OF set_update_subset_insert])
    moreover have "col_written (t_cap t0) (unat row) now ((W(cid := W cid @ [v])) (?cs ! j)) (t_columns t0 ! j)
        (t_columns ?t' ! j)" if "j < length ?cs" for j
    proof -
      have "?cs ! j = cid \<longleftrightarrow> j = k"
        using that k tw(5) strict_sorted_iff [of ?cs] by (auto simp: nth_eq_iff_index_eq)
      then show ?thesis
        using that c'(2) w k tw by (auto simp: written_def nth_list_update)
    qed
    ultimately show ?thesis
      using w cid by (auto simp: written_def fun_eq_iff)
  qed
  ultimately show ?thesis
    using that by blast
qed

text \<open>The values a list of writes has for one component.\<close>

definition vals :: "(u32 \<times> 'v) list \<Rightarrow> u32 \<Rightarrow> 'v list" where
  "vals ps cid = map snd (filter (\<lambda>p. fst p = cid) ps)"

lemma vals_simps [simp]:
  "vals [] c = []" "vals ((d, v) # ps) c = (if d = c then v # vals ps c else vals ps c)"
  by (simp_all add: vals_def)

lemma vals_Nil_iff: "vals ps c = [] \<longleftrightarrow> c \<notin> fst ` set ps"
  by (auto simp: vals_def filter_empty_conv)

lemma writer_contains_written:
  "written t0 row now W w \<Longrightarrow> writer_contains w cid \<longleftrightarrow> cid \<in> set (t_components t0)"
  by (simp add: writer_contains_def written_def)

lemma write_explicit_ok:
  assumes inv: "table_inv t0" and row: "unat row < length (t_entities t0)"
    and w: "written t0 row now W w" and cids: "fst ` set ps \<subseteq> set (t_components t0)"
  shows "\<exists>w'. write_each writer_write ps w = Some (Ok (), w') \<and> written t0 row now (\<lambda>c. W c @ vals ps c) w'"
  using w cids
proof (induction ps arbitrary: w W)
  case (Cons p ps)
  obtain cid v where p: "p = (cid, v)"
    by (cases p)
  then have cid: "cid \<in> set (t_components t0)"
    using Cons.prems by simp
  obtain w1 where w1: "write_raw w cid v = Some w1" "written t0 row now (W(cid := W cid @ [v])) w1"
    by (rule write_raw_ok [OF inv row Cons.prems(1) cid, of v])
  have "writer_write w p = Some (Ok (), w1)"
    using w1(1) cid writer_contains_written [OF Cons.prems(1)] by (simp add: writer_write_def p)
  moreover have "(\<lambda>c. (W(cid := W cid @ [v])) c @ vals ps c) = (\<lambda>c. W c @ vals (p # ps) c)"
    by (auto simp: p)
  ultimately show ?case
    using Cons.IH [OF w1(2)] Cons.prems(2) by simp
qed simp

lemma write_required_ok:
  assumes inv: "table_inv t0" and row: "unat row < length (t_entities t0)"
    and w: "written t0 row now W w" and cids: "fst ` set ps \<subseteq> set (t_components t0)"
  shows "\<exists>w'. write_each write_if_uninit ps w = Some (Ok (), w')
    \<and> written t0 row now (\<lambda>c. if W c = [] then take 1 (vals ps c) else W c) w'"
  using w cids
proof (induction ps arbitrary: w W)
  case Nil
  then show ?case by (simp cong: if_cong)
next
  case (Cons p ps)
  obtain cid v where p: "p = (cid, v)"
    by (cases p)
  then have cid: "cid \<in> set (t_components t0)"
    using Cons.prems by simp
  then have slot: "cw_slots w cid = Some (W cid \<noteq> [])"
    using Cons.prems(1) by (simp add: written_def)
  show ?case
  proof (cases "W cid = []")
    case True
    obtain w1 where w1: "write_raw w cid v = Some w1" "written t0 row now (W(cid := W cid @ [v])) w1"
      by (rule write_raw_ok [OF inv row Cons.prems(1) cid, of v])
    have "write_if_uninit w p = Some (Ok (), w1)"
      using w1(1) slot True by (simp add: write_if_uninit_def p)
    moreover have "(\<lambda>c. if (W(cid := W cid @ [v])) c = [] then take 1 (vals ps c) else (W(cid := W cid @ [v])) c)
        = (\<lambda>c. if W c = [] then take 1 (vals (p # ps) c) else W c)"
      using True by (auto simp: p)
    ultimately show ?thesis
      using Cons.IH [OF w1(2)] Cons.prems(2) by simp
  next
    case False
    have "write_if_uninit w p = Some (Ok (), w)"
      using slot False by (simp add: write_if_uninit_def p)
    moreover have "(\<lambda>c. if W c = [] then take 1 (vals ps c) else W c)
        = (\<lambda>c. if W c = [] then take 1 (vals (p # ps) c) else W c)"
      using False by (auto simp: p)
    ultimately show ?thesis
      using Cons.IH [OF Cons.prems(1)] Cons.prems(2) by simp
  qed
qed

text \<open>All values a bundle writes to a component, in order.\<close>

definition bundle_values :: "'v bundle_data \<Rightarrow> u32 \<Rightarrow> 'v list" where
  "bundle_values b c =
     (if vals (bd_explicit b) c = [] then take 1 (vals (bd_required b) c) else vals (bd_explicit b) c)"

lemma write_bundle_ok:
  assumes inv: "table_inv t0" and row: "unat row < length (t_entities t0)"
    and cids: "fst ` set (bd_explicit b) \<subseteq> set (t_components t0)" "fst ` set (bd_required b) \<subseteq> set (t_components t0)"
  obtains w w' where "writer_from_table t0 row now = Ok w" "write_bundle b w = Some (Ok (), w')"
    "written t0 row now (bundle_values b) w'"
proof -
  let ?w = "\<lparr>cw_table = t0, cw_row = row, cw_now = now,
    cw_slots = (\<lambda>c. if c \<in> set (t_components t0) then Some False else None)\<rparr>"
  have "writer_from_table t0 row now = Ok ?w"
    using row by (simp add: writer_from_table_def)
  moreover have "written t0 row now (\<lambda>c. []) ?w"
    using inv by (auto simp: written_def col_written_def table_inv_def)
  from write_explicit_ok [OF inv row this cids(1)] obtain w1 where
    "write_each writer_write (bd_explicit b) ?w = Some (Ok (), w1)" "written t0 row now (vals (bd_explicit b)) w1"
    by auto
  moreover from write_required_ok [OF inv row this(2) cids(2)] obtain w2 where
    "write_each write_if_uninit (bd_required b) w1 = Some (Ok (), w2)" "written t0 row now (bundle_values b) w2"
    by (auto simp: bundle_values_def [abs_def])
  ultimately show ?thesis
    using that by (simp add: write_bundle_def)
qed

lemma written_full:
  assumes "written t0 row now W w" "\<forall>c\<in>set (t_components t0). W c \<noteq> []" "unat row < length (t_entities t0)"
    "table_inv t0"
  shows "row_full (rows (cw_table w) ! unat row)"
    "map (\<lambda>c. item c (unat row)) (t_columns (cw_table w)) = map (\<lambda>cid. (Some (last (W cid)), Some now, Some now)) (t_components t0)"
    "j < length (t_entities t0) \<Longrightarrow> j \<noteq> unat row \<Longrightarrow> rows (cw_table w) ! j = rows t0 ! j"
proof -
  have l: "length (t_columns (cw_table w)) = length (t_components t0)" "length (t_columns t0) = length (t_components t0)"
    "length (t_entities t0) \<le> t_cap t0"
    using assms by (auto simp: written_def table_inv_def)
  show m: "map (\<lambda>c. item c (unat row)) (t_columns (cw_table w)) = map (\<lambda>cid. (Some (last (W cid)), Some now, Some now)) (t_components t0)"
    using assms(1,2) l by (intro nth_equalityI) (auto simp: written_def col_written_def)
  show "row_full (rows (cw_table w) ! unat row)"
    using assms(1,3) m by (auto simp: written_def row_full_def list_all_iff item_full_def)
  show "rows (cw_table w) ! j = rows t0 ! j" if "j < length (t_entities t0)" "j \<noteq> unat row"
    using assms(1) that l by (auto simp: written_def col_written_def intro!: nth_equalityI)
qed

section \<open>Properties\<close>

text \<open>C18: a bundle that covers exactly the components of a table fills the new row: every component holds the last value the
  bundle wrote explicitly, or, if there was none, the first value constructed for it as a required
  component, with both ticks set to the current one; each overwritten value is dropped once, in order, and
  the other rows keep their entities, values and ticks.\<close>
theorem bundle_write_last_wins:
  assumes "table_inv t" "unat row < length (t_entities t)"
    "fst ` set (bd_explicit b) \<union> fst ` set (bd_required b) = set (t_components t)"
  shows "\<exists>w w'. writer_from_table t row now = Ok w \<and> write_bundle b w = Some (Ok (), w') \<and> table_inv (cw_table w')
    \<and> rows (cw_table w') = (rows t)[unat row := (t_entities t ! unat row,
        map (\<lambda>c. (Some (case vals (bd_explicit b) c of [] \<Rightarrow> hd (vals (bd_required b) c) | vs \<Rightarrow> last vs), Some now, Some now))
          (t_components t))]
    \<and> map col_log (t_columns (cw_table w')) = map (\<lambda>(cid, c). col_log c @ (if col_drops c then butlast (vals (bd_explicit b) cid) else []))
        (zip (t_components t) (t_columns t))"
proof -
  have sub: "fst ` set (bd_explicit b) \<subseteq> set (t_components t)" "fst ` set (bd_required b) \<subseteq> set (t_components t)"
    using assms(3) by auto
  obtain w w' where w: "writer_from_table t row now = Ok w" "write_bundle b w = Some (Ok (), w')"
    "written t row now (bundle_values b) w'"
    by (rule write_bundle_ok [OF assms(1,2) sub, of now])
  have ne: "\<forall>c\<in>set (t_components t). bundle_values b c \<noteq> []"
    using assms(3) vals_Nil_iff [of "bd_explicit b"] vals_Nil_iff [of "bd_required b"]
    by (auto simp: bundle_values_def simp flip: assms(3))
  have val: "last (bundle_values b c) = (case vals (bd_explicit b) c of [] \<Rightarrow> hd (vals (bd_required b) c) | vs \<Rightarrow> last vs)"
    "butlast (bundle_values b c) = butlast (vals (bd_explicit b) c)" if "c \<in> set (t_components t)" for c
    using ne that by (auto simp: bundle_values_def take_Suc split: list.split if_splits)
  note f = written_full [OF w(3) ne assms(2,1)]
  have l: "length (t_columns (cw_table w')) = length (t_components t)" "length (t_columns t) = length (t_components t)"
    "t_entities (cw_table w') = t_entities t"
    using w(3) assms(1) by (auto simp: written_def table_inv_def)
  have "rows (cw_table w') = (rows t)[unat row := (t_entities t ! unat row,
        map (\<lambda>c. (Some (case vals (bd_explicit b) c of [] \<Rightarrow> hd (vals (bd_required b) c) | vs \<Rightarrow> last vs), Some now, Some now))
          (t_components t))]"
  proof (rule nth_equalityI)
    fix j
    assume "j < length (rows (cw_table w'))"
    moreover have "map (\<lambda>cid. (Some (last (bundle_values b cid)), Some now, Some now)) (t_components t) =
        map (\<lambda>c. (Some (case vals (bd_explicit b) c of [] \<Rightarrow> hd (vals (bd_required b) c) | vs \<Rightarrow> last vs), Some now, Some now))
          (t_components t)"
      using val(1) by simp
    ultimately show "rows (cw_table w') ! j = (rows t)[unat row := (t_entities t ! unat row,
        map (\<lambda>c. (Some (case vals (bd_explicit b) c of [] \<Rightarrow> hd (vals (bd_required b) c) | vs \<Rightarrow> last vs), Some now, Some now))
          (t_components t))] ! j"
      using f(2) f(3) [of j] l by (cases "j = unat row") simp_all
  qed (use l in simp)
  moreover have "map col_log (t_columns (cw_table w')) = map (\<lambda>(cid, c). col_log c @ (if col_drops c then butlast (vals (bd_explicit b) cid) else []))
        (zip (t_components t) (t_columns t))"
    using w(3) l ne val by (intro nth_equalityI) (auto simp: written_def col_written_def)
  ultimately show ?thesis
    using w by (auto simp: written_def)
qed

definition doubled_bundle :: "nat bundle_data" where
  "doubled_bundle = \<lparr>bd_explicit = [(7, 30), (7, 40)], bd_required = [(7, 50)]\<rparr>"

theorem bundle_write_last_wins_witness:
  "\<exists>w w'. writer_from_table two_rows 1 9 = Ok w \<and> write_bundle doubled_bundle w = Some (Ok (), w')
    \<and> rows (cw_table w') = [(new_id 1 1, [(Some 10, Some 1, Some 5)]), (new_id 2 1, [(Some 40, Some 9, Some 9)])]
    \<and> map col_log (t_columns (cw_table w')) = [[30]]"
proof -
  have "fst ` set (bd_explicit doubled_bundle) \<union> fst ` set (bd_required doubled_bundle) = set (t_components two_rows)"
    by (simp add: doubled_bundle_def two_rows_def)
  from bundle_write_last_wins [OF two_rows_inv(1) _ this, of 1 9] show ?thesis
    by (fastforce simp: two_rows_def doubled_bundle_def rows_def item_def col_log_def col_drops_def upt_rec)
qed

end
