(* ===== verification/World_Ops.thy ===== *)
theory World_Ops
  imports Entity_Allocator Entity_Forest Table_Registry Component_Writer
begin

text \<open>
  Spawning and despawning (\<^verbatim>\<open>zlim-core/src/ops/world/empty.rs\<close>, \<^verbatim>\<open>spawn.rs\<close>, \<^verbatim>\<open>despawn.rs\<close>, \<^verbatim>\<open>forget.rs\<close>,
  \<^verbatim>\<open>utils/forgetter.rs\<close>): the operations of the world that act on the allocator, the entity tree and the tables
  together. User code, the component hooks and the queued commands, is a parameter. \<open>None\<close> stands for undefined
  behaviour, an abort of the process, or too little fuel.
\<close>

section \<open>The world\<close>

record 'v world =
  w_allocator :: entity_allocator
  w_entities :: entities
  w_tables :: "'v tables"
  w_this_run :: tick

type_synonym ('a, 'v) world_run = "((entity_error, 'a) outcome \<times> 'v world) option"

definition world_new :: "platform \<Rightarrow> tick \<Rightarrow> 'v world" where
  "world_new pf now = \<lparr>w_allocator = allocator_new, w_entities = entities_new pf, w_tables = tables_new,
     w_this_run = now\<rparr>"

text \<open>The hooks of a component and the commands in the queue; both see the world and may panic.\<close>

datatype hook = OnAdd | OnInsert | OnRemove | OnDiscard | OnDespawn

record 'v user_code =
  u_hook :: "hook \<Rightarrow> u32 \<Rightarrow> (entity_id \<Rightarrow> 'v world \<Rightarrow> (entity_error, unit) outcome \<times> 'v world) option"
  u_flush :: "'v world \<Rightarrow> (entity_error, unit) outcome \<times> 'v world"

fun trigger_hooks ::
  "'v user_code \<Rightarrow> hook \<Rightarrow> u32 list \<Rightarrow> entity_id \<Rightarrow> 'v world \<Rightarrow> (entity_error, unit) outcome \<times> 'v world" where
  "trigger_hooks U h [] x w = (Ok (), w)"
| "trigger_hooks U h (c # cs) x w =
     (case u_hook U h c of
        None \<Rightarrow> trigger_hooks U h cs x w
      | Some f \<Rightarrow> then_do (f x w) (\<lambda>_. trigger_hooks U h cs x))"

definition world_alloc_mut :: "'v world \<Rightarrow> (entity_id, 'v) world_run" where
  "world_alloc_mut w =
     (case allocator_alloc_mut (w_allocator w) of
        (Ok x, a) \<Rightarrow> Some (Ok x, w\<lparr>w_allocator := a\<rparr>)
      | (Err _, a) \<Rightarrow> None
      | (Panic, a) \<Rightarrow> Some (Panic, w\<lparr>w_allocator := a\<rparr>))"

text \<open>\<^verbatim>\<open>get_unchecked_mut\<close> and an update of the table.\<close>

definition set_table :: "'v world \<Rightarrow> u32 \<Rightarrow> 'v table \<Rightarrow> 'v world" where
  "set_table w i t = w\<lparr>w_tables := (w_tables w)\<lparr>ts_tables := (ts_tables (w_tables w))[unat i := t]\<rparr>\<rparr>"

section \<open>Forgetting\<close>

fun forget_tables ::
  "platform \<Rightarrow> entity_id \<Rightarrow> 'v table list \<Rightarrow> entities \<Rightarrow> ('v table list \<times> entities) option" where
  "forget_tables pf x [] e = Some ([], e)"
| "forget_tables pf x (t # ts) e =
     (case get_table_row pf t x of
        None \<Rightarrow> do { (ts', e') \<leftarrow> forget_tables pf x ts e; Some (t # ts', e') }
      | Some row \<Rightarrow>
          do { (moved, t') \<leftarrow> dealloc_row False t row;
               (ts', e') \<leftarrow> forget_tables pf x ts (snd (update_row e moved));
               Some (t' # ts', e') })"

definition world_forget :: "platform \<Rightarrow> 'v world \<Rightarrow> entity_id \<Rightarrow> (unit, 'v) world_run" where
  "world_forget pf w x =
     (case remove_one pf (w_entities w) x of
        (Panic, e) \<Rightarrow> Some (Panic, w\<lparr>w_entities := e\<rparr>)
      | (_, e) \<Rightarrow>
          do { (ts, e') \<leftarrow> forget_tables pf x (ts_tables (w_tables w)) e;
               Some (Ok (), w\<lparr>w_entities := e', w_tables := (w_tables w)\<lparr>ts_tables := ts\<rparr>\<rparr>) })"

text \<open>
  \<^verbatim>\<open>ForgetEntityOnPanic\<close>: on unwinding the entity is forgotten before the panic goes on; a panic inside
  the guard aborts the process.
\<close>

definition guarded :: "platform \<Rightarrow> entity_id \<Rightarrow> ('a, 'v) world_run \<Rightarrow> ('a, 'v) world_run" where
  "guarded pf x r =
     (case r of
        Some (Ok a, w) \<Rightarrow> Some (Ok a, w)
      | Some (_, w) \<Rightarrow>
          (case world_forget pf w x of Some (Ok _, w') \<Rightarrow> Some (Panic, w') | _ \<Rightarrow> None)
      | None \<Rightarrow> None)"

section \<open>Spawning\<close>

text \<open>
  The steps under the guard: a row at the end of the table, the components, the node in the tree. The error of
  \<^verbatim>\<open>insert_one\<close> becomes a panic.
\<close>

definition insert_row ::
  "platform \<Rightarrow> 'v world \<Rightarrow> u32 \<Rightarrow> entity_id \<Rightarrow> entity_id option \<Rightarrow> (u32 \<Rightarrow> 'v world \<Rightarrow> (unit, 'v) world_run)
     \<Rightarrow> (location, 'v) world_run" where
  "insert_row pf w tid x parent fill =
     do { t \<leftarrow> tables_get (w_tables w) tid;
          (row, t1) \<leftarrow> alloc_row pf t x;
          run_then (fill row (set_table w tid t1)) (\<lambda>_ w2.
            let l = \<lparr>table_id = tid, table_row = row\<rparr>
            in case insert_one pf (w_entities w2) x parent l of
                 (Ok _, e) \<Rightarrow> Some (Ok l, w2\<lparr>w_entities := e\<rparr>)
               | (_, e) \<Rightarrow> Some (Panic, w2\<lparr>w_entities := e\<rparr>)) }"

definition spawnable :: "'v world \<Rightarrow> entity_id \<Rightarrow> bool" where
  "spawnable w x \<longleftrightarrow> check_spawnable (w_entities w) x = Ok ()"

definition spawn_empty :: "bool \<Rightarrow> platform \<Rightarrow> 'v world \<Rightarrow> entity_id option \<Rightarrow> (entity_id, 'v) world_run" where
  "spawn_empty debug pf w parent =
     run_then (world_alloc_mut w) (\<lambda>x w1.
       if debug \<and> \<not> spawnable w1 x then Some (Panic, w1)
       else run_then (guarded pf x (insert_row pf w1 0 x parent (\<lambda>_ w2. Some (Ok (), w2)))) (\<lambda>_ w2. Some (Ok x, w2)))"

definition spawn_empty_at ::
  "platform \<Rightarrow> 'v world \<Rightarrow> entity_id \<Rightarrow> entity_id option \<Rightarrow> (entity_id, 'v) world_run" where
  "spawn_empty_at pf w x parent =
     (if \<not> spawnable w x then Some (Panic, w)
      else if \<exists>p\<in>set_option parent. \<not> contains (w_entities w) p then Some (Panic, w)
      else run_then (guarded pf x (insert_row pf w 0 x parent (\<lambda>_ w2. Some (Ok (), w2)))) (\<lambda>_ w2. Some (Ok x, w2)))"

definition try_spawn_empty ::
  "bool \<Rightarrow> platform \<Rightarrow> 'v world \<Rightarrow> entity_id option \<Rightarrow> (entity_id, 'v) world_run" where
  "try_spawn_empty debug pf w parent =
     (case parent of
        Some p \<Rightarrow>
          (case get_node (w_entities w) p of
             Err err \<Rightarrow> Some (Err err, w)
           | Ok _ \<Rightarrow> spawn_empty debug pf w parent
           | Panic \<Rightarrow> Some (Panic, w))
      | None \<Rightarrow> spawn_empty debug pf w parent)"

text \<open>Writing a bundle into the new row.\<close>

definition fill_row :: "'v bundle_data \<Rightarrow> u32 \<Rightarrow> u32 \<Rightarrow> 'v world \<Rightarrow> (unit, 'v) world_run" where
  "fill_row b tid row w =
     do { t \<leftarrow> tables_get (w_tables w) tid;
          (case writer_from_table t row (w_this_run w) of
             Ok cw \<Rightarrow> do { (r, cw') \<leftarrow> write_bundle b cw; Some (r, set_table w tid (cw_table cw')) }
           | Err e \<Rightarrow> Some (Err e, w)
           | Panic \<Rightarrow> Some (Panic, w)) }"

definition spawner_spawn_at ::
  "bool \<Rightarrow> platform \<Rightarrow> 'v user_code \<Rightarrow> 'v world \<Rightarrow> u32 \<Rightarrow> 'v bundle_data \<Rightarrow> entity_id \<Rightarrow> entity_id option
     \<Rightarrow> (location, 'v) world_run" where
  "spawner_spawn_at debug pf U w tid b x parent =
     (if debug \<and> \<not> spawnable w x then Some (Panic, w)
      else run_then (guarded pf x (insert_row pf w tid x parent (fill_row b tid))) (\<lambda>l w1.
        do { t \<leftarrow> tables_get (w_tables w1) tid;
             Some (then_do (trigger_hooks U OnAdd (t_components t) x w1) (\<lambda>_ w2.
               then_do (trigger_hooks U OnInsert (t_components t) x w2) (\<lambda>_ w3. (Ok l, w3)))) }))"

text \<open>\<^verbatim>\<open>BundleSpawner::new\<close>: the table of the bundle; the other fields are the arguments above.\<close>

definition spawner_new ::
  "(u32 \<Rightarrow> component_info) \<Rightarrow> bundles \<Rightarrow> 'v world \<Rightarrow> u32 \<Rightarrow> (u32, 'v) world_run" where
  "spawner_new dbs bu w bid =
     (case tables_register dbs bu (w_tables w) bid of
        Some (Ok tid, ts) \<Rightarrow> Some (Ok tid, w\<lparr>w_tables := ts\<rparr>)
      | Some (_, ts) \<Rightarrow> Some (Panic, w\<lparr>w_tables := ts\<rparr>)
      | None \<Rightarrow> None)"

definition spawn_at_flush ::
  "bool \<Rightarrow> platform \<Rightarrow> 'v user_code \<Rightarrow> 'v world \<Rightarrow> u32 \<Rightarrow> 'v bundle_data \<Rightarrow> entity_id \<Rightarrow> entity_id option
     \<Rightarrow> (entity_id, 'v) world_run" where
  "spawn_at_flush debug pf U w tid b x parent =
     run_then (spawner_spawn_at debug pf U w tid b x parent) (\<lambda>_ w1.
       Some (then_do (u_flush U w1) (\<lambda>_ w2. (Ok x, w2))))"

definition world_spawn ::
  "bool \<Rightarrow> platform \<Rightarrow> 'v user_code \<Rightarrow> (u32 \<Rightarrow> component_info) \<Rightarrow> bundles \<Rightarrow> 'v world \<Rightarrow> u32 \<Rightarrow> 'v bundle_data
     \<Rightarrow> entity_id option \<Rightarrow> (entity_id, 'v) world_run" where
  "world_spawn debug pf U dbs bu w bid b parent =
     run_then (spawner_new dbs bu w bid) (\<lambda>tid w1.
       run_then (world_alloc_mut w1) (\<lambda>x w2.
         if debug \<and> \<not> spawnable w2 x then Some (Panic, w2)
         else spawn_at_flush debug pf U w2 tid b x parent))"

definition world_spawn_at ::
  "bool \<Rightarrow> platform \<Rightarrow> 'v user_code \<Rightarrow> (u32 \<Rightarrow> component_info) \<Rightarrow> bundles \<Rightarrow> 'v world \<Rightarrow> u32 \<Rightarrow> 'v bundle_data
     \<Rightarrow> entity_id \<Rightarrow> entity_id option \<Rightarrow> (entity_id, 'v) world_run" where
  "world_spawn_at debug pf U dbs bu w bid b x parent =
     (if \<not> spawnable w x then Some (Panic, w)
      else run_then (spawner_new dbs bu w bid) (\<lambda>tid w1. spawn_at_flush debug pf U w1 tid b x parent))"

definition try_spawn ::
  "bool \<Rightarrow> platform \<Rightarrow> 'v user_code \<Rightarrow> (u32 \<Rightarrow> component_info) \<Rightarrow> bundles \<Rightarrow> 'v world \<Rightarrow> u32 \<Rightarrow> 'v bundle_data
     \<Rightarrow> entity_id option \<Rightarrow> (entity_id, 'v) world_run" where
  "try_spawn debug pf U dbs bu w bid b parent =
     (case parent of
        Some p \<Rightarrow>
          (case get_node (w_entities w) p of
             Err err \<Rightarrow> Some (Err err, w)
           | Ok _ \<Rightarrow> world_spawn debug pf U dbs bu w bid b parent
           | Panic \<Rightarrow> Some (Panic, w))
      | None \<Rightarrow> world_spawn debug pf U dbs bu w bid b parent)"

section \<open>Despawning\<close>

text \<open>
  The recursion of \<^verbatim>\<open>dfs_trigger\<close> over an entity and over a list of children, in post-order; the fuel bounds
  the depth.
\<close>

function (sequential) dfs_trigger ::
    "'v user_code \<Rightarrow> nat \<Rightarrow> entity_id list \<Rightarrow> 'v world \<Rightarrow> entity_id \<Rightarrow> (entity_id list, 'v) world_run"
  and dfs_children ::
    "'v user_code \<Rightarrow> nat \<Rightarrow> entity_id list \<Rightarrow> 'v world \<Rightarrow> entity_id list \<Rightarrow> (entity_id list, 'v) world_run" where
  "dfs_trigger U 0 buf w x = None"
| "dfs_trigger U (Suc fuel) buf w x =
     (case get_node (w_entities w) x of
        Ok node \<Rightarrow>
          run_then (dfs_children U fuel buf w (n_children node)) (\<lambda>buf1 w1.
            do { l \<leftarrow> n_location node;
                 t \<leftarrow> tables_get (w_tables w1) (table_id l);
                 Some (then_do (trigger_hooks U OnDespawn (t_components t) x w1) (\<lambda>_ w2.
                   then_do (trigger_hooks U OnRemove (t_components t) x w2) (\<lambda>_ w3.
                     then_do (trigger_hooks U OnDiscard (t_components t) x w3) (\<lambda>_ w4. (Ok (buf1 @ [x]), w4))))) })
      | _ \<Rightarrow> Some (Panic, w))"
| "dfs_children U fuel buf w [] = Some (Ok buf, w)"
| "dfs_children U fuel buf w (c # cs) =
     run_then (dfs_trigger U fuel buf w c) (\<lambda>buf1 w1. dfs_children U fuel buf1 w1 cs)"
  by pat_completeness auto
termination
  by (relation "measures [\<lambda>p. case p of Inl (U, n, _) \<Rightarrow> n | Inr (U, n, _) \<Rightarrow> n,
      \<lambda>p. case p of Inl _ \<Rightarrow> 0 | Inr (U, n, buf, w, cs) \<Rightarrow> Suc (length cs)]") auto

text \<open>Taking one collected entity out of the tree and its table, and recycling its slot.\<close>

definition despawn_one :: "platform \<Rightarrow> 'v world \<Rightarrow> entity_id \<Rightarrow> (unit, 'v) world_run" where
  "despawn_one pf w x =
     (case remove_one pf (w_entities w) x of
        (Ok l, e1) \<Rightarrow>
          do { t \<leftarrow> tables_get (w_tables w) (table_id l);
               (moved, t1) \<leftarrow> dealloc_row True t (table_row l);
               (case update_row e1 moved of
                  (Ok _, e2) \<Rightarrow>
                    (case free_slot pf e2 (index x) of
                       (Ok nid, e3) \<Rightarrow>
                         Some (Ok (), (set_table w (table_id l) t1)\<lparr>w_entities := e3,
                           w_allocator := allocator_free (w_allocator w) nid\<rparr>)
                     | (_, e3) \<Rightarrow> Some (Panic, (set_table w (table_id l) t1)\<lparr>w_entities := e3\<rparr>))
                | (_, e2) \<Rightarrow> Some (Panic, (set_table w (table_id l) t1)\<lparr>w_entities := e2\<rparr>)) }
      | (Err _, e1) \<Rightarrow> None
      | (Panic, e1) \<Rightarrow> Some (Panic, w\<lparr>w_entities := e1\<rparr>))"

fun despawn_each :: "platform \<Rightarrow> entity_id list \<Rightarrow> 'v world \<Rightarrow> (unit, 'v) world_run" where
  "despawn_each pf [] w = Some (Ok (), w)"
| "despawn_each pf (x # xs) w = run_then (despawn_one pf w x) (\<lambda>_. despawn_each pf xs)"

definition despawn_internal :: "platform \<Rightarrow> 'v user_code \<Rightarrow> 'v world \<Rightarrow> entity_id \<Rightarrow> (unit, 'v) world_run" where
  "despawn_internal pf U w x =
     run_then (guarded pf x
         (run_then (dfs_trigger U (Suc (length (e_nodes (w_entities w)))) [] w x) (\<lambda>buf. despawn_each pf buf)))
       (\<lambda>_ w1. Some (u_flush U w1))"

definition world_despawn :: "platform \<Rightarrow> 'v user_code \<Rightarrow> 'v world \<Rightarrow> entity_id \<Rightarrow> (unit, 'v) world_run" where
  "world_despawn pf U w x =
     (case locate (w_entities w) x of
        Ok _ \<Rightarrow> despawn_internal pf U w x
      | Err err \<Rightarrow> Some (Err err, w)
      | Panic \<Rightarrow> Some (Panic, w))"

definition try_despawn :: "platform \<Rightarrow> 'v user_code \<Rightarrow> 'v world \<Rightarrow> entity_id \<Rightarrow> (bool, 'v) world_run" where
  "try_despawn pf U w x =
     (if \<not> contains (w_entities w) x then Some (Ok False, w)
      else run_then (despawn_internal pf U w x) (\<lambda>_ w1. Some (Ok True, w1)))"

end
