(* ===== verification/World_Lifecycle.thy ===== *)
theory World_Lifecycle
  imports World_Ops
begin

text \<open>
  The invariant of the world and what spawning and despawning do to it. The allocator, the entity tree and the tables
  describe the same entities: an id handed out and not returned is spawned or reserved, a spawned id is the entity of
  exactly the table row its node names, every row belongs to a spawned entity and is fully written, and ids
  that can be handed out again carry the current generation of their slot.
\<close>

section \<open>The invariant\<close>

definition where_is :: "entities \<Rightarrow> entity_id \<Rightarrow> location option" where
  "where_is e x = (if alive e x then n_location (slot e (index x)) else None)"

definition row_at :: "'v table list \<Rightarrow> location \<Rightarrow> entity_id \<Rightarrow> bool" where
  "row_at T l x \<longleftrightarrow> unat (table_id l) < length T
     \<and> unat (table_row l) < length (t_entities (T ! unat (table_id l)))
     \<and> t_entities (T ! unat (table_id l)) ! unat (table_row l) = x"

definition placed :: "(entity_id \<Rightarrow> location option) \<Rightarrow> 'v table list \<Rightarrow> bool" where
  "placed loc T \<longleftrightarrow> (\<forall>x l. loc x = Some l \<longleftrightarrow> row_at T l x)"

definition spawned :: "entities \<Rightarrow> u32 set" where
  "spawned e = {i. n_location (slot e i) \<noteq> None}"

text \<open>\<open>R\<close> is the set of reserved indices: handed out by the allocator, not (or no longer) in the tree.\<close>

definition ids_ok :: "entity_allocator \<Rightarrow> entities \<Rightarrow> u32 set \<Rightarrow> bool" where
  "ids_ok a e R \<longleftrightarrow> alloc_inv a (spawned e \<union> R) \<and> spawned e \<inter> R = {}
     \<and> (\<forall>x\<in>set (pool a). n_generation (slot e (index x)) = generation x)
     \<and> (\<forall>i. unat (ea_fresh a) \<le> unat i \<longrightarrow> n_generation (slot e i) = 1)"

definition rows_full :: "'v table \<Rightarrow> bool" where
  "rows_full t \<longleftrightarrow> (\<forall>r\<in>set (rows t). row_full r)"

definition world_inv :: "(u32 \<Rightarrow> u32 list) \<Rightarrow> bundles \<Rightarrow> u32 set \<Rightarrow> 'v world \<Rightarrow> bool" where
  "world_inv req bu R w \<longleftrightarrow>
     tree_inv (w_entities w) \<and> ids_ok (w_allocator w) (w_entities w) R \<and> tables_inv req bu (w_tables w)
     \<and> (\<forall>t\<in>set (ts_tables (w_tables w)). rows_full t)
     \<and> placed (where_is (w_entities w)) (ts_tables (w_tables w))"

text \<open>The observable world: every live entity with its parent, its components and their values and ticks.\<close>

definition world_view :: "'v world \<Rightarrow> entity_id \<rightharpoonup> entity_id option \<times> u32 list \<times> 'v item list" where
  "world_view w x =
     (if contains (w_entities w) x then
        (case n_location (slot (w_entities w) (index x)) of
           None \<Rightarrow> None
         | Some l \<Rightarrow>
             let t = ts_tables (w_tables w) ! unat (table_id l)
             in Some (parent_of (w_entities w) x, t_components t, snd (rows t ! unat (table_row l))))
      else None)"

definition row_data :: "'v table list \<Rightarrow> location \<Rightarrow> u32 list \<times> 'v item list" where
  "row_data T l = (t_components (T ! unat (table_id l)), snd (rows (T ! unat (table_id l)) ! unat (table_row l)))"

lemma world_view_eq:
  "world_view w x = map_option (\<lambda>l. (parent_of (w_entities w) x, row_data (ts_tables (w_tables w)) l))
     (where_is (w_entities w) x)"
  by (auto simp: world_view_def where_is_def contains_alive row_data_def Let_def alive_def split: option.split)

lemma where_is_None_iff: "where_is e x = None \<longleftrightarrow> \<not> alive e x"
  by (auto simp: where_is_def alive_def)

lemma where_is_Some: "where_is e x = Some l \<Longrightarrow> alive e x \<and> n_location (slot e (index x)) = Some l"
  by (auto simp: where_is_def split: if_splits)

section \<open>Placement\<close>

lemma placedD: "placed loc T \<Longrightarrow> loc x = Some l \<longleftrightarrow> row_at T l x"
  by (simp add: placed_def)

lemma location_eq: "l = l' \<longleftrightarrow> table_id l = table_id l' \<and> table_row l = table_row l'" for l :: location
  by (cases l; cases l') simp

text \<open>Both operations on a table's entity list, seen from the table list.\<close>

lemma row_at_update:
  assumes "unat tid < length T" "t_entities t = es"
  shows "row_at (T[unat tid := t]) l x \<longleftrightarrow>
    (if table_id l = tid then unat (table_row l) < length es \<and> es ! unat (table_row l) = x else row_at T l x)"
  using assms by (auto simp: row_at_def nth_list_update word_unat_eq_iff [of "table_id l"])

lemma row_at_same: "unat (table_id l) < length T \<Longrightarrow>
    row_at T l x \<longleftrightarrow> unat (table_row l) < length (t_entities (T ! unat (table_id l)))
      \<and> t_entities (T ! unat (table_id l)) ! unat (table_row l) = x"
  by (simp add: row_at_def)

lemma placed_append:
  assumes p: "placed loc T" and tid: "unat tid < length T" and new: "loc x = None"
    and t: "t_entities t = t_entities (T ! unat tid) @ [x]"
    and small: "length (t_entities (T ! unat tid)) < 2 ^ 32"
  shows "placed (loc(x \<mapsto> \<lparr>table_id = tid, table_row = of_nat (length (t_entities (T ! unat tid)))\<rparr>)) (T[unat tid := t])"
  unfolding placed_def
proof (intro allI)
  fix y and l :: location
  define es where "es = t_entities (T ! unat tid)"
  let ?l = "\<lparr>table_id = tid, table_row = of_nat (length es)\<rparr>"
  have u: "unat (of_nat (length es) :: u32) = length es"
    using small by (intro unat_of_nat_small) (simp add: es_def)
  have eq: "?l = l \<longleftrightarrow> table_id l = tid \<and> unat (table_row l) = length es"
    unfolding location_eq using u by (auto simp: word_unat_eq_iff [of _ "table_row l"])
  have old: "loc y = Some l \<longleftrightarrow> row_at T l y" and x: "\<not> row_at T l x"
    using p new unfolding placed_def by (auto, metis option.distinct(1))
  have at: "row_at (T[unat tid := t]) l y \<longleftrightarrow>
      (if table_id l = tid then unat (table_row l) < Suc (length es) \<and> (es @ [x]) ! unat (table_row l) = y else row_at T l y)"
    using row_at_update [OF tid t] by (simp add: es_def)
  have here: "row_at T l z \<longleftrightarrow> unat (table_row l) < length es \<and> es ! unat (table_row l) = z" if "table_id l = tid" for z
    using row_at_same [of l T z] that tid by (simp add: es_def)
  show "(loc(x \<mapsto> \<lparr>table_id = tid, table_row = of_nat (length (t_entities (T ! unat tid)))\<rparr>)) y = Some l
      \<longleftrightarrow> row_at (T[unat tid := t]) l y"
    unfolding es_def [symmetric] at
    using old x here eq by (cases "y = x"; cases "table_id l = tid"; cases "unat (table_row l) < length es")
      (auto simp: nth_append less_Suc_eq)
qed

lemma placed_swap_remove:
  assumes p: "placed loc T" and x: "loc x = Some l"
    and t: "t_entities t = swap_remove (unat (table_row l)) (t_entities (T ! unat (table_id l)))"
    and small: "length (t_entities (T ! unat (table_id l))) < 2 ^ 32"
  shows "placed (\<lambda>y. if y = x then None
      else if y = last (t_entities (T ! unat (table_id l))) then Some l else loc y) (T[unat (table_id l) := t])"
  unfolding placed_def
proof (intro allI)
  fix y and k :: location
  define es where "es = t_entities (T ! unat (table_id l))"
  define n where "n = length es - 1"
  let ?r = "unat (table_row l)" and ?s = "unat (table_row k)"
  have old: "loc z = Some j \<longleftrightarrow> row_at T j z" for z j
    using p by (simp add: placed_def)
  then have one: "j = j'" if "row_at T j z" "row_at T j' z" for j j' z
    using that by (metis option.inject)
  have "row_at T l x"
    using old x by simp
  then have tid: "unat (table_id l) < length T" and r: "?r < length es" "es ! ?r = x"
    by (simp_all add: row_at_def es_def)
  have "es \<noteq> []"
    using r(1) by auto
  then have n: "length es = Suc n" "last es = es ! n" "es \<noteq> []"
    by (auto simp: n_def last_conv_nth)
  have here: "row_at T j z \<longleftrightarrow> unat (table_row j) < length es \<and> es ! unat (table_row j) = z"
    if "table_id j = table_id l" for j z
    using row_at_same [of j T z] that tid by (simp add: es_def)
  let ?m = "\<lparr>table_id = table_id l, table_row = of_nat n\<rparr>"
  have u: "unat (of_nat n :: u32) = n"
    using small n(1) by (intro unat_of_nat_small) (simp flip: es_def)
  then have lst: "row_at T ?m (last es)"
    using here [of ?m] n by simp
  have at: "row_at (T[unat (table_id l) := t]) k y \<longleftrightarrow>
      (if table_id k = table_id l then ?s < n \<and> (if ?s = ?r then last es else es ! ?s) = y else row_at T k y)"
    using row_at_update [OF tid refl, of t k y] n r(1) nth_swap_remove [OF r(1), of ?s]
    unfolding t es_def [symmetric] by auto
  show "(if y = x then None else if y = last (t_entities (T ! unat (table_id l))) then Some l else loc y) = Some k
      \<longleftrightarrow> row_at (T[unat (table_id l) := t]) k y"
  proof (cases "table_id k = table_id l")
    case False
    then have "\<not> row_at T k x" "\<not> row_at T k (last es)" "l \<noteq> k"
      using one [OF \<open>row_at T l x\<close>, of k] one [OF lst, of k] by (auto simp: location_eq)
    then show ?thesis
      using False old unfolding at es_def [symmetric] by auto
  next
    case True
    have kl: "l = k \<longleftrightarrow> ?s = ?r"
      using True word_unat_eq_iff [of "table_row l" "table_row k"] by (auto simp: location_eq)
    have km: "?m = k \<longleftrightarrow> ?s = n"
      using True u word_unat_eq_iff [of "of_nat n" "table_row k"] by (auto simp: location_eq)
    have kx: "?s < length es \<Longrightarrow> es ! ?s = x \<Longrightarrow> ?s = ?r"
      using one [OF \<open>row_at T l x\<close>, of k] here [OF True, of x] kl by blast
    have ke: "?s < length es \<Longrightarrow> es ! ?s = last es \<Longrightarrow> ?s = n"
      using one [OF lst, of k] here [OF True, of "last es"] km by blast
    have nx: "n = ?r" if "last es = x"
      using one [OF \<open>row_at T l x\<close> lst [unfolded that]] u by (metis location.select_convs(2))
    have lhs: "(if y = x then None else if y = last es then Some l else loc y) = Some k \<longleftrightarrow>
        y \<noteq> x \<and> (if y = last es then ?s = ?r else ?s < Suc n \<and> es ! ?s = y)"
      using kl old [of y k] here [OF True, of y] unfolding n(1) by (simp split: if_split)
    consider "y = x" | "y \<noteq> x" "y = last es" | "y \<noteq> x" "y \<noteq> last es"
      by blast
    then show ?thesis
      unfolding at es_def [symmetric] lhs if_P [OF True]
    proof cases
      case 1
      then show "(y \<noteq> x \<and> (if y = last es then ?s = ?r else ?s < Suc n \<and> es ! ?s = y))
          = (?s < n \<and> (if ?s = ?r then last es else es ! ?s) = y)"
        using nx kx n(1) by (auto split: if_splits)
    next
      case 2
      have "?r < n"
        using 2 r n by (cases "?r = n") auto
      then show "(y \<noteq> x \<and> (if y = last es then ?s = ?r else ?s < Suc n \<and> es ! ?s = y))
          = (?s < n \<and> (if ?s = ?r then last es else es ! ?s) = y)"
        using 2 ke n(1) by auto
    next
      case 3
      then show "(y \<noteq> x \<and> (if y = last es then ?s = ?r else ?s < Suc n \<and> es ! ?s = y))
          = (?s < n \<and> (if ?s = ?r then last es else es ! ?s) = y)"
        using r(2) n(2) by (cases "?s = n") auto
    qed
  qed
qed

section \<open>What the allocator holds\<close>

lemma pool_allocator_free:
  assumes "alloc_inv a L"
  shows "set (pool (allocator_free a x)) = insert x (set (pool a))" "ea_fresh (allocator_free a x) = ea_fresh a"
proof -
  have "fl_size (ea_free a) + length (ea_free_buf a) < 2 ^ 32" "fl_inv (ea_free a)"
    using fl_size_bound [OF assms] assms by (auto simp: pool_def alloc_inv_def)
  then have "fl_stack (free_list_free (ea_free a) (ea_free_buf a)) = fl_stack (ea_free a) @ ea_free_buf a"
    using free_list_free_stack [of "ea_free a" "ea_free_buf a"] by simp
  then show "set (pool (allocator_free a x)) = insert x (set (pool a))"
    by (auto simp: allocator_free_def pool_def Let_def)
  show "ea_fresh (allocator_free a x) = ea_fresh a"
    by (simp add: allocator_free_def Let_def)
qed

text \<open>An id that comes out of the allocator was pooled or is of the first generation of a new slot.\<close>

definition minted :: "entity_allocator \<Rightarrow> entity_allocator \<Rightarrow> entity_id set" where
  "minted a a' = {new_id (of_nat i) 1 |i. unat (ea_fresh a) \<le> i \<and> i < unat (ea_fresh a')}"

lemma pool_alloc_mut:
  assumes inv: "alloc_inv a L" and r: "allocator_alloc_mut a = (Ok x, a')"
  shows "insert x (set (pool a')) \<subseteq> set (pool a) \<union> minted a a'" "unat (ea_fresh a) \<le> unat (ea_fresh a')"
proof -
  have "insert x (set (pool a')) \<subseteq> set (pool a) \<union> minted a a' \<and> unat (ea_fresh a) \<le> unat (ea_fresh a')"
  proof (cases "ea_alloc_buf a = []")
    case False
    then have "x = last (ea_alloc_buf a)" "a' = a\<lparr>ea_alloc_buf := butlast (ea_alloc_buf a)\<rparr>"
      using allocator_alloc_mut_result [OF inv] r by auto
    then show ?thesis
      using False by (auto simp: pool_def dest: in_set_butlastD)
  next
    case True
    have ok: "unat (ea_fresh a) + missing a 128 < 2 ^ 32"
      using True allocator_alloc_mut_result [OF inv] r by (auto split: if_splits)
    then have a': "x = hd (taken a 128)" "a' = (after_take a 128)\<lparr>ea_alloc_buf := tl (taken a 128)\<rparr>"
      using True allocator_alloc_mut_result [OF inv] r by auto
    note t = take_batch [OF inv ok]
    have ne: "taken a 128 \<noteq> []"
      using t(2) by auto
    have fl: "fl_stack (ea_free (after_take a 128)) = take (fl_size (ea_free a) - 128) (fl_stack (ea_free a))"
      using fl_pop_inv(3) [of "ea_free a" 128] t(1) inv by (simp add: after_take_def alloc_inv_def)
    have fr: "unat (ea_fresh a') = unat (ea_fresh a) + missing a 128"
      using t(6) by (simp add: a'(2))
    have tk: "set (taken a 128) \<subseteq> set (pool a) \<union> minted a a'"
      using fr by (auto simp: taken_def pool_def minted_def dest: in_set_dropD)
    have "insert x (set (pool a')) = set (fl_stack (ea_free (after_take a 128))) \<union> set (ea_free_buf a) \<union> set (taken a 128)"
      unfolding a' using ne by (cases "taken a 128") (auto simp: pool_def after_take_def)
    then show ?thesis
      using tk fr fl by (auto simp: pool_def dest: in_set_takeD)
  qed
  then show "insert x (set (pool a')) \<subseteq> set (pool a) \<union> minted a a'" "unat (ea_fresh a) \<le> unat (ea_fresh a')"
    by simp_all
qed

lemma ids_ok_alloc:
  assumes ids: "ids_ok a e R" and r: "allocator_alloc_mut a = (Ok x, a')"
  shows "ids_ok a' e (insert (index x) R)" "n_generation (slot e (index x)) = generation x"
    "n_location (slot e (index x)) = None" "index x \<noteq> 0xFFFFFFFF" "index x \<notin> R"
proof -
  have inv: "alloc_inv a (spawned e \<union> R)"
    using ids by (simp add: ids_ok_def)
  note t = alloc_mut_taken [OF inv r] and p = pool_alloc_mut [OF inv r]
  have gen: "n_generation (slot e (index y)) = generation y" if "y \<in> set (pool a) \<union> minted a a'" for y
  proof (cases "y \<in> set (pool a)")
    case True
    then show ?thesis
      using ids by (simp add: ids_ok_def)
  next
    case False
    then have "y \<in> minted a a'"
      using that by simp
    then obtain i where i: "y = new_id (of_nat i) 1" "unat (ea_fresh a) \<le> i" "i < unat (ea_fresh a')"
      by (auto simp: minted_def)
    then have "unat (of_nat i :: u32) = i"
      using unat_less_power [of "ea_fresh a'"] by (intro unat_of_nat_small) simp
    then show ?thesis
      using i ids by (simp add: ids_ok_def)
  qed
  show "n_generation (slot e (index x)) = generation x" "index x \<notin> R" "n_location (slot e (index x)) = None"
    using gen p(1) t by (auto simp: spawned_def)
  have "spawned e \<union> insert (index x) R = insert (index x) (spawned e \<union> R)"
    by simp
  moreover have "spawned e \<inter> insert (index x) R = {}"
    using ids t by (auto simp: ids_ok_def)
  moreover have "n_generation (slot e i) = 1" if "unat (ea_fresh a') \<le> unat i" for i
    using that p(2) ids by (simp add: ids_ok_def)
  ultimately show "ids_ok a' e (insert (index x) R)"
    using t gen p(1) by (auto simp: ids_ok_def)
  have "unat (index x) < unat (ea_fresh a')"
    using t by (auto simp: alloc_inv_def indices_ok_def)
  then show "index x \<noteq> 0xFFFFFFFF"
    using unat_less_power [of "ea_fresh a'"] by auto
qed

section \<open>Replacing one table\<close>

lemma set_table_sel [simp]:
  "w_allocator (set_table w i t) = w_allocator w" "w_entities (set_table w i t) = w_entities w"
  "ts_tables (w_tables (set_table w i t)) = (ts_tables (w_tables w))[unat i := t]"
  "w_this_run (set_table w i t) = w_this_run w"
  by (simp_all add: set_table_def)

lemma tables_get_Some:
  "tables_get ts i = Some t \<longleftrightarrow> unat i < length (ts_tables ts) \<and> t = ts_tables ts ! unat i"
  by (auto simp: tables_get_def)

text \<open>A table list with the same components and ids at the same places, all of them well formed.\<close>

lemma tables_inv_replace:
  assumes inv: "tables_inv req bu ts"
    and T: "length T = length (ts_tables ts)"
      "\<And>k. k < length T \<Longrightarrow> t_components (T ! k) = t_components (ts_tables ts ! k) \<and> t_id (T ! k) = t_id (ts_tables ts ! k)
        \<and> table_inv (T ! k)"
  shows "tables_inv req bu (ts\<lparr>ts_tables := T\<rparr>)"
proof -
  have s: "set_of (ts\<lparr>ts_tables := T\<rparr>) = set_of ts"
    using T by (auto simp: set_of_def tables_get_def fun_eq_iff)
  have "core_inv (ts\<lparr>ts_tables := T\<rparr>)"
    using inv T s by (auto simp: tables_inv_def core_inv_def)
  then show ?thesis
    using inv s by (simp add: tables_inv_def)
qed

lemma set_table_inv:
  assumes "tables_inv req bu (w_tables w)" "tables_get (w_tables w) i = Some t0" "t_components t = t_components t0"
    "t_id t = t_id t0" "table_inv t"
  shows "tables_inv req bu (w_tables (set_table w i t))"
proof -
  have "tables_inv req bu ((w_tables w)\<lparr>ts_tables := (ts_tables (w_tables w))[unat i := t]\<rparr>)"
    using assms
    by (intro tables_inv_replace) (auto simp: nth_list_update tables_get_Some tables_inv_def core_inv_def)
  then show ?thesis
    by (simp add: set_table_def)
qed

section \<open>Leaving the tree\<close>

lemma spawned_where: "where_is e x = Some l \<Longrightarrow> index x \<in> spawned e"
  using where_is_Some [of e x l] by (simp add: spawned_def)

lemma next_slot_generation:
  assumes "n_generation (slot e i) \<noteq> 0xFFFFFFFF" "n_location (slot e i) = None" "i \<noteq> 0xFFFFFFFF"
    "n_generation (slot e i) \<noteq> 0"
  obtains e' where "free_slot pf e i = (Ok (new_id i (n_generation (slot e i) + 1)), e')"
proof -
  let ?g = "n_generation (slot e i)"
  have n: "next_generation (new_id i ?g) = new_id i (?g + 1)"
    using assms(1) by (simp add: next_generation_step)
  have "?g + 1 \<noteq> 0"
  proof
    assume "?g + 1 = 0"
    then have "?g = - 1"
      by (simp add: eq_neg_iff_add_eq_0)
    then show False
      using assms(1) by simp
  qed
  with n assms show ?thesis
    by (cases rule: ensure_exist_cases [of pf e i]) (auto simp: free_slot_total Let_def intro: that)
qed

lemma unspawn_tree:
  assumes inv: "tree_inv e" and x: "where_is e x = Some l" and idx: "index x \<noteq> 0xFFFFFFFF"
    and gen: "generation x \<noteq> 0xFFFFFFFF"
    and m: "moved = MovedNone \<and> y = x
      \<or> moved = MovedSome y (table_row l) \<and> y \<noteq> x \<and> (\<exists>m. where_is e y = Some m \<and> table_id m = table_id l)"
  obtains e1 e2 e3 where "remove_one pf e x = (Ok l, e1)" "update_row e1 moved = (Ok (), e2)"
    "free_slot pf e2 (index x) = (Ok (new_id (index x) (generation x + 1)), e3)" "tree_inv e3"
    "where_is e3 = (\<lambda>z. if z = x then None else if z = y then Some l else where_is e z)"
    "\<And>z. alive e z \<Longrightarrow> z \<noteq> x \<Longrightarrow> parent_of e3 z = (if parent_of e z = Some x then None else parent_of e z)"
    "\<And>i. n_generation (slot e3 i) = (if i = index x then generation x + 1 else n_generation (slot e i))"
    "spawned e3 = spawned e - {index x}"
proof -
  have ax: "alive e x" "n_location (slot e (index x)) = Some l"
    using where_is_Some [OF x] by auto
  obtain e1 where r: "remove_one pf e x = (Ok l, e1)"
    by (rule remove_one_effect [OF inv ax(1), of pf]) (use ax(2) in auto)
  note r1 = remove_one_Ok [OF inv r]
  note v1 = removed_view [OF inv ax(1) r1(4)]
  have w1: "where_is e1 z = (if z = x then None else where_is e z)" for z
    using v1(1) r1(4) by (auto simp: where_is_def alive_same_index dest: alive_same_index [OF ax(1)])
  have s1: "n_location (slot e1 i) = (if i = index x then None else n_location (slot e i))"
    "n_generation (slot e1 i) = n_generation (slot e i)" for i
    using r1(4) by simp_all
  obtain e2 where u: "update_row e1 moved = (Ok (), e2)" "tree_inv e2" "alive e2 = alive e1" "parent_of e2 = parent_of e1"
    "\<And>i. n_generation (slot e2 i) = n_generation (slot e i)"
    "\<And>i. n_location (slot e2 i) = (if y \<noteq> x \<and> i = index y then Some l else n_location (slot e1 i))"
  proof (cases "y = x")
    case True
    then have "moved = MovedNone"
      using m by auto
    then show ?thesis
      using that [of e1] r1(3) s1(2) True by (simp add: update_row_def)
  next
    case False
    then obtain k where mv: "moved = MovedSome y (table_row l)" and k: "where_is e y = Some k" "table_id k = table_id l"
      using m by auto
    have "alive e1 y" "n_location (slot e1 (index y)) = Some k"
      using w1 [of y] k False where_is_Some [of e1 y k] by auto
    then obtain e2 where e2: "update_row e1 moved = (Ok (), e2)"
      "e2 = set_node e1 (index y) (\<lambda>n. n\<lparr>n_location := Some (k\<lparr>table_row := table_row l\<rparr>)\<rparr>)"
      using mv by (cases rule: update_row_cases [of moved e1]) auto
    have "k\<lparr>table_row := table_row l\<rparr> = l"
      using k(2) by (simp add: location_eq)
    then have "n_location (slot e2 i) = (if y \<noteq> x \<and> i = index y then Some l else n_location (slot e1 i))" for i
      using False \<open>alive e1 y\<close> by (simp add: e2(2) slot_set_node alive_in_range)
    then show ?thesis
      using that [OF e2(1)] update_row_inv [OF r1(3) e2(1)] s1(2) by metis
  qed
  have free: "n_location (slot e2 (index x)) = None" "n_generation (slot e2 (index x)) = generation x"
    using u(5,6) s1 ax m alive_same_index [OF ax(1), of y] where_is_Some [of e y] by (auto simp: alive_def)
  obtain e3 where f: "free_slot pf e2 (index x) = (Ok (new_id (index x) (generation x + 1)), e3)"
    using next_slot_generation [of e2 "index x" pf] free gen idx tree_invD(1) [OF u(2)] by metis
  note f3 = free_slot_Ok [OF f] and v3 = free_slot_view [OF f]
  have loc3: "n_location (slot e3 i) = n_location (slot e2 i)" for i
    using f3(6) by simp
  have y1: "alive e1 y" if "y \<noteq> x"
    using that m w1 [of y] where_is_Some [of e1 y] by auto
  have "where_is e3 z = (if z = x then None else if z = y then Some l else where_is e z)" for z
  proof (cases "z = y \<and> y \<noteq> x")
    case True
    then have "alive e3 y" "n_location (slot e3 (index y)) = Some l"
      using y1 u(3,6) v3(1) loc3 by simp_all
    then show ?thesis
      using True by (simp add: where_is_def)
  next
    case False
    have "n_location (slot e2 (index z)) = n_location (slot e1 (index z))" if "alive e1 z"
    proof (cases "y = x")
      case False
      then have "index z \<noteq> index y"
        using alive_same_index [OF that y1] \<open>\<not> (z = y \<and> y \<noteq> x)\<close> by blast
      then show ?thesis
        using u(6) by simp
    qed (use u(6) in simp)
    then have "where_is e3 z = where_is e1 z"
      using u(3) v3(1) loc3 by (auto simp: where_is_def)
    then show ?thesis
      using w1 False by auto
  qed
  moreover have "parent_of e3 z = (if parent_of e z = Some x then None else parent_of e z)" if "alive e z" "z \<noteq> x" for z
    using that v1(1,2) v3(2) u(3,4) by auto
  moreover have "spawned e3 = spawned e - {index x}"
    using loc3 u(6) s1(1) m spawned_where [of e y] alive_same_index [OF ax(1), of y] where_is_Some [of e y]
    by (auto simp: spawned_def)
  moreover have "n_generation (slot e3 i) = (if i = index x then generation x + 1 else n_generation (slot e i))" for i
    using f3(6) u(5) by simp
  ultimately show ?thesis
    using that [OF r u(1) f free_slot_inv [OF u(2) f]] by blast
qed

lemma row_data_swap_remove:
  assumes p: "placed loc T" and x: "loc x = Some l"
    and t: "t_components t = t_components (T ! unat (table_id l))"
      "rows t = swap_remove (unat (table_row l)) (rows (T ! unat (table_id l)))"
    and small: "length (t_entities (T ! unat (table_id l))) < 2 ^ 32"
    and z: "z \<noteq> x" "(if z = last (t_entities (T ! unat (table_id l))) then Some l else loc z) = Some k" "loc z \<noteq> None"
  shows "\<exists>k0. loc z = Some k0 \<and> row_data (T[unat (table_id l) := t]) k = row_data T k0"
proof -
  define t0 where "t0 = T ! unat (table_id l)"
  define n where "n = length (t_entities t0) - 1"
  let ?r = "unat (table_row l)"
  obtain k0 where k0: "loc z = Some k0"
    using z(3) by blast
  have at: "row_at T l x" "row_at T k0 z"
    using p x k0 by (simp_all add: placed_def)
  then have tid: "unat (table_id l) < length T" and r: "?r < length (t_entities t0)" "t_entities t0 ! ?r = x"
    by (simp_all add: row_at_def t0_def)
  have n: "length (t_entities t0) = Suc n" "last (t_entities t0) = t_entities t0 ! n" "length (rows t0) = Suc n"
    using r(1) last_conv_nth [of "t_entities t0"] by (cases "t_entities t0"; simp add: n_def)+
  have nth: "rows t ! j = (if j = ?r then rows t0 ! n else rows t0 ! j)" if "j < n" for j
    using nth_swap_remove [of ?r "rows t0" j] that n r(1) t(2) by (simp flip: t0_def)
  show ?thesis
  proof (cases "z = last (t_entities t0)")
    case True
    then have kl: "k = l"
      using z(2) by (simp add: t0_def)
    have "?r \<noteq> n"
      using True z(1) r(2) n(2) by auto
    then have "?r < n"
      using r(1) n(1) by simp
    let ?m = "\<lparr>table_id = table_id l, table_row = of_nat n\<rparr>"
    have u: "unat (of_nat n :: u32) = n"
      using small n(1) by (intro unat_of_nat_small) (simp flip: t0_def)
    have "row_at T ?m z"
      using tid u n(1,2) True by (simp add: row_at_def flip: t0_def)
    then have "k0 = ?m"
      using p k0 unfolding placed_def by (metis option.inject)
    then have "row_data T k0 = (t_components t0, snd (rows t0 ! n))"
      using u by (simp add: row_data_def flip: t0_def)
    moreover have "row_data (T[unat (table_id l) := t]) k = (t_components t0, snd (rows t0 ! n))"
      using kl tid nth [OF \<open>?r < n\<close>] t(1) by (simp add: row_data_def flip: t0_def)
    ultimately show ?thesis
      using k0 by simp
  next
    case False
    then have k: "k = k0"
      using z(2) k0 by (simp flip: t0_def)
    have "row_data (T[unat (table_id l) := t]) k0 = row_data T k0"
    proof (cases "table_id k0 = table_id l")
      case True
      then have s: "unat (table_row k0) < Suc n" "t_entities t0 ! unat (table_row k0) = z"
        using at(2) n(1) by (simp_all add: row_at_def flip: t0_def)
      then have "unat (table_row k0) \<noteq> ?r" "unat (table_row k0) < n"
        using r(2) z(1) False n(2) by (auto simp: less_Suc_eq)
      then show ?thesis
        using True tid nth t(1) by (simp add: row_data_def flip: t0_def)
    next
      case False
      then have "unat (table_id k0) \<noteq> unat (table_id l)"
        by (simp add: word_unat_eq_iff)
      then show ?thesis
        by (simp add: row_data_def)
    qed
    then show ?thesis
      using k k0 by simp
  qed
qed

lemma ids_ok_free:
  assumes ids: "ids_ok a e R" and x: "index x \<in> spawned e"
    and e': "spawned e' = spawned e - {index x}"
      "\<And>i. n_generation (slot e' i) = (if i = index x then generation nid else n_generation (slot e i))"
    and nid: "index nid = index x"
  shows "ids_ok (allocator_free a nid) e' R"
proof -
  have inv: "alloc_inv a (spawned e \<union> R)" and R: "spawned e \<inter> R = {}"
    using ids by (simp_all add: ids_ok_def)
  note p = pool_allocator_free [OF inv, of nid]
  have "spawned e \<union> R - {index nid} = spawned e' \<union> R"
    using R x nid e'(1) by auto
  then have "alloc_inv (allocator_free a nid) (spawned e' \<union> R)"
    using allocator_free_inv [OF inv, of nid] x nid by simp
  moreover have "index y \<noteq> index x" if "y \<in> set (pool a)" for y
    using inv that x by (auto simp: alloc_inv_def indices_ok_def)
  moreover have "unat (index x) < unat (ea_fresh a)"
    using inv x by (auto simp: alloc_inv_def indices_ok_def)
  ultimately show ?thesis
    using ids R nid p e' by (auto simp: ids_ok_def)
qed

section \<open>Despawning one entity\<close>

text \<open>What the invariant gives for a live entity: its table and its row.\<close>

lemma world_inv_row:
  assumes inv: "world_inv req bu R w" and x: "where_is (w_entities w) x = Some l"
  obtains t where "tables_get (w_tables w) (table_id l) = Some t" "table_inv t" "rows_full t"
    "unat (table_row l) < length (t_entities t)" "t_entities t ! unat (table_row l) = x"
    "t = ts_tables (w_tables w) ! unat (table_id l)" "unat (table_id l) < length (ts_tables (w_tables w))"
proof -
  have "row_at (ts_tables (w_tables w)) l x"
    using inv x by (simp add: world_inv_def placed_def)
  then show ?thesis
    using that inv by (auto simp: row_at_def tables_get_Some world_inv_def tables_inv_def core_inv_def)
qed

lemma world_inv_index:
  assumes "world_inv req bu R w" "i \<in> spawned (w_entities w) \<union> R"
  shows "i \<noteq> 0xFFFFFFFF"
proof -
  have "unat i < unat (ea_fresh (w_allocator w))"
    using assms by (auto simp: world_inv_def ids_ok_def alloc_inv_def indices_ok_def)
  then show ?thesis
    using unat_less_power [of "ea_fresh (w_allocator w)"] by auto
qed

definition without :: "entity_id \<Rightarrow> (entity_id \<rightharpoonup> entity_id option \<times> 'd) \<Rightarrow> entity_id \<rightharpoonup> entity_id option \<times> 'd" where
  "without x f y = (if y = x then None else map_option (apfst (\<lambda>p. if p = Some x then None else p)) (f y))"

lemma small_table: "table_inv t \<Longrightarrow> length (t_entities t) < 2 ^ 32"
  by (simp add: table_inv_def)

lemma rows_full_swap:
  assumes "rows_full t" "rows t' = swap_remove i (rows t)" "i < length (rows t)"
  shows "rows_full t'"
  unfolding rows_full_def
proof
  fix r
  assume "r \<in> set (rows t')"
  then obtain j where "j < length (rows t) - 1" "r = swap_remove i (rows t) ! j"
    unfolding assms(2) in_set_conv_nth by auto
  then have "r \<in> set (rows t)"
    using nth_swap_remove [OF assms(3), of j] by (auto simp del: nth_rows)
  then show "row_full r"
    using assms(1) by (simp add: rows_full_def)
qed

text \<open>The entity in the last row of a table, which takes the place of a removed one.\<close>

lemma swap_partner:
  assumes inv: "world_inv req bu R w" and l: "where_is (w_entities w) x = Some l" and t: "tables_get (w_tables w) (table_id l) = Some t"
  shows "where_is (w_entities w) (last (t_entities t)) \<noteq> None"
    "(if unat (table_row l) = length (t_entities t) - 1 then MovedNone else MovedSome (last (t_entities t)) (table_row l)) = MovedNone
        \<and> last (t_entities t) = x
      \<or> (if unat (table_row l) = length (t_entities t) - 1 then MovedNone else MovedSome (last (t_entities t)) (table_row l))
          = MovedSome (last (t_entities t)) (table_row l)
        \<and> last (t_entities t) \<noteq> x
        \<and> (\<exists>m. where_is (w_entities w) (last (t_entities t)) = Some m \<and> table_id m = table_id l)"
proof -
  let ?e = "w_entities w" and ?T = "ts_tables (w_tables w)" and ?n = "length (t_entities t) - 1" and ?y = "last (t_entities t)"
  obtain t' where "tables_get (w_tables w) (table_id l) = Some t'" "table_inv t'" "rows_full t'"
    "unat (table_row l) < length (t_entities t')" "t_entities t' ! unat (table_row l) = x"
    "t' = ?T ! unat (table_id l)" "unat (table_id l) < length ?T"
    by (rule world_inv_row [OF inv l])
  then have t': "table_inv t" "unat (table_row l) < length (t_entities t)" "t_entities t ! unat (table_row l) = x"
    "t = ?T ! unat (table_id l)" "unat (table_id l) < length ?T"
    using t by simp_all
  have es: "t_entities t \<noteq> []" "?y = t_entities t ! ?n"
    using t'(2) last_conv_nth [of "t_entities t"] by (cases "t_entities t"; simp)+
  let ?m = "\<lparr>table_id = table_id l, table_row = of_nat ?n\<rparr>"
  have u: "unat (of_nat ?n :: u32) = ?n"
    using small_table [OF t'(1)] by (intro unat_of_nat_small) simp
  have "row_at ?T ?m ?y"
    using u t'(2,4,5) es by (simp add: row_at_def)
  then have y: "where_is ?e ?y = Some ?m"
    using inv by (simp add: world_inv_def placed_def)
  then show "where_is ?e ?y \<noteq> None"
    by simp
  have "?y = x \<longleftrightarrow> unat (table_row l) = ?n"
    using y l t'(3) es(2) u by (metis location.select_convs(2) option.inject)
  then show "(if unat (table_row l) = ?n then MovedNone else MovedSome ?y (table_row l)) = MovedNone \<and> ?y = x
      \<or> (if unat (table_row l) = ?n then MovedNone else MovedSome ?y (table_row l)) = MovedSome ?y (table_row l)
        \<and> ?y \<noteq> x \<and> (\<exists>m. where_is ?e ?y = Some m \<and> table_id m = table_id l)"
    using y by simp
qed

lemma despawn_one_ok:
  assumes inv: "world_inv req bu R w" and x: "alive (w_entities w) x" and gen: "generation x \<noteq> 0xFFFFFFFF"
  obtains w' where "despawn_one pf w x = Some (Ok (), w')" "world_inv req bu R w'"
    "world_view w' = without x (world_view w)"
    "\<And>i. i \<noteq> index x \<Longrightarrow> n_generation (slot (w_entities w') i) = n_generation (slot (w_entities w) i)"
proof -
  let ?e = "w_entities w" and ?T = "ts_tables (w_tables w)"
  obtain l where l: "where_is ?e x = Some l"
    using x where_is_None_iff [of ?e x] by auto
  obtain t where t: "tables_get (w_tables w) (table_id l) = Some t" "table_inv t" "rows_full t"
    "unat (table_row l) < length (t_entities t)" "t_entities t ! unat (table_row l) = x"
    "t = ?T ! unat (table_id l)" "unat (table_id l) < length ?T"
    by (rule world_inv_row [OF inv l])
  let ?n = "length (t_entities t) - 1" and ?y = "last (t_entities t)"
  define moved where "moved = (if unat (table_row l) = ?n then MovedNone else MovedSome ?y (table_row l))"
  have full: "True \<Longrightarrow> row_full (rows t ! unat (table_row l))"
    using t(3,4) by (simp add: rows_full_def del: nth_rows)
  obtain t' where d: "dealloc_row True t (table_row l) = Some (moved, t')" "table_inv t'"
    "rows t' = swap_remove (unat (table_row l)) (rows t)" "t_components t' = t_components t" "t_id t' = t_id t"
    "t_entities t' = swap_remove (unat (table_row l)) (t_entities t)"
    unfolding moved_def by (rule dealloc_row_ok [OF t(2,4) full]) blast+
  have p: "placed (where_is ?e) ?T"
    using inv by (simp add: world_inv_def)
  have m: "moved = MovedNone \<and> ?y = x
      \<or> moved = MovedSome ?y (table_row l) \<and> ?y \<noteq> x \<and> (\<exists>m. where_is ?e ?y = Some m \<and> table_id m = table_id l)"
    and y: "where_is ?e ?y \<noteq> None"
    using swap_partner [OF inv l t(1)] by (simp_all add: moved_def)
  have tree: "tree_inv ?e" and idx: "index x \<noteq> 0xFFFFFFFF"
    using inv world_inv_index [OF inv, of "index x"] spawned_where [OF l] by (auto simp: world_inv_def)
  obtain e1 e2 e3 where e3: "remove_one pf ?e x = (Ok l, e1)" "update_row e1 moved = (Ok (), e2)"
    "free_slot pf e2 (index x) = (Ok (new_id (index x) (generation x + 1)), e3)" "tree_inv e3"
    "where_is e3 = (\<lambda>z. if z = x then None else if z = ?y then Some l else where_is ?e z)"
    "\<And>z. alive ?e z \<Longrightarrow> z \<noteq> x \<Longrightarrow> parent_of e3 z = (if parent_of ?e z = Some x then None else parent_of ?e z)"
    "\<And>i. n_generation (slot e3 i) = (if i = index x then generation x + 1 else n_generation (slot ?e i))"
    "spawned e3 = spawned ?e - {index x}"
    by (rule unspawn_tree [OF tree l idx gen m, of pf]) (rule that, assumption+)
  define w' where "w' = (set_table w (table_id l) t')\<lparr>w_entities := e3,
    w_allocator := allocator_free (w_allocator w) (new_id (index x) (generation x + 1))\<rparr>"
  have sel: "w_entities w' = e3" "ts_tables (w_tables w') = ?T[unat (table_id l) := t']"
    "w_tables w' = w_tables (set_table w (table_id l) t')"
    by (simp_all add: w'_def)
  have "despawn_one pf w x = Some (Ok (), w')"
    using e3(1-3) t(1) d(1) by (simp add: despawn_one_def w'_def)
  moreover have "world_inv req bu R w'"
  proof -
    have "ids_ok (w_allocator w') e3 R"
      using ids_ok_free [OF _ spawned_where [OF l] e3(8), of "w_allocator w" R "new_id (index x) (generation x + 1)"] e3(7) inv
      by (simp add: world_inv_def w'_def)
    moreover have "tables_inv req bu (w_tables w')"
      unfolding sel(3) using inv by (intro set_table_inv [OF _ t(1) d(4,5,2)]) (simp add: world_inv_def)
    moreover have "rows_full s" if "s \<in> set (?T[unat (table_id l) := t'])" for s
      using that set_update_subset_insert [of ?T "unat (table_id l)" t'] inv rows_full_swap [OF t(3) d(3)] t(4)
      by (auto simp: world_inv_def)
    moreover have "placed (where_is e3) (?T[unat (table_id l) := t'])"
      using placed_swap_remove [OF p l, of t'] d(6) small_table [OF t(2)] unfolding e3(5) t(6) by simp
    ultimately show ?thesis
      using e3(4) by (simp add: world_inv_def sel)
  qed
  moreover have "world_view w' = without x (world_view w)"
  proof
    fix z
    show "world_view w' z = without x (world_view w) z"
    proof (cases "z = x \<or> where_is ?e z = None")
      case True
      then have "where_is e3 z = None"
        using y unfolding e3(5) by auto
      then show ?thesis
        using True by (auto simp: world_view_eq sel without_def)
    next
      case False
      have "(if z = ?y then Some l else where_is ?e z) \<noteq> None"
        using False by simp
      then obtain k where k: "(if z = ?y then Some l else where_is ?e z) = Some k"
        by blast
      then have k3: "where_is e3 z = Some k"
        using False unfolding e3(5) by simp
      obtain k0 where k0: "where_is ?e z = Some k0" "row_data (?T[unat (table_id l) := t']) k = row_data ?T k0"
        using row_data_swap_remove [OF p l _ _ _ _ k [unfolded t(6)], of t'] d(3,4) small_table [OF t(2)] False
        unfolding t(6) by blast
      have "alive ?e z" "z \<noteq> x"
        using False where_is_None_iff [of ?e z] by auto
      then show ?thesis
        using k3 k0 e3(6) by (simp add: world_view_eq sel without_def)
    qed
  qed
  ultimately show ?thesis
    using that e3(7) by (simp add: sel)
qed

section \<open>Entering the tree\<close>

lemma spawn_tree:
  assumes inv: "tree_inv e" and ok: "valid_parent e x parent" and gen: "n_generation (slot e (index x)) = generation x"
    and free: "n_location (slot e (index x)) = None" and idx: "index x \<noteq> 0xFFFFFFFF"
  obtains e' where "insert_one pf e x parent l = (Ok (), e')" "tree_inv e'" "where_is e' = (where_is e)(x \<mapsto> l)"
    "\<And>z. alive e z \<Longrightarrow> parent_of e' z = parent_of e z" "parent_of e' x = parent"
    "\<And>i. n_generation (slot e' i) = n_generation (slot e i)" "spawned e' = insert (index x) (spawned e)"
proof -
  obtain e' where i: "insert_one pf e x parent l = (Ok (), e')"
    using insert_one_succeeds [OF inv ok gen free idx] by blast
  note o = insert_one_Ok [OF inv i]
  note v = inserted_view [OF free gen ok o(5)]
  have s: "n_location (slot e' i) = (if i = index x then Some l else n_location (slot e i))"
    "n_generation (slot e' i) = n_generation (slot e i)" for i
    using o(5) by (auto simp: attached_def split: option.split)
  have nx: "\<not> alive e x"
    using free by (simp add: alive_def)
  have "where_is e' z = ((where_is e)(x \<mapsto> l)) z" for z
  proof (cases "z = x")
    case True
    then show ?thesis
      using v(1) [of x] s(1) by (simp add: where_is_def)
  next
    case False
    then have "alive e' z \<longleftrightarrow> alive e z" "alive e z \<Longrightarrow> index z \<noteq> index x"
      using v(1) [of z] free by (auto simp: alive_def)
    then show ?thesis
      using False s(1) by (simp add: where_is_def)
  qed
  moreover have "parent_of e' z = parent_of e z" if "alive e z" for z
    using v(1,2) [of z] that nx by auto
  moreover have "parent_of e' x = parent"
    using v(1,2) [of x] by auto
  moreover have "spawned e' = insert (index x) (spawned e)"
    using s(1) by (auto simp: spawned_def)
  ultimately show ?thesis
    using that [OF i o(4)] s(2) by (simp add: fun_eq_iff)
qed

section \<open>Spawning one entity\<close>

text \<open>The table with a new last row for \<open>x\<close> that holds the items \<open>its\<close>.\<close>

definition extended :: "'v table \<Rightarrow> entity_id \<Rightarrow> 'v item list \<Rightarrow> 'v table \<Rightarrow> bool" where
  "extended t x its t' \<longleftrightarrow> table_inv t' \<and> t_entities t' = t_entities t @ [x] \<and> t_components t' = t_components t
     \<and> t_id t' = t_id t \<and> rows t' = rows t @ [(x, its)]"

lemma place_row:
  assumes inv: "world_inv req bu R w" and t: "tables_get (w_tables w) tid = Some t" and x: "index x \<in> R"
    and gen: "n_generation (slot (w_entities w) (index x)) = generation x"
    and ok: "valid_parent (w_entities w) x parent"
    and t': "extended t x its t'" "row_full (x, its)"
  obtains e' where "insert_one pf (w_entities w) x parent \<lparr>table_id = tid, table_row = of_nat (length (t_entities t))\<rparr> = (Ok (), e')"
    "world_inv req bu (R - {index x}) ((set_table w tid t')\<lparr>w_entities := e'\<rparr>)"
    "world_view ((set_table w tid t')\<lparr>w_entities := e'\<rparr>) = (world_view w)(x \<mapsto> (parent, t_components t, its))"
proof -
  let ?e = "w_entities w" and ?T = "ts_tables (w_tables w)"
  let ?l = "\<lparr>table_id = tid, table_row = of_nat (length (t_entities t))\<rparr>"
  have tT: "t = ?T ! unat tid" "unat tid < length ?T"
    using t by (auto simp: tables_get_Some)
  have tree: "tree_inv ?e" and ids: "ids_ok (w_allocator w) ?e R" and p: "placed (where_is ?e) ?T"
    and tables: "tables_inv req bu (w_tables w)"
    using inv by (simp_all add: world_inv_def)
  have "table_inv t"
    using tables tT by (auto simp: tables_inv_def core_inv_def)
  note small = small_table [OF this]
  have free: "n_location (slot ?e (index x)) = None"
    using ids x by (auto simp: ids_ok_def spawned_def)
  have idx: "index x \<noteq> 0xFFFFFFFF"
    using world_inv_index [OF inv] x by blast
  obtain e' where e': "insert_one pf ?e x parent ?l = (Ok (), e')" "tree_inv e'" "where_is e' = (where_is ?e)(x \<mapsto> ?l)"
    "\<And>z. alive ?e z \<Longrightarrow> parent_of e' z = parent_of ?e z" "parent_of e' x = parent"
    "\<And>i. n_generation (slot e' i) = n_generation (slot ?e i)" "spawned e' = insert (index x) (spawned ?e)"
    by (rule spawn_tree [OF tree ok gen free idx, of pf ?l]) (rule that, assumption+)
  have nx: "where_is ?e x = None"
    using free by (simp add: where_is_def)
  let ?T' = "?T[unat tid := t']" and ?w = "(set_table w tid t')\<lparr>w_entities := e'\<rparr>"
  have ents: "t_entities t' = t_entities (?T ! unat tid) @ [x]" and comps: "t_components t' = t_components t" "t_id t' = t_id t"
    "table_inv t'" "rows t' = rows t @ [(x, its)]"
    using t'(1) tT by (simp_all add: extended_def)
  have "placed (where_is e') ?T'"
    unfolding e'(3) using placed_append [OF p tT(2) nx ents] small tT(1) by simp
  moreover have "ids_ok (w_allocator w) e' (R - {index x})"
  proof -
    have "spawned e' \<union> (R - {index x}) = spawned ?e \<union> R" "spawned e' \<inter> (R - {index x}) = {}"
      using x e'(7) ids by (auto simp: ids_ok_def)
    then show ?thesis
      using ids e'(6) by (simp add: ids_ok_def)
  qed
  moreover have "tables_inv req bu (w_tables ?w)"
    using set_table_inv [OF tables t comps(1-3)] by simp
  moreover have "rows_full s" if "s \<in> set ?T'" for s
  proof -
    have "rows_full t"
      using inv tT by (auto simp: world_inv_def)
    then have "rows_full t'"
      using t'(2) comps(4) by (auto simp: rows_full_def)
    then show ?thesis
      using that set_update_subset_insert [of ?T "unat tid" t'] inv by (auto simp: world_inv_def)
  qed
  ultimately have "world_inv req bu (R - {index x}) ?w"
    using e'(2) by (simp add: world_inv_def)
  moreover have "world_view ?w = (world_view w)(x \<mapsto> (parent, t_components t, its))"
  proof
    fix z
    have u: "unat (of_nat (length (t_entities t)) :: u32) = length (t_entities t)"
      using small by (intro unat_of_nat_small) simp
    have new: "row_data ?T' ?l = (t_components t, its)"
      using comps tT u by (simp add: row_data_def nth_append)
    have old: "row_data ?T' k = row_data ?T k" if "where_is ?e z = Some k" for k
    proof (cases "table_id k = tid")
      case True
      then have "unat (table_row k) < length (rows t)"
        using that p tT by (simp add: placed_def row_at_def)
      then show ?thesis
        using True tT comps by (simp add: row_data_def nth_append)
    next
      case False
      then have "unat (table_id k) \<noteq> unat tid"
        by (simp add: word_unat_eq_iff)
      then show ?thesis
        by (simp add: row_data_def)
    qed
    show "world_view ?w z = ((world_view w)(x \<mapsto> (parent, t_components t, its))) z"
      using new old e'(3-5) where_is_Some [of ?e z]
      by (cases "where_is ?e z") (auto simp: world_view_eq)
  qed
  ultimately show ?thesis
    using that e'(1) by blast
qed

lemma alloc_row_extends:
  assumes inv: "table_inv t"
    and room: "length (t_entities t) = t_cap t \<Longrightarrow> vec_capacity pf (length (t_entities t) + 1) \<le> 0xFFFFFFFF"
  obtains t' where "alloc_row pf t x = Some (of_nat (length (t_entities t)), t')"
    "extended t x (map (\<lambda>c. item c (length (t_entities t))) (t_columns t')) t'"
proof -
  let ?n = "length (t_entities t)"
  obtain t' where t': "alloc_row pf t x = Some (of_nat ?n, t')" "table_inv t'"
    "t_entities t' = t_entities t @ [x]" "t_components t' = t_components t" "t_id t' = t_id t"
    "list_all2 (col_agree ?n) (t_columns t) (t_columns t')"
    by (rule alloc_row_ok [OF inv room, where x = x]) (assumption | rule that)+
  have "rows t' = rows t @ [(x, map (\<lambda>c. item c ?n) (t_columns t'))]"
    using agree_rows(1) [OF t'(6)] t'(3) by (auto simp: rows_def nth_append)
  then show ?thesis
    using that t' by (simp add: extended_def)
qed

section \<open>Worlds of the same shape\<close>

text \<open>
  The same ids, the same tree and the same rows in the same places; component values may differ. This is what
  the restricted world handle given to hooks allows.
\<close>

definition same_shape :: "'v world \<Rightarrow> 'v world \<Rightarrow> bool" where
  "same_shape w w' \<longleftrightarrow>
     w_allocator w' = w_allocator w \<and> same_tree (w_entities w) (w_entities w') \<and> w_this_run w' = w_this_run w
     \<and> (\<exists>T. w_tables w' = (w_tables w)\<lparr>ts_tables := T\<rparr> \<and> length T = length (ts_tables (w_tables w))
         \<and> (\<forall>k<length T. let t = ts_tables (w_tables w) ! k in
              t_entities (T ! k) = t_entities t \<and> t_components (T ! k) = t_components t \<and> t_id (T ! k) = t_id t
              \<and> (table_inv t \<longrightarrow> table_inv (T ! k)) \<and> (table_inv t \<and> rows_full t \<longrightarrow> rows_full (T ! k))))"

lemma same_shape_refl [simp]: "same_shape w w"
  unfolding same_shape_def by (simp add: Let_def) (rule exI [of _ "ts_tables (w_tables w)"], simp)

lemma same_shape_trans:
  assumes "same_shape w w1" "same_shape w1 w2"
  shows "same_shape w w2"
proof -
  obtain T1 T2 where T: "w_tables w1 = (w_tables w)\<lparr>ts_tables := T1\<rparr>" "length T1 = length (ts_tables (w_tables w))"
    "w_tables w2 = (w_tables w1)\<lparr>ts_tables := T2\<rparr>" "length T2 = length T1"
    "\<And>k. k < length T1 \<Longrightarrow> t_entities (T1 ! k) = t_entities (ts_tables (w_tables w) ! k) \<and>
       t_components (T1 ! k) = t_components (ts_tables (w_tables w) ! k) \<and> t_id (T1 ! k) = t_id (ts_tables (w_tables w) ! k)
       \<and> (table_inv (ts_tables (w_tables w) ! k) \<longrightarrow> table_inv (T1 ! k))
       \<and> (table_inv (ts_tables (w_tables w) ! k) \<and> rows_full (ts_tables (w_tables w) ! k) \<longrightarrow> rows_full (T1 ! k))"
    "\<And>k. k < length T1 \<Longrightarrow> t_entities (T2 ! k) = t_entities (T1 ! k) \<and> t_components (T2 ! k) = t_components (T1 ! k)
       \<and> t_id (T2 ! k) = t_id (T1 ! k) \<and> (table_inv (T1 ! k) \<longrightarrow> table_inv (T2 ! k))
       \<and> (table_inv (T1 ! k) \<and> rows_full (T1 ! k) \<longrightarrow> rows_full (T2 ! k))"
    using assms unfolding same_shape_def Let_def by auto
  show ?thesis
    using assms T unfolding same_shape_def Let_def same_tree_def
    by (intro conjI exI [of _ T2]) simp_all
qed

lemma same_shape_tree:
  assumes "same_shape w w'"
  shows "slot (w_entities w') = slot (w_entities w)" "alive (w_entities w') = alive (w_entities w)"
    "parent_of (w_entities w') = parent_of (w_entities w)" "where_is (w_entities w') = where_is (w_entities w)"
    "spawned (w_entities w') = spawned (w_entities w)"
proof -
  show s: "slot (w_entities w') = slot (w_entities w)"
    using assms by (simp add: same_shape_def same_tree_def)
  note c = view_cong [OF this]
  show "alive (w_entities w') = alive (w_entities w)" "parent_of (w_entities w') = parent_of (w_entities w)"
    using c by simp_all
  show "where_is (w_entities w') = where_is (w_entities w)" "spawned (w_entities w') = spawned (w_entities w)"
    using c s by (auto simp: where_is_def spawned_def)
qed

lemma same_shape_inv:
  assumes s: "same_shape w w'" and inv: "world_inv req bu R w"
  shows "world_inv req bu R w'"
proof -
  obtain T where T: "w_tables w' = (w_tables w)\<lparr>ts_tables := T\<rparr>" "length T = length (ts_tables (w_tables w))"
    "\<And>k. k < length T \<Longrightarrow> t_entities (T ! k) = t_entities (ts_tables (w_tables w) ! k) \<and>
       t_components (T ! k) = t_components (ts_tables (w_tables w) ! k) \<and> t_id (T ! k) = t_id (ts_tables (w_tables w) ! k)
       \<and> (table_inv (ts_tables (w_tables w) ! k) \<longrightarrow> table_inv (T ! k))
       \<and> (table_inv (ts_tables (w_tables w) ! k) \<and> rows_full (ts_tables (w_tables w) ! k) \<longrightarrow> rows_full (T ! k))"
    using s unfolding same_shape_def Let_def by auto
  note tr = same_shape_tree [OF s]
  have ti: "table_inv (ts_tables (w_tables w) ! k)" "rows_full (ts_tables (w_tables w) ! k)" if "k < length T" for k
    using inv that T(2) by (auto simp: world_inv_def tables_inv_def core_inv_def)
  have "tree_inv (w_entities w')"
    using inv s same_tree_inv by (auto simp: world_inv_def same_shape_def)
  moreover have "ids_ok (w_allocator w') (w_entities w') R"
    using inv s tr by (simp add: world_inv_def ids_ok_def same_shape_def)
  moreover have "tables_inv req bu (w_tables w')"
    unfolding T(1) using inv T(2,3) ti by (intro tables_inv_replace) (auto simp: world_inv_def)
  moreover have "\<forall>t\<in>set T. rows_full t"
    using T(3) ti by (auto simp: in_set_conv_nth)
  moreover have "row_at T l x \<longleftrightarrow> row_at (ts_tables (w_tables w)) l x" for l x
    using T(2,3) by (auto simp: row_at_def)
  then have "placed (where_is (w_entities w')) T"
    using inv tr(4) by (simp add: world_inv_def placed_def)
  ultimately show ?thesis
    using T(1) by (simp add: world_inv_def)
qed

text \<open>When the rows agree as well, nothing observable changed.\<close>

lemma same_rows_view:
  assumes "same_shape w w'" "\<And>k. k < length (ts_tables (w_tables w)) \<Longrightarrow> rows (ts_tables (w_tables w') ! k) = rows (ts_tables (w_tables w) ! k)"
    "world_inv req bu R w"
  shows "world_view w' = world_view w"
proof
  fix x
  note tr = same_shape_tree [OF assms(1)]
  have c: "t_components (ts_tables (w_tables w') ! k) = t_components (ts_tables (w_tables w) ! k)"
    if "k < length (ts_tables (w_tables w))" for k
    using assms(1) that unfolding same_shape_def Let_def by auto
  show "world_view w' x = world_view w x"
  proof (cases "where_is (w_entities w) x")
    case (Some l)
    then have "unat (table_id l) < length (ts_tables (w_tables w))"
      by (rule world_inv_row [OF assms(3)])
    then show ?thesis
      using Some tr assms(2) c by (simp add: world_view_eq row_data_def)
  qed (simp add: world_view_eq tr)
qed

section \<open>Forgetting a half-spawned entity\<close>

lemma forget_absent:
  "\<forall>t\<in>set ts. x \<notin> set (t_entities t) \<Longrightarrow>
     forget_tables pf x (ts @ us) e = map_option (\<lambda>(us', e'). (ts @ us', e')) (forget_tables pf x us e)"
proof (induction ts)
  case Nil
  show ?case by (cases "forget_tables pf x us e") auto
next
  case (Cons t ts)
  then have "get_table_row pf t x = None"
    using position_entity_None [of "pool_threads pf" x "t_entities t"] by (simp add: get_table_row_def)
  then show ?case
    using Cons by (cases "forget_tables pf x us e") auto
qed

lemma dealloc_extended:
  assumes "table_inv t" "extended t x its t'"
  obtains t'' where "dealloc_row False t' (of_nat (length (t_entities t))) = Some (MovedNone, t'')" "table_inv t''"
    "rows t'' = rows t" "t_components t'' = t_components t" "t_id t'' = t_id t" "t_entities t'' = t_entities t"
proof -
  let ?n = "length (t_entities t)"
  have t': "table_inv t'" "t_entities t' = t_entities t @ [x]" "rows t' = rows t @ [(x, its)]"
    "t_components t' = t_components t" "t_id t' = t_id t"
    using assms(2) by (simp_all add: extended_def)
  have u: "unat (of_nat ?n :: u32) = ?n"
    using small_table [OF assms(1)] by (intro unat_of_nat_small) simp
  have r: "unat (of_nat ?n :: u32) < length (t_entities t')" and nd: "False \<Longrightarrow> row_full (rows t' ! unat (of_nat ?n :: u32))"
    using u t'(2) by simp_all
  obtain t'' where d: "dealloc_row False t' (of_nat ?n) = Some (if unat (of_nat ?n :: u32) = length (t_entities t') - 1 then MovedNone
      else MovedSome (last (t_entities t')) (of_nat ?n), t'')" "table_inv t''" "rows t'' = swap_remove (unat (of_nat ?n :: u32)) (rows t')"
    "t_components t'' = t_components t'" "t_id t'' = t_id t'" "t_entities t'' = swap_remove (unat (of_nat ?n :: u32)) (t_entities t')"
    by (rule dealloc_row_ok [OF t'(1) r nd]) (assumption | rule that)+
  have "swap_remove ?n (rows t @ [(x, its)]) = rows t" "swap_remove ?n (t_entities t @ [x]) = t_entities t"
    using swap_remove_last [of "rows t @ [(x, its)]"] swap_remove_last [of "t_entities t @ [x]"] by simp_all
  then show ?thesis
    using that [of t''] d u t' by simp
qed

end
