(* ===== verification/World_Spawn.thy ===== *)
theory World_Spawn
  imports World_Lifecycle
begin

text \<open>
  The outcomes of the spawning operations on every branch: success enters exactly one entity with the values of its
  bundle, and a panic under the guard leaves the world as it was, except that the id stays reserved.
\<close>

section \<open>The guard\<close>

lemma placed_absent:
  assumes inv: "world_inv req bu R w" and x: "\<not> alive (w_entities w) x" and t: "t \<in> set (ts_tables (w_tables w))"
  shows "x \<notin> set (t_entities t)"
proof
  let ?T = "ts_tables (w_tables w)"
  assume "x \<in> set (t_entities t)"
  then obtain k r where k: "k < length ?T" "?T ! k = t" and r: "r < length (t_entities t)" "t_entities t ! r = x"
    using t by (auto simp: in_set_conv_nth)
  have ti: "table_inv t" "length ?T \<le> 0xFFFFFFFF"
    using inv k by (auto simp: world_inv_def tables_inv_def core_inv_def)
  have "unat (of_nat k :: u32) = k" "unat (of_nat r :: u32) = r"
    using k(1) r(1) small_table [OF ti(1)] ti(2) by (simp_all add: unat_of_nat_small)
  then have "row_at ?T \<lparr>table_id = of_nat k, table_row = of_nat r\<rparr> x"
    using k r by (simp add: row_at_def)
  then have "where_is (w_entities w) x \<noteq> None"
    using inv by (auto simp: world_inv_def placed_def)
  with x show False
    by (simp add: where_is_None_iff)
qed

lemma forget_extended:
  assumes inv: "world_inv req bu R w" and t: "tables_get (w_tables w) tid = Some t" and x: "index x \<in> R"
    and t': "extended t x its t'" and e': "same_tree (w_entities w) e'"
  obtains w' where "world_forget pf ((set_table w tid t')\<lparr>w_entities := e'\<rparr>) x = Some (Ok (), w')"
    "world_inv req bu R w'" "world_view w' = world_view w"
proof -
  let ?e = "w_entities w" and ?T = "ts_tables (w_tables w)" and ?k = "unat tid"
  have tT: "t = ?T ! ?k" "?k < length ?T"
    using t by (auto simp: tables_get_Some)
  have ti: "table_inv t" "tree_inv e'"
    using inv tT same_tree_inv [OF e'] by (auto simp: world_inv_def tables_inv_def core_inv_def)
  have nx: "\<not> alive ?e x" "\<not> alive e' x" and idx: "index x \<noteq> 0xFFFFFFFF"
    using inv x e' world_inv_index [OF inv, of "index x"] view_cong(1) [of e' ?e]
    by (auto simp: world_inv_def ids_ok_def alive_def spawned_def same_tree_def)
  obtain err e2 where e2: "remove_one pf e' x = (Err err, e2)"
    using remove_one_total [OF ti(2), of pf x] idx nx(2) by (cases "remove_one pf e' x") (auto split: if_splits)
  then have same: "same_tree ?e e2"
    using remove_one_Err [OF e2] e' by (simp add: same_tree_def)
  obtain t'' where t'': "dealloc_row False t' (of_nat (length (t_entities t))) = Some (MovedNone, t'')" "table_inv t''"
    "rows t'' = rows t" "t_components t'' = t_components t" "t_id t'' = t_id t" "t_entities t'' = t_entities t"
    by (rule dealloc_extended [OF ti(1) t'])
  have absent: "x \<notin> set (t_entities s)" if "s \<in> set ?T" for s
    by (rule placed_absent [OF inv nx(1) that])
  have row: "get_table_row pf t' x = Some (of_nat (length (t_entities t)))"
  proof -
    have es: "t_entities t' = t_entities t @ [x]" "x \<notin> set (t_entities t)"
      using t' absent tT by (simp_all add: extended_def)
    then obtain i where i: "position_entity (pool_threads pf) x (t_entities t') = Some i"
      using position_entity_None [of "pool_threads pf" x "t_entities t'"] by fastforce
    then have "i = length (t_entities t)"
      using position_entity_Some [OF i] es by (auto simp: nth_append less_Suc_eq split: if_splits)
    then show ?thesis
      using i by (simp add: get_table_row_def)
  qed
  have parts: "?T[?k := t'] = take ?k ?T @ t' # drop (Suc ?k) ?T" "take ?k ?T @ t'' # drop (Suc ?k) ?T = ?T[?k := t'']"
    using tT(2) by (simp_all add: upd_conv_take_nth_drop)
  have "forget_tables pf x (drop (Suc ?k) ?T) e2 = Some (drop (Suc ?k) ?T, e2)"
    using forget_absent [of "drop (Suc ?k) ?T" x pf "[]" e2] absent by (auto dest: in_set_dropD)
  then have "forget_tables pf x (t' # drop (Suc ?k) ?T) e2 = Some (t'' # drop (Suc ?k) ?T, e2)"
    using row t''(1) by (simp add: update_row_def)
  then have f: "forget_tables pf x (?T[?k := t']) e2 = Some (?T[?k := t''], e2)"
    using forget_absent [of "take ?k ?T" x pf "t' # drop (Suc ?k) ?T" e2] absent parts by (auto dest: in_set_takeD)
  let ?w = "(set_table w tid t'')\<lparr>w_entities := e2\<rparr>"
  have "world_forget pf ((set_table w tid t')\<lparr>w_entities := e'\<rparr>) x = Some (Ok (), ?w)"
    using e2 f by (simp add: world_forget_def set_table_def)
  moreover have shape: "same_shape w ?w"
    unfolding same_shape_def Let_def
    using same t''(2-6) tT by (intro conjI exI [of _ "?T[?k := t'']"])
      (auto simp: set_table_def nth_list_update rows_full_def)
  moreover have "world_view ?w = world_view w"
    by (rule same_rows_view [OF shape _ inv]) (use t''(3) tT in \<open>simp add: nth_list_update\<close>)
  ultimately show ?thesis
    using that same_shape_inv [OF shape inv] by blast
qed

section \<open>A new row under the guard\<close>

text \<open>
  How writing the new row may end: completely, or by a panic part of the way; in both cases only the
  new row of the table is affected.
\<close>

definition fill_ok ::
  "'v world \<Rightarrow> u32 \<Rightarrow> 'v table \<Rightarrow> entity_id \<Rightarrow> 'v item list \<Rightarrow> (u32 \<Rightarrow> 'v world \<Rightarrow> (unit, 'v) world_run) \<Rightarrow> bool" where
  "fill_ok w tid t x its fill \<longleftrightarrow> row_full (x, its) \<and>
     (\<forall>t1 its1. extended t x its1 t1 \<longrightarrow>
        (\<exists>t2. extended t x its t2 \<and> fill (of_nat (length (t_entities t))) (set_table w tid t1) = Some (Ok (), set_table w tid t2)))"

lemma insert_row_spawns:
  assumes inv: "world_inv req bu R w" and t: "tables_get (w_tables w) tid = Some t" and x: "index x \<in> R"
    and gen: "n_generation (slot (w_entities w) (index x)) = generation x"
    and room: "length (t_entities t) = t_cap t \<Longrightarrow> vec_capacity pf (length (t_entities t) + 1) \<le> 0xFFFFFFFF"
    and fill: "fill_ok w tid t x its fill"
  shows "if valid_parent (w_entities w) x parent
    then \<exists>l w'. guarded pf x (insert_row pf w tid x parent fill) = Some (Ok l, w')
      \<and> world_inv req bu (R - {index x}) w' \<and> world_view w' = (world_view w)(x \<mapsto> (parent, t_components t, its))
      \<and> l = \<lparr>table_id = tid, table_row = of_nat (length (t_entities t))\<rparr> \<and> set_of (w_tables w') tid = set_of (w_tables w) tid
    else \<exists>w'. guarded pf x (insert_row pf w tid x parent fill) = Some (Panic, w')
      \<and> world_inv req bu R w' \<and> world_view w' = world_view w"
proof -
  let ?l = "\<lparr>table_id = tid, table_row = of_nat (length (t_entities t))\<rparr>"
  have "table_inv t"
    using inv t by (auto simp: world_inv_def tables_inv_def core_inv_def tables_get_Some)
  then obtain t1 where t1: "alloc_row pf t x = Some (of_nat (length (t_entities t)), t1)"
    "extended t x (map (\<lambda>c. item c (length (t_entities t))) (t_columns t1)) t1"
    by (rule alloc_row_extends [OF _ room])
  obtain t2 where t2: "extended t x its t2"
    "fill (of_nat (length (t_entities t))) (set_table w tid t1) = Some (Ok (), set_table w tid t2)"
    using fill t1(2) unfolding fill_ok_def by blast
  have run: "insert_row pf w tid x parent fill =
      (case insert_one pf (w_entities w) x parent ?l of
         (Ok _, e) \<Rightarrow> Some (Ok ?l, (set_table w tid t2)\<lparr>w_entities := e\<rparr>)
       | (_, e) \<Rightarrow> Some (Panic, (set_table w tid t2)\<lparr>w_entities := e\<rparr>))"
    using t t1(1) t2(2) by (simp add: insert_row_def Let_def)
  show ?thesis
  proof (cases "valid_parent (w_entities w) x parent")
    case True
    have full: "row_full (x, its)"
      using fill by (simp add: fill_ok_def)
    obtain e' where e': "insert_one pf (w_entities w) x parent ?l = (Ok (), e')"
      "world_inv req bu (R - {index x}) ((set_table w tid t2)\<lparr>w_entities := e'\<rparr>)"
      "world_view ((set_table w tid t2)\<lparr>w_entities := e'\<rparr>) = (world_view w)(x \<mapsto> (parent, t_components t, its))"
      by (rule place_row [OF inv t x gen True t2(1) full, of pf])
    moreover have "set_of (w_tables (set_table w tid t2)) tid = set_of (w_tables w) tid"
      using t t2(1) by (auto simp: set_of_def tables_get_def extended_def split: if_splits)
    ultimately show ?thesis
      using True run by (simp add: guarded_def)
  next
    case False
    have tree: "tree_inv (w_entities w)" and idx: "index x \<noteq> 0xFFFFFFFF"
      using inv world_inv_index [OF inv] x by (auto simp: world_inv_def)
    have "fst (insert_one pf (w_entities w) x parent ?l) \<noteq> Ok ()" "fst (insert_one pf (w_entities w) x parent ?l) \<noteq> Panic"
      using False insert_one_Ok(1) [OF tree, of pf x parent ?l] insert_one_total [OF tree, of pf x parent ?l] idx
        insert_checks_not_Panic by (auto simp: prod_eq_iff)
    then obtain err e' where e': "insert_one pf (w_entities w) x parent ?l = (Err err, e')"
      by (cases "insert_one pf (w_entities w) x parent ?l"; cases "fst (insert_one pf (w_entities w) x parent ?l)") auto
    obtain w' where "world_forget pf ((set_table w tid t2)\<lparr>w_entities := e'\<rparr>) x = Some (Ok (), w')"
      "world_inv req bu R w'" "world_view w' = world_view w"
      by (rule forget_extended [OF inv t x t2(1) insert_one_Err [OF e'], of pf])
    then show ?thesis
      using False run e' by (simp add: guarded_def)
  qed
qed


section \<open>Writing a bundle\<close>

definition bundle_items :: "'v bundle_data \<Rightarrow> tick \<Rightarrow> u32 list \<Rightarrow> 'v item list" where
  "bundle_items b now cs = map (\<lambda>c. (Some (last (bundle_values b c)), Some now, Some now)) cs"

definition covers :: "'v bundle_data \<Rightarrow> u32 list \<Rightarrow> bool" where
  "covers b cs \<longleftrightarrow> fst ` set (bd_explicit b) \<union> fst ` set (bd_required b) = set cs"

lemma set_table_twice [simp]: "set_table (set_table w i t) i t' = set_table w i t'"
  by (simp add: set_table_def)

lemma set_table_get: "unat i < length (ts_tables (w_tables w)) \<Longrightarrow> tables_get (w_tables (set_table w i t)) i = Some t"
  by (simp add: tables_get_Some)

lemma fill_empty: "t_components t = [] \<Longrightarrow> fill_ok w tid t x [] (\<lambda>_ w'. Some (Ok (), w'))"
proof -
  assume t: "t_components t = []"
  have "its1 = []" if "extended t x its1 t1" for t1 its1
  proof -
    have "rows t1 ! length (t_entities t) = (x, its1)" "length (t_columns t1) = 0" "t_entities t1 = t_entities t @ [x]"
      using that t by (auto simp: extended_def table_inv_def nth_append)
    then show ?thesis
      by (simp add: rows_def nth_append)
  qed
  then show ?thesis
    by (auto simp: fill_ok_def row_full_def)
qed

lemma fill_row_ok:
  assumes t: "tables_get (w_tables w) tid = Some t" "table_inv t" and b: "covers b (t_components t)"
  shows "fill_ok w tid t x (bundle_items b (w_this_run w) (t_components t)) (fill_row b tid)"
  unfolding fill_ok_def
proof (intro conjI allI impI)
  let ?its = "bundle_items b (w_this_run w) (t_components t)" and ?n = "length (t_entities t)"
  show "row_full (x, ?its)"
    by (auto simp: row_full_def bundle_items_def list_all_iff item_full_def)
  fix t1 its1
  assume "extended t x its1 t1"
  then have t1: "table_inv t1" "t_entities t1 = t_entities t @ [x]" "t_components t1 = t_components t" "t_id t1 = t_id t"
    "rows t1 = rows t @ [(x, its1)]"
    by (simp_all add: extended_def)
  have u: "unat (of_nat ?n :: u32) = ?n"
    using small_table [OF t(2)] by (intro unat_of_nat_small) simp
  then have row: "unat (of_nat ?n :: u32) < length (t_entities t1)"
    using t1(2) by simp
  have sub: "fst ` set (bd_explicit b) \<subseteq> set (t_components t1)" "fst ` set (bd_required b) \<subseteq> set (t_components t1)"
    using b t1(3) by (auto simp: covers_def)
  obtain cw cw' where cw: "writer_from_table t1 (of_nat ?n) (w_this_run w) = Ok cw" "write_bundle b cw = Some (Ok (), cw')"
    "written t1 (of_nat ?n) (w_this_run w) (bundle_values b) cw'"
    by (rule write_bundle_ok [OF t1(1) row sub])
  have ne: "\<forall>c\<in>set (t_components t1). bundle_values b c \<noteq> []"
    using b vals_Nil_iff [of "bd_explicit b"] vals_Nil_iff [of "bd_required b"] unfolding t1(3)
    by (auto simp: bundle_values_def covers_def simp flip: b [unfolded covers_def])
  note f = written_full [OF cw(3) ne row t1(1)]
  let ?t2 = "cw_table cw'"
  have t2: "table_inv ?t2" "t_entities ?t2 = t_entities t @ [x]" "t_components ?t2 = t_components t" "t_id ?t2 = t_id t"
    using cw(3) t1 by (simp_all add: written_def)
  have "rows ?t2 = rows t @ [(x, ?its)]"
  proof (rule nth_equalityI)
    fix j
    assume "j < length (rows ?t2)"
    then have j: "j < Suc ?n"
      by (simp add: t2)
    show "rows ?t2 ! j = (rows t @ [(x, ?its)]) ! j"
    proof (cases "j = ?n")
      case True
      then show ?thesis
        using f(2) u t1(3) t2(2) by (simp add: bundle_items_def nth_append)
    next
      case False
      then show ?thesis
        using f(3) [of j] j u t1(2,5) by (simp add: nth_append del: nth_rows)
    qed
  qed (simp add: t2)
  then have "extended t x ?its ?t2"
    using t2 by (simp add: extended_def)
  moreover have "fill_row b tid (of_nat ?n) (set_table w tid t1) = Some (Ok (), set_table w tid ?t2)"
  proof -
    have "tables_get (w_tables (set_table w tid t1)) tid = Some t1"
      using t(1) by (intro set_table_get) (simp add: tables_get_Some)
    then show ?thesis
      using cw(1,2) by (simp add: fill_row_def)
  qed
  ultimately show "\<exists>t2. extended t x ?its t2 \<and> fill_row b tid (of_nat ?n) (set_table w tid t1) = Some (Ok (), set_table w tid t2)"
    by blast
qed

section \<open>The steps before the row\<close>

lemma world_new_inv: "world_inv req bu {} (world_new pf now)"
proof -
  have s: "slot (entities_new pf) i = DEFAULT_NODE" for i
    by (simp add: slot_def node_at_def entities_new_def)
  have sp: "spawned (entities_new pf) = {}"
    using s by (simp add: spawned_def DEFAULT_NODE_def)
  have "ids_ok allocator_new (entities_new pf) {}"
    using allocator_new_inv free_list_new_stack sp s
    by (simp add: ids_ok_def DEFAULT_NODE_def allocator_new_def pool_def)
  moreover have "where_is (entities_new pf) x = None" for x
    using s by (simp add: where_is_def DEFAULT_NODE_def)
  then have "placed (where_is (entities_new pf)) (ts_tables tables_new)"
    by (auto simp: placed_def row_at_def tables_new_def table_empty_def)
  ultimately show ?thesis
    using tables_new_inv entities_new_inv
    by (auto simp: world_inv_def world_new_def rows_full_def tables_new_def table_empty_def rows_def)
qed

lemma world_inv_grow:
  assumes inv: "world_inv req bu R w" and ts: "tables_inv req bu ts" "tables_grow (w_tables w) ts"
  shows "world_inv req bu R (w\<lparr>w_tables := ts\<rparr>)" "world_view (w\<lparr>w_tables := ts\<rparr>) = world_view w"
proof -
  obtain new where new: "ts_tables ts = ts_tables (w_tables w) @ new" "\<forall>t\<in>set new. t_entities t = []"
    using ts(2) by (auto simp: tables_grow_def)
  have "row_at (ts_tables ts) l x \<longleftrightarrow> row_at (ts_tables (w_tables w)) l x" for l x
    using new by (auto simp: row_at_def nth_append dest: nth_mem)
  then show "world_inv req bu R (w\<lparr>w_tables := ts\<rparr>)"
    using inv ts(1) new by (auto simp: world_inv_def placed_def rows_full_def rows_def)
  have "unat (table_id l) < length (ts_tables (w_tables w))" if "where_is (w_entities w) x = Some l" for x l
    using that by (rule world_inv_row [OF inv])
  then show "world_view (w\<lparr>w_tables := ts\<rparr>) = world_view w"
    using new(1) by (auto simp: fun_eq_iff world_view_eq row_data_def nth_append option.map_comp intro!: option.map_cong)
qed

definition ids_left :: "'v world \<Rightarrow> bool" where
  "ids_left w \<longleftrightarrow> unat (ea_fresh (w_allocator w)) + 128 < 2 ^ 32"

definition rows_left :: "platform \<Rightarrow> 'v world \<Rightarrow> bool" where
  "rows_left pf w \<longleftrightarrow> vec_capacity pf 1 \<le> 0xFFFFFFFF \<and> (\<forall>t\<in>set (ts_tables (w_tables w)).
     length (t_entities t) = t_cap t \<longrightarrow> vec_capacity pf (length (t_entities t) + 1) \<le> 0xFFFFFFFF)"

lemma world_alloc_mut_ok:
  assumes inv: "world_inv req bu R w" and left: "ids_left w"
  obtains x a where "world_alloc_mut w = Some (Ok x, w\<lparr>w_allocator := a\<rparr>)"
    "world_inv req bu (insert (index x) R) (w\<lparr>w_allocator := a\<rparr>)" "world_view (w\<lparr>w_allocator := a\<rparr>) = world_view w"
    "n_generation (slot (w_entities w) (index x)) = generation x" "spawnable w x" "\<not> alive (w_entities w) x" "index x \<notin> R"
proof -
  have ids: "ids_ok (w_allocator w) (w_entities w) R"
    using inv by (simp add: world_inv_def)
  have "missing (w_allocator w) 128 \<le> 128"
    by (simp add: missing_def)
  then obtain x a where x: "allocator_alloc_mut (w_allocator w) = (Ok x, a)"
    using allocator_alloc_mut_result [of "w_allocator w"] ids left
    unfolding ids_ok_def ids_left_def by (fastforce split: if_splits)
  note a = ids_ok_alloc [OF ids x]
  have "spawnable w x"
    using a(2,3) by (auto simp: spawnable_def check_spawnable_def slot_def Let_def split: option.splits)
  moreover have "world_inv req bu (insert (index x) R) (w\<lparr>w_allocator := a\<rparr>)"
    using inv a(1) by (simp add: world_inv_def)
  moreover have "world_view (w\<lparr>w_allocator := a\<rparr>) = world_view w"
    by (simp add: fun_eq_iff world_view_eq)
  ultimately show ?thesis
    using that [of x a] x a by (simp add: world_alloc_mut_def alive_def)
qed

section \<open>Hooks\<close>

text \<open>
  What the restricted world handle lets a hook do: change component values, never spawn, despawn or move
  entities. A hook is also taken to return.
\<close>

definition hooks_keep_shape :: "'v user_code \<Rightarrow> bool" where
  "hooks_keep_shape U \<longleftrightarrow> (\<forall>h c f x w. u_hook U h c = Some f \<longrightarrow> (\<exists>w'. f x w = (Ok (), w') \<and> same_shape w w'))"

lemma trigger_hooks_ok:
  assumes "hooks_keep_shape U"
  shows "\<exists>w'. trigger_hooks U h cs x w = (Ok (), w') \<and> same_shape w w'"
proof (induction cs arbitrary: w)
  case (Cons c cs)
  show ?case
  proof (cases "u_hook U h c")
    case (Some f)
    then obtain w1 where w1: "f x w = (Ok (), w1)" "same_shape w w1"
      using assms unfolding hooks_keep_shape_def by blast
    then show ?thesis
      using Cons.IH [of w1] Some same_shape_trans by fastforce
  qed (use Cons.IH in simp)
qed simp

section \<open>Whole operations\<close>

lemma spawner_spawn_at_spawns:
  assumes inv: "world_inv req bu R w" and t: "tables_get (w_tables w) tid = Some t" and x: "index x \<in> R"
    and gen: "n_generation (slot (w_entities w) (index x)) = generation x" "spawnable w x"
    and room: "length (t_entities t) = t_cap t \<Longrightarrow> vec_capacity pf (length (t_entities t) + 1) \<le> 0xFFFFFFFF"
    and b: "covers b (t_components t)" and hooks: "hooks_keep_shape U"
  shows "if valid_parent (w_entities w) x parent
    then \<exists>l w1 w2. spawner_spawn_at debug pf U w tid b x parent = Some (Ok l, w2)
      \<and> then_do (trigger_hooks U OnAdd (t_components t) x w1) (\<lambda>_. trigger_hooks U OnInsert (t_components t) x) = (Ok (), w2)
      \<and> world_inv req bu (R - {index x}) w2
      \<and> world_view w1 = (world_view w)(x \<mapsto> (parent, t_components t, bundle_items b (w_this_run w) (t_components t)))
    else \<exists>w1. spawner_spawn_at debug pf U w tid b x parent = Some (Panic, w1)
      \<and> world_inv req bu R w1 \<and> world_view w1 = world_view w"
proof -
  have "table_inv t"
    using inv t by (auto simp: world_inv_def tables_inv_def core_inv_def tables_get_Some)
  note fill = fill_row_ok [OF t this b, of x]
  note r = insert_row_spawns [OF inv t x gen(1) room fill, of parent]
  show ?thesis
  proof (cases "valid_parent (w_entities w) x parent")
    case True
    then obtain l w1 where w1: "guarded pf x (insert_row pf w tid x parent (fill_row b tid)) = Some (Ok l, w1)"
      "world_inv req bu (R - {index x}) w1"
      "world_view w1 = (world_view w)(x \<mapsto> (parent, t_components t, bundle_items b (w_this_run w) (t_components t)))"
      "set_of (w_tables w1) tid = set_of (w_tables w) tid"
      using r by auto
    then obtain t1 where t1: "tables_get (w_tables w1) tid = Some t1" "t_components t1 = t_components t"
      using t by (auto simp: set_of_def)
    obtain w2 w3 where w3: "trigger_hooks U OnAdd (t_components t) x w1 = (Ok (), w2)" "same_shape w1 w2"
      "trigger_hooks U OnInsert (t_components t) x w2 = (Ok (), w3)" "same_shape w2 w3"
      using trigger_hooks_ok [OF hooks] by metis
    then have "spawner_spawn_at debug pf U w tid b x parent = Some (Ok l, w3)"
      using w1(1) t1 gen(2) by (simp add: spawner_spawn_at_def)
    moreover have "world_inv req bu (R - {index x}) w3"
      using same_shape_inv [OF same_shape_trans [OF w3(2,4)] w1(2)] .
    moreover have "then_do (trigger_hooks U OnAdd (t_components t) x w1) (\<lambda>_. trigger_hooks U OnInsert (t_components t) x) = (Ok (), w3)"
      using w3(1,3) by simp
    ultimately show ?thesis
      using True w1(3) by auto
  next
    case False
    then show ?thesis
      using r gen(2) by (auto simp: spawner_spawn_at_def)
  qed
qed

text \<open>The parent named by the caller must be spawned.\<close>

definition parent_spawned :: "'v world \<Rightarrow> entity_id option \<Rightarrow> bool" where
  "parent_spawned w parent \<longleftrightarrow> (case parent of None \<Rightarrow> True | Some p \<Rightarrow> contains (w_entities w) p)"

lemma valid_parent_new: "\<not> alive (w_entities w) x \<Longrightarrow> valid_parent (w_entities w) x parent \<longleftrightarrow> parent_spawned w parent"
  by (auto simp: valid_parent_def parent_spawned_def contains_alive split: option.split)

lemma rows_left_grow:
  assumes "rows_left pf w" "tables_grow (w_tables w) ts" "tables_get ts i = Some t" "length (t_entities t) = t_cap t"
  shows "vec_capacity pf (length (t_entities t) + 1) \<le> 0xFFFFFFFF"
  using assms by (auto simp: rows_left_def tables_grow_def tables_get_Some nth_append split: if_splits dest: nth_mem)

lemma world_spawn_ok:
  assumes "world_inv req bu R w" "bundles_inv bu" "bundle_components bu bid = Some cs" "covers b cs"
    "ids_left w" "rows_left pf w" "length (ts_tables (w_tables w)) < 0xFFFFFFFF" "hooks_keep_shape U"
  shows "\<exists>x. world_view w x = None \<and> index x \<notin> R \<and>
    (if parent_spawned w parent
     then \<exists>w1 w2. world_spawn debug pf U dbs bu w bid b parent = Some (then_do (u_flush U w2) (\<lambda>_ w3. (Ok x, w3)))
       \<and> world_view w1 = (world_view w)(x \<mapsto> (parent, cs, bundle_items b (w_this_run w) cs))
       \<and> then_do (trigger_hooks U OnAdd cs x w1) (\<lambda>_. trigger_hooks U OnInsert cs x) = (Ok (), w2)
       \<and> world_inv req bu R w2
     else \<exists>w1. world_spawn debug pf U dbs bu w bid b parent = Some (Panic, w1) \<and> world_view w1 = world_view w
       \<and> world_inv req bu (insert (index x) R) w1)"
proof -
  have ti: "tables_inv req bu (w_tables w)"
    using assms(1) by (simp add: world_inv_def)
  obtain tid ts where ts: "tables_register dbs bu (w_tables w) bid = Some (Ok tid, ts)" "tables_inv req bu ts"
    "set_of ts tid = Some cs" "tables_grow (w_tables w) ts"
    by (rule tables_register_ok [OF ti assms(7,2,3)])
  let ?w1 = "w\<lparr>w_tables := ts\<rparr>"
  note g = world_inv_grow [OF assms(1) ts(2,4)]
  have "ids_left ?w1"
    using assms(5) by (simp add: ids_left_def)
  then obtain x a where x: "world_alloc_mut ?w1 = Some (Ok x, ?w1\<lparr>w_allocator := a\<rparr>)"
    "world_inv req bu (insert (index x) R) (?w1\<lparr>w_allocator := a\<rparr>)" "world_view (?w1\<lparr>w_allocator := a\<rparr>) = world_view ?w1"
    "n_generation (slot (w_entities ?w1) (index x)) = generation x" "spawnable ?w1 x" "\<not> alive (w_entities ?w1) x" "index x \<notin> R"
    by (rule world_alloc_mut_ok [OF g(1)])
  define w2 where "w2 = ?w1\<lparr>w_allocator := a\<rparr>"
  have sel: "w_entities w2 = w_entities w" "w_this_run w2 = w_this_run w" "w_tables w2 = ts"
    by (simp_all add: w2_def)
  obtain t where t: "tables_get (w_tables w2) tid = Some t" "t_components t = cs"
    using ts(3) by (auto simp: set_of_def sel)
  have sp: "spawnable w2 x"
    using x(5) by (simp add: spawnable_def w2_def)
  have run: "world_spawn debug pf U dbs bu w bid b parent = spawn_at_flush debug pf U w2 tid b x parent"
    using ts(1) x(1) sp by (simp add: world_spawn_def spawner_new_def w2_def)
  have i2: "world_inv req bu (insert (index x) R) w2" "insert (index x) R - {index x} = R"
    "n_generation (slot (w_entities w2) (index x)) = generation x" "covers b (t_components t)"
    using x(2,4,7) assms(4) t(2) by (simp_all add: w2_def)
  have v2: "world_view w2 = world_view w"
    using x(3) g(2) by (simp add: w2_def)
  have par: "valid_parent (w_entities w2) x parent \<longleftrightarrow> parent_spawned w parent"
    using valid_parent_new [of w x parent] x(6) by (simp add: sel)
  have room: "length (t_entities t) = t_cap t \<Longrightarrow> vec_capacity pf (length (t_entities t) + 1) \<le> 0xFFFFFFFF"
    using rows_left_grow [OF assms(6) ts(4)] t(1) by (simp add: sel)
  note r = spawner_spawn_at_spawns [OF i2(1) t(1) insertI1 i2(3) sp room i2(4) assms(8), of parent debug, unfolded par]
  have none: "world_view w x = None"
    using x(6) by (simp add: world_view_def contains_alive)
  show ?thesis
  proof (cases "parent_spawned w parent")
    case True
    then obtain l w3 w4 where w4: "spawner_spawn_at debug pf U w2 tid b x parent = Some (Ok l, w4)"
      "then_do (trigger_hooks U OnAdd cs x w3) (\<lambda>_. trigger_hooks U OnInsert cs x) = (Ok (), w4)"
      "world_inv req bu R w4" "world_view w3 = (world_view w)(x \<mapsto> (parent, cs, bundle_items b (w_this_run w) cs))"
      using r i2(2) v2 sel t(2) by auto
    then have "world_spawn debug pf U dbs bu w bid b parent = Some (then_do (u_flush U w4) (\<lambda>_ w3. (Ok x, w3)))"
      using run by (simp add: spawn_at_flush_def)
    then show ?thesis
      using True none x(7) w4 by auto
  next
    case False
    then obtain w3 where "spawner_spawn_at debug pf U w2 tid b x parent = Some (Panic, w3)"
      "world_inv req bu (insert (index x) R) w3" "world_view w3 = world_view w"
      using r v2 by auto
    then show ?thesis
      using False none x(7) run by (auto simp: spawn_at_flush_def)
  qed
qed


text \<open>A world without hooks or commands.\<close>

definition no_user_code :: "'v user_code" where
  "no_user_code = \<lparr>u_hook = (\<lambda>_ _. None), u_flush = (\<lambda>w. (Ok (), w))\<rparr>"

lemma no_hooks [simp]:
  "trigger_hooks no_user_code h cs x w = (Ok (), w)" "u_flush no_user_code w = (Ok (), w)" "hooks_keep_shape no_user_code"
  by (induction cs) (simp_all add: no_user_code_def hooks_keep_shape_def)

definition plain_platform :: platform where
  "plain_platform = \<lparr>vec_spare = (\<lambda>_. 3), pool_threads = None\<rparr>"

lemma world_new_left: "ids_left (world_new pf now)" "rows_left plain_platform (world_new pf now)"
  "length (ts_tables (w_tables (world_new pf now))) < 0xFFFFFFFF"
  by (simp_all add: ids_left_def rows_left_def world_new_def allocator_new_def fresh_new_def tables_new_def table_empty_def
      plain_platform_def vec_capacity_def)


text \<open>An entity without components goes to the first table.\<close>

lemma spawn_empty_ok:
  assumes inv: "world_inv req bu R w" and left: "ids_left w" "rows_left pf w"
  shows "\<exists>x. world_view w x = None \<and> index x \<notin> R \<and> generation x = n_generation (slot (w_entities w) (index x)) \<and>
    (if parent_spawned w parent
     then \<exists>w'. spawn_empty debug pf w parent = Some (Ok x, w') \<and> world_inv req bu R w'
       \<and> world_view w' = (world_view w)(x \<mapsto> (parent, [], []))
     else \<exists>w'. spawn_empty debug pf w parent = Some (Panic, w') \<and> world_inv req bu (insert (index x) R) w'
       \<and> world_view w' = world_view w)"
proof -
  obtain x a where x: "world_alloc_mut w = Some (Ok x, w\<lparr>w_allocator := a\<rparr>)"
    "world_inv req bu (insert (index x) R) (w\<lparr>w_allocator := a\<rparr>)" "world_view (w\<lparr>w_allocator := a\<rparr>) = world_view w"
    "n_generation (slot (w_entities w) (index x)) = generation x" "spawnable w x" "\<not> alive (w_entities w) x" "index x \<notin> R"
    by (rule world_alloc_mut_ok [OF inv left(1)])
  let ?w = "w\<lparr>w_allocator := a\<rparr>"
  have "set_of (w_tables w) 0 = Some []"
    using inv by (simp add: world_inv_def tables_inv_def core_inv_def)
  then obtain t where t: "tables_get (w_tables ?w) 0 = Some t" "t_components t = []"
    by (auto simp: set_of_def)
  have room: "length (t_entities t) = t_cap t \<Longrightarrow> vec_capacity pf (length (t_entities t) + 1) \<le> 0xFFFFFFFF"
    using left(2) t(1) by (auto simp: rows_left_def tables_get_Some)
  have gen: "n_generation (slot (w_entities ?w) (index x)) = generation x" and sp: "spawnable ?w x"
    using x(4,5) by (simp_all add: spawnable_def)
  have "world_view w x = None" "insert (index x) R - {index x} = R"
    using x(6,7) by (simp_all add: world_view_def contains_alive)
  then show ?thesis
    using insert_row_spawns [OF x(2) t(1) insertI1 gen room fill_empty [OF t(2)], of parent] x(1,3,4,7) t(2) sp
      valid_parent_new [OF x(6), of parent]
    by (cases "parent_spawned w parent") (auto simp: spawn_empty_def)
qed

end
