(* ===== verification/World_Despawn.thy ===== *)
theory World_Despawn
  imports World_Spawn
begin

text \<open>
  Despawning an entity takes its whole subtree out of the world: the traversal of the code collects exactly the
  subtree, once each, and needs no more depth than there are nodes, and the loop after it removes the collected
  entities one by one.
\<close>

section \<open>Subtrees\<close>

definition subtree :: "entities \<Rightarrow> entity_id \<Rightarrow> entity_id set" where
  "subtree e x = {y. (x, y) \<in> (parent_rel e)\<^sup>*}"

lemma subtree_self [simp]: "x \<in> subtree e x"
  by (simp add: subtree_def)

lemma parent_rel_children: "tree_inv e \<Longrightarrow> alive e x \<Longrightarrow> (x, y) \<in> parent_rel e \<longleftrightarrow> y \<in> set (children_of e x)"
  using tree_invD(3) [of e y x] tree_invD(4) [of e x y] by (auto simp: parent_rel_def)

lemma subtree_children:
  assumes "tree_inv e" "alive e x"
  shows "subtree e x = insert x (\<Union>c\<in>set (children_of e x). subtree e c)"
  using parent_rel_children [OF assms]
  by (auto simp: subtree_def intro: converse_rtrancl_into_rtrancl elim: converse_rtranclE)

lemma not_in_child_subtree:
  assumes "tree_inv e" "alive e x" "c \<in> set (children_of e x)"
  shows "x \<notin> subtree e c"
proof
  assume "x \<in> subtree e c"
  then have "(x, x) \<in> (parent_rel e)\<^sup>+"
    using parent_rel_children [OF assms(1,2)] assms(3) by (auto simp: subtree_def intro: rtrancl_into_trancl2)
  then show False
    using tree_invD(7) [OF assms(1)] by (simp add: acyclic_def)
qed

text \<open>The ancestors of an entity are totally ordered, so siblings have disjoint subtrees.\<close>

lemma ancestors_linear:
  assumes "(x, z) \<in> (parent_rel e)\<^sup>*" "(y, z) \<in> (parent_rel e)\<^sup>*"
  shows "(x, y) \<in> (parent_rel e)\<^sup>* \<or> (y, x) \<in> (parent_rel e)\<^sup>*"
  using assms
proof (induction rule: rtrancl_induct)
  case (step u v)
  show ?case
  proof (cases "y = v")
    case True
    then show ?thesis
      using step.hyps by auto
  next
    case False
    then obtain u' where u': "(y, u') \<in> (parent_rel e)\<^sup>*" "(u', v) \<in> parent_rel e"
      using step.prems by (meson rtranclE)
    then have "u' = u"
      using step.hyps(2) by (auto simp: parent_rel_def)
    then show ?thesis
      using u'(1) step.IH by simp
  qed
qed simp

lemma sibling_subtrees:
  assumes inv: "tree_inv e" "alive e x" and c: "c \<in> set (children_of e x)" "d \<in> set (children_of e x)" "c \<noteq> d"
  shows "subtree e c \<inter> subtree e d = {}"
proof -
  have up: "x \<in> subtree e a" if ab: "b \<in> set (children_of e x)" "a \<noteq> b" "(a, b) \<in> (parent_rel e)\<^sup>*" for a b
  proof -
    obtain p where "(a, p) \<in> (parent_rel e)\<^sup>*" "(p, b) \<in> parent_rel e"
      using ab(2,3) by (meson rtranclE)
    moreover have "(x, b) \<in> parent_rel e"
      using ab(1) parent_rel_children [OF inv] by simp
    ultimately show ?thesis
      by (auto simp: parent_rel_def subtree_def)
  qed
  have "(c, d) \<notin> (parent_rel e)\<^sup>*" "(d, c) \<notin> (parent_rel e)\<^sup>*"
    using up [OF c(2,3)] up [OF c(1) c(3) [symmetric]] not_in_child_subtree [OF inv c(1)] not_in_child_subtree [OF inv c(2)]
    by blast+
  then have "z \<notin> subtree e d" if "z \<in> subtree e c" for z
    using that ancestors_linear [of c z e d] by (auto simp: subtree_def)
  then show ?thesis
    by blast
qed

lemma subtree_alive:
  assumes "tree_inv e" "alive e x" "y \<in> subtree e x"
  shows "alive e y"
proof -
  have "(x, y) \<in> (parent_rel e)\<^sup>*"
    using assms(3) by (simp add: subtree_def)
  then show ?thesis
    using assms(2) by (cases rule: rtranclE) (auto simp: parent_rel_def)
qed

lemma subtree_closed: "alive e z \<Longrightarrow> parent_of e z = Some y \<Longrightarrow> y \<in> subtree e x \<Longrightarrow> z \<in> subtree e x"
  by (auto simp: subtree_def parent_rel_def intro: rtrancl_into_rtrancl)

lemma card_alive: "card {x. alive e x} \<le> length (e_nodes e)"
proof -
  have "inj_on (unat \<circ> index) {x. alive e x}"
    using alive_same_index [of e] by (intro inj_onI) (simp flip: word_unat_eq_iff)
  then show ?thesis
    using card_inj_on_le [of "unat \<circ> index" "{x. alive e x}" "{..<length (e_nodes e)}"] alive_in_range by auto
qed

lemma subtree_cong: "slot e' = slot e \<Longrightarrow> subtree e' = subtree e"
  using view_cong [of e' e] by (simp add: subtree_def parent_rel_def fun_eq_iff)

section \<open>The traversal\<close>

text \<open>What a run from \<open>w\<close> collects: \<open>D\<close>, each once, while the hooks keep the shape of the world.\<close>

definition collects :: "(entity_id list, 'v) world_run \<Rightarrow> entity_id list \<Rightarrow> 'v world \<Rightarrow> entity_id set \<Rightarrow> bool" where
  "collects r buf w D \<longleftrightarrow>
     (\<exists>ys w'. r = Some (Ok (buf @ ys), w') \<and> same_shape w w' \<and> set ys = D \<and> distinct ys)"

lemma dfs_children_collects:
  assumes step: "\<And>c w buf. c \<in> set cs \<Longrightarrow> same_shape w0 w \<Longrightarrow> collects (dfs_trigger U n buf w c) buf w (D c)"
    and w: "same_shape w0 w" and dist: "distinct cs"
    and dis: "\<And>c d. c \<in> set cs \<Longrightarrow> d \<in> set cs \<Longrightarrow> c \<noteq> d \<Longrightarrow> D c \<inter> D d = {}"
  shows "collects (dfs_children U n buf w cs) buf w (\<Union>c\<in>set cs. D c)"
  using assms
proof (induction cs arbitrary: w buf)
  case Nil
  then show ?case by (auto simp: collects_def)
next
  case (Cons c cs)
  obtain ys w1 where w1: "dfs_trigger U n buf w c = Some (Ok (buf @ ys), w1)" "same_shape w w1" "set ys = D c" "distinct ys"
    using Cons.prems(1) [of c w buf] Cons.prems(2) by (auto simp: collects_def)
  have "collects (dfs_children U n (buf @ ys) w1 cs) (buf @ ys) w1 (\<Union>c\<in>set cs. D c)"
    using Cons.prems w1(2) by (intro Cons.IH) (auto intro: same_shape_trans)
  then obtain zs w2 where w2: "dfs_children U n (buf @ ys) w1 cs = Some (Ok (buf @ ys @ zs), w2)" "same_shape w1 w2"
    "set zs = (\<Union>c\<in>set cs. D c)" "distinct zs"
    by (auto simp: collects_def)
  have "set ys \<inter> set zs = {}"
    using w1(3) w2(3) Cons.prems(3) Cons.prems(4) [of c] by fastforce
  then have "dfs_children U n buf w (c # cs) = Some (Ok (buf @ (ys @ zs)), w2) \<and> same_shape w w2
      \<and> set (ys @ zs) = (\<Union>c\<in>set (c # cs). D c) \<and> distinct (ys @ zs)"
    using w1 w2 same_shape_trans [OF w1(2) w2(2)] by simp
  then show ?case
    unfolding collects_def by blast
qed

lemma dfs_trigger_collects:
  assumes inv: "world_inv req bu R w0" and hooks: "hooks_keep_shape U"
  shows "alive (w_entities w0) x \<Longrightarrow> card (subtree (w_entities w0) x) \<le> n \<Longrightarrow> same_shape w0 w \<Longrightarrow>
    collects (dfs_trigger U n buf w x) buf w (subtree (w_entities w0) x)"
proof (induction n arbitrary: x w buf)
  case 0
  then have "subtree (w_entities w0) x = {}"
    by simp
  then show ?case
    using subtree_self by blast
next
  case (Suc n)
  let ?e = "w_entities w0"
  have tree: "tree_inv ?e"
    using inv by (simp add: world_inv_def)
  note tr = same_shape_tree [OF Suc.prems(3)]
  let ?cs = "children_of ?e x" and ?D = "\<Union>c\<in>set (children_of ?e x). subtree ?e c"
  have node: "get_node (w_entities w) x = Ok (slot ?e (index x))"
    using Suc.prems(1) tr(1,2) by (simp add: get_node_eq)
  have eq: "subtree ?e x = insert x ?D" and nin: "x \<notin> ?D"
    using subtree_children [OF tree Suc.prems(1)] not_in_child_subtree [OF tree Suc.prems(1)] by auto
  have small: "card (subtree ?e c) \<le> n" if "c \<in> set ?cs" for c
  proof -
    have "subtree ?e c \<subset> subtree ?e x"
      using that eq not_in_child_subtree [OF tree Suc.prems(1) that] by auto
    then have "card (subtree ?e c) < card (subtree ?e x)"
      by (intro psubset_card_mono) auto
    then show ?thesis
      using Suc.prems(2) by simp
  qed
  have "collects (dfs_children U n buf w ?cs) buf w ?D"
  proof (rule dfs_children_collects [where ?w0.0 = w0])
    fix c w' buf'
    assume "c \<in> set ?cs" "same_shape w0 w'"
    then show "collects (dfs_trigger U n buf' w' c) buf' w' (subtree ?e c)"
      using tree_invD(4) [OF tree Suc.prems(1)] small by (intro Suc.IH) auto
  qed (use Suc.prems tree_invD(5) [OF tree] sibling_subtrees [OF tree Suc.prems(1)] in auto)
  then obtain ys w1 where w1: "dfs_children U n buf w ?cs = Some (Ok (buf @ ys), w1)" "same_shape w w1" "set ys = ?D" "distinct ys"
    by (auto simp: collects_def)
  have i1: "world_inv req bu R w1" "where_is (w_entities w1) = where_is ?e"
    using same_shape_inv [OF w1(2) same_shape_inv [OF Suc.prems(3) inv]] same_shape_tree(4) [OF w1(2)] tr(4) by simp_all
  obtain l where l: "where_is ?e x = Some l" "n_location (slot ?e (index x)) = Some l"
    using Suc.prems(1) by (auto simp: where_is_def alive_def)
  then obtain t where t: "tables_get (w_tables w1) (table_id l) = Some t"
    using world_inv_row [OF i1(1), of x l] i1(2) by auto
  obtain w2 w3 w4 where h: "trigger_hooks U OnDespawn (t_components t) x w1 = (Ok (), w2)" "same_shape w1 w2"
    "trigger_hooks U OnRemove (t_components t) x w2 = (Ok (), w3)" "same_shape w2 w3"
    "trigger_hooks U OnDiscard (t_components t) x w3 = (Ok (), w4)" "same_shape w3 w4"
    using trigger_hooks_ok [OF hooks] by metis
  have "dfs_trigger U (Suc n) buf w x = Some (Ok (buf @ (ys @ [x])), w4)"
    using node w1(1) l(2) t h(1,3,5) by (simp add: children_of_def)
  moreover have "same_shape w w4"
    using w1(2) h(2,4,6) same_shape_trans by blast
  moreover have "set (ys @ [x]) = subtree ?e x" "distinct (ys @ [x])"
    using w1(3,4) eq nin by auto
  ultimately show ?case
    unfolding collects_def by blast
qed

section \<open>The removal\<close>

definition without_all :: "entity_id set \<Rightarrow> (entity_id \<rightharpoonup> entity_id option \<times> 'd) \<Rightarrow> entity_id \<rightharpoonup> entity_id option \<times> 'd" where
  "without_all D f y = (if y \<in> D then None else map_option (apfst (\<lambda>p. if p \<in> Some ` D then None else p)) (f y))"

lemma without_all_insert: "without_all D (without x f) = without_all (insert x D) f"
  by (auto simp: without_all_def without_def fun_eq_iff option.map_comp intro!: option.map_cong)

lemma alive_view: "alive (w_entities w) x \<longleftrightarrow> world_view w x \<noteq> None"
  by (simp add: world_view_eq where_is_None_iff)

lemma despawn_each_ok:
  assumes "world_inv req bu R w" "distinct ys" "\<And>y. y \<in> set ys \<Longrightarrow> alive (w_entities w) y \<and> generation y \<noteq> 0xFFFFFFFF"
  shows "\<exists>w'. despawn_each pf ys w = Some (Ok (), w') \<and> world_inv req bu R w' \<and> world_view w' = without_all (set ys) (world_view w)"
  using assms
proof (induction ys arbitrary: w)
  case Nil
  have "without_all {} (world_view w) = world_view w"
    by (auto simp: without_all_def fun_eq_iff map_option_case apfst_def split: option.split)
  then show ?case
    using Nil by simp
next
  case (Cons y ys)
  obtain w1 where w1: "despawn_one pf w y = Some (Ok (), w1)" "world_inv req bu R w1" "world_view w1 = without y (world_view w)"
    by (rule despawn_one_ok [OF Cons.prems(1), of y pf]) (use Cons.prems(3) in auto)
  have "alive (w_entities w1) z \<and> generation z \<noteq> 0xFFFFFFFF" if "z \<in> set ys" for z
    using that Cons.prems(2) Cons.prems(3) [of z] w1(3) by (auto simp: alive_view without_def)
  then obtain w2 where "despawn_each pf ys w1 = Some (Ok (), w2)" "world_inv req bu R w2"
    "world_view w2 = without_all (set ys) (world_view w1)"
    using Cons.IH [OF w1(2)] Cons.prems(2) by auto
  then show ?case
    using w1 without_all_insert by auto
qed

lemma without_subtree:
  assumes "tree_inv (w_entities w)" "alive (w_entities w) x"
  shows "without_all (subtree (w_entities w) x) (world_view w) = world_view w |` (- subtree (w_entities w) x)"
proof
  fix z
  show "without_all (subtree (w_entities w) x) (world_view w) z = (world_view w |` (- subtree (w_entities w) x)) z"
    using subtree_closed [of "w_entities w" z _ x] where_is_None_iff [of "w_entities w" z]
    by (cases "where_is (w_entities w) z") (auto simp: without_all_def world_view_eq)
qed

lemma despawn_internal_ok:
  assumes inv: "world_inv req bu R w" and hooks: "hooks_keep_shape U" and x: "alive (w_entities w) x"
    and gen: "\<forall>y\<in>subtree (w_entities w) x. generation y \<noteq> 0xFFFFFFFF"
  obtains w1 w2 where "despawn_internal pf U w x = Some (u_flush U w2)" "same_shape w w1" "world_inv req bu R w2"
    "world_view w2 = world_view w1 |` (- subtree (w_entities w) x)"
proof -
  let ?e = "w_entities w" and ?D = "subtree (w_entities w) x"
  have tree: "tree_inv ?e"
    using inv by (simp add: world_inv_def)
  have "card ?D \<le> card {x. alive ?e x}"
    using subtree_alive [OF tree x] by (intro card_mono) auto
  then have "card ?D \<le> Suc (length (e_nodes ?e))"
    using card_alive [of ?e] by simp
  then obtain ys w1 where w1: "dfs_trigger U (Suc (length (e_nodes ?e))) [] w x = Some (Ok ys, w1)" "same_shape w w1"
    "set ys = ?D" "distinct ys"
    using dfs_trigger_collects [OF inv hooks x _ same_shape_refl, of _ "[]"] unfolding collects_def by fastforce
  note tr = same_shape_tree [OF w1(2)] and i1 = same_shape_inv [OF w1(2) inv]
  have "alive (w_entities w1) y \<and> generation y \<noteq> 0xFFFFFFFF" if "y \<in> set ys" for y
    using that w1(3) subtree_alive [OF tree x] gen tr(2) by auto
  then obtain w2 where w2: "despawn_each pf ys w1 = Some (Ok (), w2)" "world_inv req bu R w2"
    "world_view w2 = without_all ?D (world_view w1)"
    using despawn_each_ok [OF i1 w1(4)] w1(3) by metis
  have "world_view w2 = world_view w1 |` (- ?D)"
    using w2(3) without_subtree [of w1 x] subtree_cong [OF tr(1)] i1 x tr(2) by (simp add: world_inv_def)
  then show ?thesis
    using that [of w2 w1] w1(1,2) w2(1,2) by (simp add: despawn_internal_def guarded_def)
qed

section \<open>Properties\<close>


text \<open>One live entity in a new world.\<close>

lemma one_entity_world:
  obtains x w where "spawn_empty True plain_platform (world_new plain_platform 5 :: nat world) None = Some (Ok x, w)"
    "world_inv req bu {} w" "world_view w = [x \<mapsto> (None, [], [])]" "generation x = 1"
proof -
  let ?w = "world_new plain_platform 5 :: nat world"
  have v: "world_view ?w = Map.empty" "parent_spawned ?w None"
    by (simp_all add: fun_eq_iff world_view_def parent_spawned_def contains_alive world_new_def alive_def slot_def node_at_def
        entities_new_def DEFAULT_NODE_def)
  have left: "ids_left ?w" "rows_left plain_platform ?w"
    by (rule world_new_left)+
  obtain x w where w: "spawn_empty True plain_platform ?w None = Some (Ok x, w)" "world_inv req bu {} w"
    "world_view w = [x \<mapsto> (None, [], [])]" "generation x = n_generation (slot (w_entities ?w) (index x))"
    using spawn_empty_ok [OF world_new_inv [of req bu] left, where parent = None and debug = True] v by auto
  then have "generation x = 1"
    by (simp add: world_new_def slot_def node_at_def entities_new_def DEFAULT_NODE_def)
  then show ?thesis
    using that w by blast
qed


section \<open>Reachable worlds\<close>

text \<open>
  The operations in any order, from the empty world, as long as ids, rows and generations are not exhausted. The queued
  commands are themselves such operations, which is what \<open>keeps_worlds\<close> asks of them.
\<close>

definition keeps_worlds :: "(u32 \<Rightarrow> u32 list) \<Rightarrow> bundles \<Rightarrow> 'v user_code \<Rightarrow> bool" where
  "keeps_worlds req bu U \<longleftrightarrow> hooks_keep_shape U
     \<and> (\<forall>R w. world_inv req bu R w \<longrightarrow> (\<exists>R'. world_inv req bu R' (snd (u_flush U w))))"

definition world_room :: "platform \<Rightarrow> 'v world \<Rightarrow> bool" where
  "world_room pf w \<longleftrightarrow> ids_left w \<and> rows_left pf w \<and> length (ts_tables (w_tables w)) < 0xFFFFFFFF"

inductive world_step ::
  "bool \<Rightarrow> platform \<Rightarrow> 'v user_code \<Rightarrow> (u32 \<Rightarrow> component_info) \<Rightarrow> bundles \<Rightarrow> 'v world \<Rightarrow> 'v world \<Rightarrow> bool"
  for debug pf U dbs bu where
  step_spawn_empty: "world_room pf w \<Longrightarrow> spawn_empty debug pf w parent = Some (r, w') \<Longrightarrow> world_step debug pf U dbs bu w w'"
| step_spawn: "world_room pf w \<Longrightarrow> bundle_components bu bid = Some cs \<Longrightarrow> covers b cs \<Longrightarrow>
    world_spawn debug pf U dbs bu w bid b parent = Some (r, w') \<Longrightarrow> world_step debug pf U dbs bu w w'"
| step_despawn: "\<forall>y\<in>subtree (w_entities w) x. generation y \<noteq> 0xFFFFFFFF \<Longrightarrow>
    world_despawn pf U w x = Some (q, w') \<Longrightarrow> world_step debug pf U dbs bu w w'"

inductive world_reachable ::
  "bool \<Rightarrow> platform \<Rightarrow> 'v user_code \<Rightarrow> (u32 \<Rightarrow> component_info) \<Rightarrow> bundles \<Rightarrow> 'v world \<Rightarrow> bool"
  for debug pf U dbs bu where
  world_start: "world_reachable debug pf U dbs bu (world_new pf now)"
| world_more: "world_reachable debug pf U dbs bu w \<Longrightarrow> world_step debug pf U dbs bu w w' \<Longrightarrow> world_reachable debug pf U dbs bu w'"

lemma snd_then_do_Ok: "snd (then_do r (\<lambda>_ w. (Ok a, w))) = snd r"
  by (cases r; cases "fst r") auto

lemma world_step_inv:
  assumes bu: "bundles_inv bu" and U: "keeps_worlds req bu U" and inv: "world_inv req bu R w"
    and s: "world_step debug pf U dbs bu w w'"
  shows "\<exists>R'. world_inv req bu R' w'"
  using s
proof cases
  case (step_spawn_empty parent r)
  then show ?thesis
    using spawn_empty_ok [OF inv, of pf parent debug] by (auto simp: world_room_def split: if_splits)
next
  case (step_spawn bid cs b parent r)
  have hooks: "hooks_keep_shape U"
    using U by (simp add: keeps_worlds_def)
  have room: "ids_left w" "rows_left pf w" "length (ts_tables (w_tables w)) < 0xFFFFFFFF"
    using step_spawn(1) by (simp_all add: world_room_def)
  note r = world_spawn_ok [OF inv bu step_spawn(2,3) room hooks, of parent debug dbs]
  show ?thesis
  proof (cases "parent_spawned w parent")
    case True
    then obtain x w2 where w2: "world_spawn debug pf U dbs bu w bid b parent = Some (then_do (u_flush U w2) (\<lambda>_ w3. (Ok x, w3)))"
      "world_inv req bu R w2"
      using r by auto
    then have "w' = snd (u_flush U w2)"
      using step_spawn(4) snd_then_do_Ok [of "u_flush U w2" x] by (metis option.inject snd_conv)
    then show ?thesis
      using U w2(2) unfolding keeps_worlds_def by blast
  next
    case False
    then show ?thesis
      using r step_spawn(4) by auto
  qed
next
  case (step_despawn x q)
  show ?thesis
  proof (cases "alive (w_entities w) x")
    case True
    have hooks: "hooks_keep_shape U"
      using U by (simp add: keeps_worlds_def)
    obtain w2 where "despawn_internal pf U w x = Some (u_flush U w2)" "world_inv req bu R w2"
      by (rule despawn_internal_ok [OF inv hooks True step_despawn(1)])
    moreover obtain l where "locate (w_entities w) x = Ok l"
      using locate_alive [OF True] True by (auto simp: alive_def)
    ultimately show ?thesis
      using step_despawn(2) U unfolding keeps_worlds_def world_despawn_def by (metis outcome.case(1) option.inject snd_conv)
  next
    case False
    then have "\<exists>err. locate (w_entities w) x = Err err"
      by (auto simp: contains_def locate_def simp flip: contains_alive split: option.splits)
    then show ?thesis
      using step_despawn(2) inv by (auto simp: world_despawn_def)
  qed
qed

lemma world_reachable_inv:
  assumes "world_reachable debug pf U dbs bu w" "bundles_inv bu" "keeps_worlds req bu U"
  shows "\<exists>R. world_inv req bu R w"
  using assms
proof (induction rule: world_reachable.induct)
  case (world_start now)
  show ?case
    using world_new_inv by blast
next
  case (world_more w w')
  then show ?case
    using world_step_inv by blast
qed



end
