(* ===== verification/Schedule_Graph.thy ===== *)
theory Schedule_Graph
  imports Zlim_Prelude
begin

text \<open>
  The dependency graph of a schedule (\<^verbatim>\<open>zlim-core/src/schedule/graph/node.rs\<close>, \<^verbatim>\<open>graphs.rs\<close>): nodes, a directed graph
  as adjacency lists in insertion order beside a set of edges, and its operations. The insertion-ordered map of
  the crate \<^verbatim>\<open>indexmap\<close> is the list of its entries: a new key goes to the end, and \<^verbatim>\<open>swap_remove\<close> puts the
  last entry in the place of the removed one.
\<close>

section \<open>Nodes\<close>

type_synonym u16 = "16 word"

datatype node = Node (tag: u16) (idx: u16)

definition as_u32 :: "node \<Rightarrow> u32" where
  "as_u32 n = push_bit 16 (ucast (idx n)) + ucast (tag n)"

lemma as_u32_unat: "unat (as_u32 n) = unat (idx n) * 2 ^ 16 + unat (tag n)"
proof -
  have b: "unat (idx n) < 2 ^ 16" "unat (tag n) < 2 ^ 16"
    using unat_less_power [of "idx n"] unat_less_power [of "tag n"] by simp_all
  have u: "unat (ucast (idx n) :: u32) = unat (idx n)" "unat (ucast (tag n) :: u32) = unat (tag n)"
    using b by (simp_all add: unsigned_ucast_eq take_bit_nat_eq_self)
  have p: "unat (push_bit 16 (ucast (idx n)) :: u32) = unat (idx n) * 2 ^ 16"
    using b(1) by (subst unsigned_push_bit_eq) (simp add: u(1) push_bit_eq_mult take_bit_nat_eq_self)
  show ?thesis
    unfolding as_u32_def unat_word_ariths p u(2) using b by simp
qed

lemma as_u32_inject: "as_u32 m = as_u32 n \<longleftrightarrow> m = n"
proof
  assume eq: "as_u32 m = as_u32 n"
  have "unat (as_u32 x) div 2 ^ 16 = unat (idx x)" "unat (as_u32 x) mod 2 ^ 16 = unat (tag x)" for x
    using unat_less_power [of "tag x"] by (simp_all add: as_u32_unat)
  then have "unat (idx m) = unat (idx n)" "unat (tag m) = unat (tag n)"
    using eq by metis+
  then show "m = n"
    by (cases m; cases n) (simp add: word_unat_eq_iff)
qed simp

text \<open>\<^verbatim>\<open>Ord::cmp\<close>: by slot, then by generation.\<close>

instantiation node :: linorder
begin

definition less_eq_node :: "node \<Rightarrow> node \<Rightarrow> bool" where
  "less_eq_node m n \<longleftrightarrow> as_u32 m \<le> as_u32 n"

definition less_node :: "node \<Rightarrow> node \<Rightarrow> bool" where
  "less_node m n \<longleftrightarrow> as_u32 m < as_u32 n"

instance
  by standard (auto simp: less_eq_node_def less_node_def order.strict_iff_order as_u32_inject)

end

section \<open>Graphs\<close>

datatype direction = Outgoing | Incoming

type_synonym links = "(node \<times> direction) list"

record digraph =
  g_nodes :: "(node \<times> links) list"
  g_edges :: "(node \<times> node) set"

definition digraph_new :: digraph where
  "digraph_new = \<lparr>g_nodes = [], g_edges = {}\<rparr>"

text \<open>\<^verbatim>\<open>entry(n).or_default()\<close> followed by an update of the value.\<close>

fun entry_update :: "node \<Rightarrow> (links \<Rightarrow> links) \<Rightarrow> (node \<times> links) list \<Rightarrow> (node \<times> links) list" where
  "entry_update n f [] = [(n, f [])]"
| "entry_update n f ((m, ls) # es) = (if m = n then (m, f ls) # es else (m, ls) # entry_update n f es)"

fun position :: "('a \<Rightarrow> bool) \<Rightarrow> 'a list \<Rightarrow> nat option" where
  "position P [] = None"
| "position P (x # xs) = (if P x then Some 0 else map_option Suc (position P xs))"

definition remove_link :: "digraph \<Rightarrow> node \<Rightarrow> node \<Rightarrow> direction \<Rightarrow> bool \<times> digraph" where
  "remove_link g x y d =
     (case map_of (g_nodes g) x of
        None \<Rightarrow> (False, g)
      | Some ls \<Rightarrow>
          (case position (\<lambda>l. l = (y, d)) ls of
             None \<Rightarrow> (False, g)
           | Some i \<Rightarrow> (True, g\<lparr>g_nodes := entry_update x (swap_remove i) (g_nodes g)\<rparr>)))"

definition node_count :: "digraph \<Rightarrow> nat" where
  "node_count g = length (g_nodes g)"

definition edge_count :: "digraph \<Rightarrow> nat" where
  "edge_count g = card (g_edges g)"

definition contains_node :: "digraph \<Rightarrow> node \<Rightarrow> bool" where
  "contains_node g n \<longleftrightarrow> map_of (g_nodes g) n \<noteq> None"

definition contains_edge :: "digraph \<Rightarrow> node \<Rightarrow> node \<Rightarrow> bool" where
  "contains_edge g a b \<longleftrightarrow> (a, b) \<in> g_edges g"

definition insert_node :: "digraph \<Rightarrow> node \<Rightarrow> digraph" where
  "insert_node g n = g\<lparr>g_nodes := entry_update n id (g_nodes g)\<rparr>"

fun remove_incident :: "node \<Rightarrow> links \<Rightarrow> digraph \<Rightarrow> digraph" where
  "remove_incident n [] g = g"
| "remove_incident n ((to, dir) # ls) g =
     (let (edge, rdir) = (if dir = Outgoing then ((n, to), Incoming) else ((to, n), Outgoing));
          g1 = snd (remove_link g to n rdir)
      in remove_incident n ls (g1\<lparr>g_edges := g_edges g1 - {edge}\<rparr>))"

definition remove_node :: "digraph \<Rightarrow> node \<Rightarrow> digraph" where
  "remove_node g n =
     (case position (\<lambda>e. fst e = n) (g_nodes g) of
        None \<Rightarrow> g
      | Some i \<Rightarrow> remove_incident n (snd (g_nodes g ! i)) (g\<lparr>g_nodes := swap_remove i (g_nodes g)\<rparr>))"

definition insert_edge :: "digraph \<Rightarrow> node \<Rightarrow> node \<Rightarrow> digraph" where
  "insert_edge g a b =
     (if (a, b) \<in> g_edges g then g
      else
        let ns = entry_update a (\<lambda>ls. ls @ [(b, Outgoing)]) (g_nodes g);
            ns' = (if a \<noteq> b then entry_update b (\<lambda>ls. ls @ [(a, Incoming)]) ns else ns)
        in g\<lparr>g_edges := insert (a, b) (g_edges g), g_nodes := ns'\<rparr>)"

text \<open>With debug assertions the three answers must agree.\<close>

definition remove_edge :: "bool \<Rightarrow> digraph \<Rightarrow> node \<Rightarrow> node \<Rightarrow> (unit, bool) outcome \<times> digraph" where
  "remove_edge debug g a b =
     (let (exist1, g1) = remove_link g a b Outgoing;
          (exist2, g2) = (if a \<noteq> b then remove_link g1 b a Incoming else (exist1, g1));
          weight = ((a, b) \<in> g_edges g2);
          g3 = g2\<lparr>g_edges := g_edges g2 - {(a, b)}\<rparr>
      in if debug \<and> \<not> (exist1 = exist2 \<and> exist1 = weight) then (Panic, g3) else (Ok weight, g3))"

definition nodes :: "digraph \<Rightarrow> node list" where
  "nodes g = map fst (g_nodes g)"

definition links_of :: "digraph \<Rightarrow> node \<Rightarrow> links" where
  "links_of g a = (case map_of (g_nodes g) a of Some ls \<Rightarrow> ls | None \<Rightarrow> [])"

definition edges :: "digraph \<Rightarrow> node \<Rightarrow> (node \<times> node) list" where
  "edges g a = [(a, b). (b, d) \<leftarrow> links_of g a, d = Outgoing]"

definition neighbors :: "digraph \<Rightarrow> node \<Rightarrow> node list" where
  "neighbors g a = [b. (b, d) \<leftarrow> links_of g a, d = Outgoing]"

definition rev_edges :: "digraph \<Rightarrow> node \<Rightarrow> (node \<times> node) list" where
  "rev_edges g a = [(a, b). (b, d) \<leftarrow> links_of g a, d = Incoming \<or> b = a]"

definition rev_neighbors :: "digraph \<Rightarrow> node \<Rightarrow> node list" where
  "rev_neighbors g a = [b. (b, d) \<leftarrow> links_of g a, d = Incoming \<or> b = a]"

definition to_index :: "digraph \<Rightarrow> node \<Rightarrow> nat option" where
  "to_index g n = position (\<lambda>e. fst e = n) (g_nodes g)"

section \<open>Adjacency lists agree with the edge set\<close>

definition digraph_inv :: "digraph \<Rightarrow> bool" where
  "digraph_inv g \<longleftrightarrow> distinct (nodes g) \<and> (\<forall>a. distinct (links_of g a))
     \<and> (\<forall>a b. (b, Outgoing) \<in> set (links_of g a) \<longleftrightarrow> (a, b) \<in> g_edges g)
     \<and> (\<forall>a b. (b, Incoming) \<in> set (links_of g a) \<longleftrightarrow> (b, a) \<in> g_edges g \<and> a \<noteq> b)"

lemma position_Some: "position P xs = Some i \<Longrightarrow> i < length xs \<and> P (xs ! i)"
  by (induction xs arbitrary: i) (auto split: if_splits)

lemma position_None: "position P xs = None \<longleftrightarrow> (\<forall>x\<in>set xs. \<not> P x)"
  by (induction xs) auto

lemma map_of_entry_update: "map_of (entry_update n f es) m =
    (if m = n then Some (f (case map_of es n of Some ls \<Rightarrow> ls | None \<Rightarrow> [])) else map_of es m)"
  by (induction n f es rule: entry_update.induct) auto

lemma keys_entry_update: "map fst (entry_update n f es) = map fst es @ (if n \<in> fst ` set es then [] else [n])"
  by (induction n f es rule: entry_update.induct) auto

lemma links_of_entry [simp]:
  "links_of (g\<lparr>g_nodes := entry_update n f (g_nodes g)\<rparr>) m = (if m = n then f (links_of g n) else links_of g m)"
  by (simp add: links_of_def map_of_entry_update)

lemma links_of_edges [simp]: "links_of (g\<lparr>g_edges := E\<rparr>) m = links_of g m" "nodes (g\<lparr>g_edges := E\<rparr>) = nodes g"
  by (simp_all add: links_of_def nodes_def)

lemma nodes_entry: "nodes (g\<lparr>g_nodes := entry_update n f (g_nodes g)\<rparr>) = nodes g @ (if n \<in> set (nodes g) then [] else [n])"
  by (simp add: nodes_def keys_entry_update)

lemma links_of_absent: "n \<notin> set (nodes g) \<Longrightarrow> links_of g n = []"
  by (simp add: links_of_def nodes_def flip: map_of_eq_None_iff)

lemma set_swap_remove:
  assumes "i < length xs" "distinct xs"
  shows "set (swap_remove i xs) = set xs - {xs ! i}" "distinct (swap_remove i xs)"
proof -
  let ?n = "length xs - 1"
  have nth: "swap_remove i xs ! j = (if j = i then xs ! ?n else xs ! j)" if "j < ?n" for j
    using nth_swap_remove [OF assms(1) that] .
  have "xs ! j \<in> set (swap_remove i xs)" if "j < length xs" "j \<noteq> i" for j
  proof (cases "j = ?n")
    case True
    then have "swap_remove i xs ! i = xs ! j" "i < length (swap_remove i xs)"
      using nth [of i] that assms(1) by auto
    then show ?thesis
      by (metis nth_mem)
  next
    case False
    then have "swap_remove i xs ! j = xs ! j" "j < length (swap_remove i xs)"
      using nth [of j] that by auto
    then show ?thesis
      by (metis nth_mem)
  qed
  moreover have "swap_remove i xs ! j \<in> set xs - {xs ! i}" if "j < ?n" for j
    using nth [OF that] that assms by (auto simp: nth_eq_iff_index_eq)
  ultimately show "set (swap_remove i xs) = set xs - {xs ! i}"
    by (auto simp: in_set_conv_nth [of _ "swap_remove i xs"] in_set_conv_nth [of _ xs])
      (metis in_set_conv_nth length_swap_remove)+
  show "distinct (swap_remove i xs)"
    using nth assms by (auto simp: distinct_conv_nth split: if_splits)
qed

lemma remove_link_links:
  assumes "distinct (links_of g x)"
  shows "fst (remove_link g x y d) \<longleftrightarrow> (y, d) \<in> set (links_of g x)"
    "set (links_of (snd (remove_link g x y d)) m) = set (links_of g m) - (if m = x then {(y, d)} else {})"
    "distinct (links_of g m) \<Longrightarrow> distinct (links_of (snd (remove_link g x y d)) m)"
    "nodes (snd (remove_link g x y d)) = nodes g" "g_edges (snd (remove_link g x y d)) = g_edges g"
proof -
  have "fst (remove_link g x y d) \<longleftrightarrow> (y, d) \<in> set (links_of g x)"
    and r: "set (links_of (snd (remove_link g x y d)) m) = set (links_of g m) - (if m = x then {(y, d)} else {})
      \<and> (distinct (links_of g m) \<longrightarrow> distinct (links_of (snd (remove_link g x y d)) m))
      \<and> nodes (snd (remove_link g x y d)) = nodes g \<and> g_edges (snd (remove_link g x y d)) = g_edges g" for m
  proof -
    show "fst (remove_link g x y d) \<longleftrightarrow> (y, d) \<in> set (links_of g x)"
      using position_None [of "\<lambda>l. l = (y, d)" "links_of g x"] position_Some [of "\<lambda>l. l = (y, d)" "links_of g x"]
      by (fastforce simp: remove_link_def links_of_def split: option.splits dest: nth_mem)
    show "set (links_of (snd (remove_link g x y d)) m) = set (links_of g m) - (if m = x then {(y, d)} else {})
      \<and> (distinct (links_of g m) \<longrightarrow> distinct (links_of (snd (remove_link g x y d)) m))
      \<and> nodes (snd (remove_link g x y d)) = nodes g \<and> g_edges (snd (remove_link g x y d)) = g_edges g"
    proof (cases "map_of (g_nodes g) x")
      case None
      then show ?thesis
        by (auto simp: remove_link_def links_of_def)
    next
      case (Some ls)
      then have ls: "links_of g x = ls" "x \<in> set (nodes g)"
        by (auto simp: links_of_def nodes_def map_of_eq_Some_iff dest!: map_of_SomeD intro: rev_image_eqI)
      show ?thesis
      proof (cases "position (\<lambda>l. l = (y, d)) ls")
        case None
        then have "remove_link g x y d = (False, g)"
          using Some by (simp add: remove_link_def)
        moreover have "(y, d) \<notin> set (links_of g x)"
          using None ls(1) by (auto simp: position_None)
        ultimately show ?thesis
          by auto
      next
        case (Some i)
        then have i: "i < length ls" "ls ! i = (y, d)"
          using position_Some [OF Some] by auto
        have "remove_link g x y d = (True, g\<lparr>g_nodes := entry_update x (swap_remove i) (g_nodes g)\<rparr>)"
          using \<open>map_of (g_nodes g) x = Some ls\<close> Some by (simp add: remove_link_def)
        then show ?thesis
          using set_swap_remove [OF i(1)] assms ls i(2) nodes_entry [of x "swap_remove i" g] by auto
      qed
    qed
  qed
  then show "fst (remove_link g x y d) \<longleftrightarrow> (y, d) \<in> set (links_of g x)"
    "set (links_of (snd (remove_link g x y d)) m) = set (links_of g m) - (if m = x then {(y, d)} else {})"
    "distinct (links_of g m) \<Longrightarrow> distinct (links_of (snd (remove_link g x y d)) m)"
    "nodes (snd (remove_link g x y d)) = nodes g" "g_edges (snd (remove_link g x y d)) = g_edges g"
    by blast+
qed

section \<open>The operations on the relation\<close>

lemma digraph_invD:
  assumes "digraph_inv g"
  shows "distinct (nodes g)" "distinct (links_of g a)" "(b, Outgoing) \<in> set (links_of g a) \<longleftrightarrow> (a, b) \<in> g_edges g"
    "(b, Incoming) \<in> set (links_of g a) \<longleftrightarrow> (b, a) \<in> g_edges g \<and> a \<noteq> b"
  using assms by (auto simp: digraph_inv_def)

lemma edge_nodes:
  assumes "digraph_inv g" "(a, b) \<in> g_edges g"
  shows "a \<in> set (nodes g)" "b \<in> set (nodes g)"
proof -
  have "links_of g a \<noteq> []"
    using digraph_invD(3) [OF assms(1), of b a] assms(2) by auto
  then show "a \<in> set (nodes g)"
    using links_of_absent by blast
  moreover have "links_of g b \<noteq> []" if "a \<noteq> b"
    using digraph_invD(4) [OF assms(1), of a b] assms(2) that by auto
  ultimately show "b \<in> set (nodes g)"
    using links_of_absent by blast
qed

lemma neighbors_edges: "digraph_inv g \<Longrightarrow> set (neighbors g a) = {b. (a, b) \<in> g_edges g}"
  using digraph_invD(3) by (auto simp: neighbors_def)

lemma rev_neighbors_edges: "digraph_inv g \<Longrightarrow> set (rev_neighbors g a) = {b. (b, a) \<in> g_edges g}"
proof -
  assume inv: "digraph_inv g"
  have "(b, d) \<in> set (links_of g a) \<and> (d = Incoming \<or> b = a) \<Longrightarrow> (b, a) \<in> g_edges g" for b d
    using digraph_invD(3,4) [OF inv] by (cases d) auto
  moreover have "(b, a) \<in> g_edges g \<Longrightarrow> \<exists>d. (b, d) \<in> set (links_of g a) \<and> (d = Incoming \<or> b = a)" for b
    using digraph_invD(3,4) [OF inv, of b a] by (cases "a = b") auto
  ultimately show ?thesis
    by (force simp: rev_neighbors_def)
qed

lemma digraph_new_ok: "digraph_inv digraph_new" "nodes digraph_new = []" "g_edges digraph_new = {}"
  by (simp_all add: digraph_inv_def digraph_new_def nodes_def links_of_def)

lemma insert_node_ok:
  assumes "digraph_inv g"
  shows "digraph_inv (insert_node g n)" "set (nodes (insert_node g n)) = insert n (set (nodes g))"
    "g_edges (insert_node g n) = g_edges g"
proof -
  have l: "links_of (insert_node g n) = links_of g"
    by (simp add: fun_eq_iff insert_node_def)
  have n: "nodes (insert_node g n) = nodes g @ (if n \<in> set (nodes g) then [] else [n])"
    by (simp add: insert_node_def nodes_entry)
  then show "set (nodes (insert_node g n)) = insert n (set (nodes g))"
    by auto
  show e: "g_edges (insert_node g n) = g_edges g"
    by (simp add: insert_node_def)
  show "digraph_inv (insert_node g n)"
    using assms unfolding digraph_inv_def l e n by auto
qed

lemma insert_edge_ok:
  assumes inv: "digraph_inv g"
  shows "digraph_inv (insert_edge g a b)" "set (nodes (insert_edge g a b)) = insert a (insert b (set (nodes g)))"
    "g_edges (insert_edge g a b) = insert (a, b) (g_edges g)"
proof -
  have "digraph_inv (insert_edge g a b) \<and> set (nodes (insert_edge g a b)) = insert a (insert b (set (nodes g)))
    \<and> g_edges (insert_edge g a b) = insert (a, b) (g_edges g)"
  proof (cases "(a, b) \<in> g_edges g")
    case True
    then show ?thesis
      using inv edge_nodes [OF inv True] by (auto simp: insert_edge_def)
  next
    case False
    let ?g1 = "g\<lparr>g_nodes := entry_update a (\<lambda>ls. ls @ [(b, Outgoing)]) (g_nodes g)\<rparr>"
    let ?g2 = "if a \<noteq> b then ?g1\<lparr>g_nodes := entry_update b (\<lambda>ls. ls @ [(a, Incoming)]) (g_nodes ?g1)\<rparr> else ?g1"
    have g: "insert_edge g a b = ?g2\<lparr>g_edges := insert (a, b) (g_edges g)\<rparr>"
      using False by (simp add: insert_edge_def Let_def)
    have l: "links_of (insert_edge g a b) m = links_of g m @ (if m = a then [(b, Outgoing)] else [])
        @ (if m = b \<and> a \<noteq> b then [(a, Incoming)] else [])" for m
      using links_of_entry [of b "\<lambda>ls. ls @ [(a, Incoming)]" ?g1 m] unfolding g by simp
    have n: "nodes (insert_edge g a b) = nodes ?g2"
      unfolding g by simp
    have n2: "set (nodes ?g2) = insert a (insert b (set (nodes g)))" "distinct (nodes ?g2)"
      using digraph_invD(1) [OF inv] nodes_entry [of a "\<lambda>ls. ls @ [(b, Outgoing)]" g]
        nodes_entry [of b "\<lambda>ls. ls @ [(a, Incoming)]" ?g1] by auto
    have "(b, Outgoing) \<notin> set (links_of g a)" "(a, Incoming) \<notin> set (links_of g b)"
      using digraph_invD(3,4) [OF inv] False by blast+
    then have "digraph_inv (insert_edge g a b)"
      unfolding digraph_inv_def n l using inv n2(2) unfolding g by (auto simp: digraph_inv_def)
    then show ?thesis
      using n n2(1) unfolding g by simp
  qed
  then show "digraph_inv (insert_edge g a b)" "set (nodes (insert_edge g a b)) = insert a (insert b (set (nodes g)))"
    "g_edges (insert_edge g a b) = insert (a, b) (g_edges g)"
    by blast+
qed

lemma remove_edge_ok:
  assumes inv: "digraph_inv g"
  obtains g' where "remove_edge debug g a b = (Ok ((a, b) \<in> g_edges g), g')" "digraph_inv g'" "nodes g' = nodes g"
    "g_edges g' = g_edges g - {(a, b)}"
proof -
  note d = digraph_invD(2) [OF inv]
  obtain x1 g1 where r1: "remove_link g a b Outgoing = (x1, g1)"
    by fastforce
  note l1 = remove_link_links [where g = g and x = a and y = b and d = Outgoing, OF d, unfolded r1 fst_conv snd_conv]
  have d1: "distinct (links_of g1 m)" for m
    using l1(3) d by blast
  obtain x2 g2 where r2: "(if a \<noteq> b then remove_link g1 b a Incoming else (x1, g1)) = (x2, g2)"
    by fastforce
  have l2: "x2 \<longleftrightarrow> (if a \<noteq> b then (a, Incoming) \<in> set (links_of g1 b) else x1)"
    "set (links_of g2 m) = set (links_of g1 m) - (if a \<noteq> b \<and> m = b then {(a, Incoming)} else {})"
    "distinct (links_of g2 m)" "nodes g2 = nodes g1" "g_edges g2 = g_edges g1" for m
    using remove_link_links [where g = g1 and x = b and y = a and d = Incoming, OF d1] r2 d1 by (cases "a = b"; fastforce)+
  let ?g = "g2\<lparr>g_edges := g_edges g - {(a, b)}\<rparr>"
  have "x1 = ((a, b) \<in> g_edges g)" "x2 = ((a, b) \<in> g_edges g)"
    using l1(1,2) l2(1) digraph_invD(3,4) [OF inv] by (cases "a = b"; auto)+
  then have "remove_edge debug g a b = (Ok ((a, b) \<in> g_edges g), ?g)"
    using r1 r2 l1(5) l2(5) by (auto simp: remove_edge_def Let_def)
  moreover have "digraph_inv ?g"
    using inv l1(2,4) l2(2-4) by (auto simp: digraph_inv_def)
  ultimately show ?thesis
    using that l1(4) l2(4) by simp
qed

lemma remove_incident_links:
  assumes "\<And>m. distinct (links_of g m)"
  shows "set (links_of (remove_incident n ls g) m) = set (links_of g m)
      - ((if (m, Outgoing) \<in> set ls then {(n, Incoming)} else {}) \<union> (if (m, Incoming) \<in> set ls then {(n, Outgoing)} else {}))
    \<and> distinct (links_of (remove_incident n ls g) m) \<and> nodes (remove_incident n ls g) = nodes g
    \<and> g_edges (remove_incident n ls g) = g_edges g - ({(n, to) |to. (to, Outgoing) \<in> set ls} \<union> {(to, n) |to. (to, Incoming) \<in> set ls})"
  using assms
proof (induction n ls g arbitrary: m rule: remove_incident.induct)
  case (2 n to dir ls g)
  define rdir where "rdir = (if dir = Outgoing then Incoming else Outgoing)"
  define edge where "edge = (if dir = Outgoing then (n, to) else (to, n))"
  let ?g1 = "snd (remove_link g to n rdir)"
  let ?g2 = "?g1\<lparr>g_edges := g_edges ?g1 - {edge}\<rparr>"
  note l = remove_link_links [where g = g and x = to and y = n and d = rdir, OF 2(2)]
  have step: "remove_incident n ((to, dir) # ls) g = remove_incident n ls ?g2"
    by (simp add: rdir_def edge_def Let_def)
  have d: "distinct (links_of ?g2 m)" for m
    using l(3) 2(2) by simp
  have "set (links_of (remove_incident n ls ?g2) m) = set (links_of ?g2 m)
      - ((if (m, Outgoing) \<in> set ls then {(n, Incoming)} else {}) \<union> (if (m, Incoming) \<in> set ls then {(n, Outgoing)} else {}))
    \<and> distinct (links_of (remove_incident n ls ?g2) m) \<and> nodes (remove_incident n ls ?g2) = nodes ?g2
    \<and> g_edges (remove_incident n ls ?g2) = g_edges ?g2 - ({(n, to) |to. (to, Outgoing) \<in> set ls} \<union> {(to, n) |to. (to, Incoming) \<in> set ls})"
    using 2(1) [of "(edge, rdir)" edge rdir ?g1 m] d by (auto simp: rdir_def edge_def)
  then show ?case
    unfolding step using l(2) [of m] l(4,5) by (cases dir) (auto simp: rdir_def edge_def)
qed simp

lemma remove_node_ok:
  assumes inv: "digraph_inv g"
  shows "digraph_inv (remove_node g n)" "set (nodes (remove_node g n)) = set (nodes g) - {n}"
    "g_edges (remove_node g n) = {(a, b) \<in> g_edges g. a \<noteq> n \<and> b \<noteq> n}"
proof -
  have "digraph_inv (remove_node g n) \<and> set (nodes (remove_node g n)) = set (nodes g) - {n}
    \<and> g_edges (remove_node g n) = {(a, b) \<in> g_edges g. a \<noteq> n \<and> b \<noteq> n}"
  proof (cases "position (\<lambda>e. fst e = n) (g_nodes g)")
    case None
    then have "n \<notin> set (nodes g)"
      by (auto simp: position_None nodes_def)
    then show ?thesis
      using None inv edge_nodes [OF inv] by (auto simp: remove_node_def)
  next
    case (Some i)
    let ?es = "g_nodes g" and ?g1 = "g\<lparr>g_nodes := swap_remove i (g_nodes g)\<rparr>"
    have i: "i < length ?es" "fst (?es ! i) = n"
      using position_Some [OF Some] by auto
    have dk: "distinct (map fst ?es)" "distinct ?es"
      using digraph_invD(1) [OF inv] by (auto simp: nodes_def distinct_map)
    note sw = set_swap_remove [OF i(1) dk(2)]
    have get: "map_of ?es m = Some ls \<longleftrightarrow> (m, ls) \<in> set ?es" for m ls
      using dk(1) by (auto simp: map_of_eq_Some_iff)
    have keys: "distinct (map fst (swap_remove i ?es))"
      using dk(1) sw by (auto simp: distinct_map intro: inj_on_subset)
    have here: "(m, ls) = ?es ! i \<longleftrightarrow> m = n" if "(m, ls) \<in> set ?es" for m ls
    proof
      assume "m = n"
      moreover have "(n, snd (?es ! i)) \<in> set ?es"
        using nth_mem [OF i(1)] i(2) by (metis prod.collapse)
      ultimately show "(m, ls) = ?es ! i"
        using that dk(1) i(2) by (metis eq_key_imp_eq_value prod.collapse)
    qed (use i(2) in \<open>metis fst_conv\<close>)
    have get1: "map_of (swap_remove i ?es) m = Some ls \<longleftrightarrow> (m, ls) \<in> set ?es \<and> m \<noteq> n" for m ls
      using here [of m ls] sw(1) map_of_eq_Some_iff [OF keys, of m ls] by auto
    have l1: "links_of ?g1 m = (if m = n then [] else links_of g m)" for m
      using get get1 by (auto simp: links_of_def split: option.splits) (metis option.distinct(1) option.inject)+
    have ls: "snd (?es ! i) = links_of g n"
      using get [of n "snd (?es ! i)"] i nth_mem [OF i(1)] by (auto simp: links_of_def)
    have n1: "set (nodes ?g1) = set (nodes g) - {n}" "distinct (nodes ?g1)"
    proof -
      show "distinct (nodes ?g1)"
        using keys by (simp add: nodes_def)
      have "m \<in> set (nodes ?g1) \<longleftrightarrow> m \<in> set (nodes g) \<and> m \<noteq> n" for m
        using get1 [of m] get [of m] map_of_eq_None_iff [of "swap_remove i ?es" m] map_of_eq_None_iff [of ?es m]
        by (auto simp: nodes_def)
      then show "set (nodes ?g1) = set (nodes g) - {n}"
        by blast
    qed
    have "distinct (links_of ?g1 m)" for m
      using l1 digraph_invD(2) [OF inv] by simp
    note r = remove_incident_links [of ?g1 n "links_of g n", OF this]
    have g: "remove_node g n = remove_incident n (links_of g n) ?g1"
      using Some ls by (simp add: remove_node_def)
    have "g_edges (remove_node g n) = {(a, b) \<in> g_edges g. a \<noteq> n \<and> b \<noteq> n}"
      unfolding g using r digraph_invD(3,4) [OF inv] by auto
    moreover have "set (links_of (remove_node g n) m) = (if m = n then {} else set (links_of g m) - {(n, Incoming), (n, Outgoing)})" for m
      unfolding g using r [of m] l1 digraph_invD(3,4) [OF inv] by auto
    ultimately show ?thesis
      using r n1 inv unfolding g digraph_inv_def by auto
  qed
  then show "digraph_inv (remove_node g n)" "set (nodes (remove_node g n)) = set (nodes g) - {n}"
    "g_edges (remove_node g n) = {(a, b) \<in> g_edges g. a \<noteq> n \<and> b \<noteq> n}"
    by blast+
qed

section \<open>A store of a relation\<close>

datatype 'n graph_op = AddNode 'n | AddEdge 'n 'n | DelEdge 'n 'n | DelNode 'n

fun relation_op :: "'n graph_op \<Rightarrow> 'n set \<times> ('n \<times> 'n) set \<Rightarrow> 'n set \<times> ('n \<times> 'n) set" where
  "relation_op (AddNode n) (V, E) = (insert n V, E)"
| "relation_op (AddEdge a b) (V, E) = ({a, b} \<union> V, insert (a, b) E)"
| "relation_op (DelEdge a b) (V, E) = (V, E - {(a, b)})"
| "relation_op (DelNode n) (V, E) = (V - {n}, {(a, b) \<in> E. a \<noteq> n \<and> b \<noteq> n})"

text \<open>What a client may assume of a graph: every operation acts on the vertex and edge sets as expected.\<close>

locale relation_store =
  fixes store_ok :: "'s \<Rightarrow> bool"
    and view :: "'s \<Rightarrow> 'n set \<times> ('n \<times> 'n) set"
    and do_op :: "'n graph_op \<Rightarrow> 's \<Rightarrow> 's"
    and start :: 's
  assumes start_ok: "store_ok start" "view start = ({}, {})"
    and op_ok: "store_ok s \<Longrightarrow> store_ok (do_op c s)"
    and op_view: "store_ok s \<Longrightarrow> view (do_op c s) = relation_op c (view s)"
begin

lemma run_view: "store_ok (fold do_op cs start) \<and> view (fold do_op cs start) = fold relation_op cs ({}, {})"
proof -
  have "store_ok (fold do_op cs s) \<and> view (fold do_op cs s) = fold relation_op cs (view s)" if "store_ok s" for s
    using that by (induction cs arbitrary: s) (auto simp: op_ok op_view)
  then show ?thesis
    using start_ok by simp
qed

end

definition graph_op :: "node graph_op \<Rightarrow> digraph \<Rightarrow> digraph" where
  "graph_op c g = (case c of
     AddNode n \<Rightarrow> insert_node g n
   | AddEdge a b \<Rightarrow> insert_edge g a b
   | DelEdge a b \<Rightarrow> snd (remove_edge True g a b)
   | DelNode n \<Rightarrow> remove_node g n)"

lemma graph_op_ok:
  assumes "digraph_inv g"
  shows "digraph_inv (graph_op c g)" "(set (nodes (graph_op c g)), g_edges (graph_op c g)) = relation_op c (set (nodes g), g_edges g)"
proof -
  have "digraph_inv (graph_op c g)
    \<and> (set (nodes (graph_op c g)), g_edges (graph_op c g)) = relation_op c (set (nodes g), g_edges g)"
  proof (cases c)
    case (DelEdge a b)
    obtain g' where "remove_edge True g a b = (Ok ((a, b) \<in> g_edges g), g')" "digraph_inv g'" "nodes g' = nodes g"
      "g_edges g' = g_edges g - {(a, b)}"
      by (rule remove_edge_ok [OF assms])
    then show ?thesis
      by (simp add: DelEdge graph_op_def)
  qed (use insert_node_ok [OF assms] insert_edge_ok [OF assms] remove_node_ok [OF assms] in \<open>auto simp: graph_op_def\<close>)
  then show "digraph_inv (graph_op c g)"
    "(set (nodes (graph_op c g)), g_edges (graph_op c g)) = relation_op c (set (nodes g), g_edges g)"
    by blast+
qed

interpretation dg: relation_store digraph_inv "\<lambda>g. (set (nodes g), g_edges g)" graph_op digraph_new
  by unfold_locales (simp_all add: digraph_new_ok graph_op_ok)

section \<open>Properties\<close>

text \<open>C22: whatever sequence of insertions and removals built it, a graph is the relation these operations describe, its
  adjacency lists hold exactly the successors and predecessors of a node, and removing an edge
  reports whether it existed and never fails its assertion.\<close>
theorem digraph_refines_relation:
  "let g = fold graph_op cs digraph_new in
     (set (nodes g), g_edges g) = fold relation_op cs ({}, {}) \<and> distinct (nodes g)
     \<and> set (neighbors g a) = {b. (a, b) \<in> g_edges g} \<and> set (rev_neighbors g a) = {b. (b, a) \<in> g_edges g}
     \<and> fst (remove_edge debug g a b) = Ok ((a, b) \<in> g_edges g)"
proof -
  let ?g = "fold graph_op cs digraph_new"
  have inv: "digraph_inv ?g" and v: "(set (nodes ?g), g_edges ?g) = fold relation_op cs ({}, {})"
    using dg.run_view [of cs] by auto
  obtain g' where "remove_edge debug ?g a b = (Ok ((a, b) \<in> g_edges ?g), g')"
    by (rule remove_edge_ok [OF inv])
  then show ?thesis
    unfolding Let_def using v digraph_invD(1) [OF inv] neighbors_edges [OF inv] rev_neighbors_edges [OF inv] by simp
qed

end
