(* ===== verification/Scc_Invariant.thy ===== *)
theory Scc_Invariant
  imports Schedule_Graph
begin

text \<open>
  The invariant of the search for strongly connected components, stated over functions instead of the arrays of
  the code: \<open>rt\<close> is the root of a node (0 before its visit), \<open>nb\<close> its neighbours still to be examined and \<open>pe\<close> the
  neighbour it waits for. \<open>act\<close> lists the visited nodes without a component in the order of their discovery, \<open>D\<close> holds
  the nodes with one, and \<open>path\<close> is the visitation stack without a node that is still to be discovered
  (\<open>fresh\<close>). \<open>exc\<close> is a neighbour of the topmost node whose visit has ended and whose root has not been taken over.
\<close>

section \<open>Discovery numbers\<close>

definition disc :: "'a list \<Rightarrow> 'a \<Rightarrow> nat" where
  "disc act x = Suc (length (takeWhile (\<lambda>y. y \<noteq> x) act))"

lemma disc_nth: "distinct act \<Longrightarrow> i < length act \<Longrightarrow> disc act (act ! i) = Suc i"
proof (induction act arbitrary: i)
  case (Cons a act)
  then show ?case
    by (cases i) (auto simp: disc_def nth_eq_iff_index_eq)
qed simp

lemma disc_mem:
  assumes "x \<in> set act"
  shows "disc act x \<le> length act" "act ! (disc act x - 1) = x" "1 \<le> disc act x"
proof -
  have "length (takeWhile (\<lambda>y. y \<noteq> x) act) < length act \<and> act ! length (takeWhile (\<lambda>y. y \<noteq> x) act) = x"
    using assms by (induction act) auto
  then show "disc act x \<le> length act" "act ! (disc act x - 1) = x" "1 \<le> disc act x"
    by (simp_all add: disc_def)
qed

lemma disc_inj: "x \<in> set act \<Longrightarrow> y \<in> set act \<Longrightarrow> disc act x = disc act y \<longleftrightarrow> x = y"
  by (metis disc_mem(2))

lemma disc_append:
  assumes "x \<in> set act"
  shows "disc (act @ ys) x = disc act x"
proof -
  have "takeWhile (\<lambda>y. y \<noteq> x) (act @ ys) = takeWhile (\<lambda>y. y \<noteq> x) act"
    using assms by (intro takeWhile_append1) auto
  then show ?thesis
    by (simp add: disc_def)
qed

lemma disc_snoc: "v \<notin> set act \<Longrightarrow> disc (act @ [v]) v = Suc (length act)"
proof -
  assume "v \<notin> set act"
  then have "takeWhile (\<lambda>y. y \<noteq> v) (act @ [v]) = act"
    by (subst takeWhile_append2) auto
  then show ?thesis
    by (simp add: disc_def)
qed

lemma disc_take:
  assumes "distinct act" "x \<in> set act"
  shows "x \<in> set (take k act) \<longleftrightarrow> disc act x \<le> k" "x \<in> set (take k act) \<Longrightarrow> disc (take k act) x = disc act x"
    "x \<in> set (drop k act) \<longleftrightarrow> k < disc act x"
proof -
  show t: "x \<in> set (take k act) \<longleftrightarrow> disc act x \<le> k"
  proof
    assume "x \<in> set (take k act)"
    then have "disc (take k act @ drop k act) x = disc (take k act) x" "disc (take k act) x \<le> length (take k act)"
      by (rule disc_append, rule disc_mem)
    then show "disc act x \<le> k"
      by simp
  next
    assume "disc act x \<le> k"
    then have "disc act x - 1 < length (take k act)" "take k act ! (disc act x - 1) = x"
      using disc_mem [OF assms(2)] by auto
    then show "x \<in> set (take k act)"
      by (metis nth_mem)
  qed
  show "x \<in> set (take k act) \<Longrightarrow> disc (take k act) x = disc act x"
    using disc_append [of x "take k act" "drop k act"] by simp
  have "x \<in> set (drop k act) \<longleftrightarrow> x \<notin> set (take k act)"
    using assms set_take_disj_set_drop_if_distinct [OF assms(1), of k k] by (metis Un_iff append_take_drop_id disjoint_iff order_refl set_append)
  then show "x \<in> set (drop k act) \<longleftrightarrow> k < disc act x"
    using t by auto
qed

section \<open>The invariant\<close>

definition scc_base :: "(node \<times> node) set \<Rightarrow> node set \<Rightarrow> (node \<Rightarrow> nat) \<Rightarrow> node list \<Rightarrow> node set \<Rightarrow> bool" where
  "scc_base E N rt act D \<longleftrightarrow>
     E \<subseteq> N \<times> N \<and> distinct act \<and> set act \<subseteq> N \<and> D \<subseteq> N \<and> set act \<inter> D = {}
     \<and> (\<forall>x\<in>N. rt x = 0 \<longleftrightarrow> x \<notin> set act \<and> x \<notin> D)
     \<and> (\<forall>x\<in>D. card N < rt x)
     \<and> (\<forall>x\<in>set act. rt x \<le> disc act x \<and> (x, act ! (rt x - 1)) \<in> E\<^sup>*)
     \<and> (\<forall>x\<in>D. \<forall>y. (x, y) \<in> E \<longrightarrow> y \<in> D)"

definition scc_path ::
  "(node \<times> node) set \<Rightarrow> (node \<Rightarrow> nat) \<Rightarrow> (node \<Rightarrow> node option) \<Rightarrow> node list \<Rightarrow> node list \<Rightarrow> (node \<times> bool) list \<Rightarrow> bool" where
  "scc_path E rt pe stk act path \<longleftrightarrow>
     sorted_wrt (\<lambda>p q. disc act q < disc act p) (map fst path) \<and> fst ` set path \<subseteq> set act
     \<and> set stk = set act - fst ` set path \<and> distinct stk
     \<and> (\<forall>(p, f)\<in>set path. f \<longleftrightarrow> rt p = disc act p)
     \<and> (\<forall>x\<in>set stk. rt x < disc act x)
     \<and> (act \<noteq> [] \<longrightarrow> path \<noteq> [] \<and> fst (last path) = hd act)
     \<and> sorted_wrt (\<lambda>x y. \<forall>p\<in>fst ` set path. disc act y < disc act p \<longrightarrow> disc act x < disc act p) stk
     \<and> successively (\<lambda>q p. pe (fst p) = Some (fst q) \<and> (fst p, fst q) \<in> E) path
     \<and> (\<forall>p\<in>fst ` set path. \<forall>x\<in>set act. disc act p \<le> disc act x \<longrightarrow> (p, x) \<in> E\<^sup>*)"

definition scc_edges ::
  "(node \<times> node) set \<Rightarrow> node set \<Rightarrow> (node \<Rightarrow> nat) \<Rightarrow> (node \<Rightarrow> node option) \<Rightarrow> (node \<Rightarrow> node list) \<Rightarrow> node list \<Rightarrow> node list
     \<Rightarrow> node set \<Rightarrow> (node \<times> bool) list \<Rightarrow> node option \<Rightarrow> node option \<Rightarrow> bool" where
  "scc_edges E N rt pe nb stk act D path exc fresh \<longleftrightarrow>
     (\<forall>x\<in>set stk. \<forall>y. (x, y) \<in> E \<longrightarrow> y \<in> D \<or> y \<in> set act \<and> rt x \<le> disc act y)
     \<and> (\<forall>x\<in>fst ` set path. \<forall>y. (x, y) \<in> E \<longrightarrow>
          y \<in> set (nb x) \<or> fresh = Some y \<and> x = fst (hd path) \<or> y \<in> D \<or> y \<in> set act \<and> rt x \<le> disc act y)
     \<and> (\<forall>p\<in>fst ` set path. \<forall>x\<in>set stk. disc act p < disc act x \<longrightarrow>
          (\<forall>q\<in>fst ` set path. disc act q \<le> disc act p \<or> disc act x < disc act q) \<longrightarrow>
          rt p \<le> rt x \<or> p = fst (hd path) \<and> (\<exists>c. exc = Some c \<and> c \<in> set stk \<and> rt c \<le> rt x))
     \<and> (\<forall>c. exc = Some c \<longrightarrow> path \<noteq> [] \<and> (fst (hd path), c) \<in> E \<and> c \<in> set stk \<union> D)
     \<and> (\<forall>w. fresh = Some w \<longrightarrow> w \<in> N \<and> rt w = 0 \<and> (path \<noteq> [] \<longrightarrow> (fst (hd path), w) \<in> E \<and> pe (fst (hd path)) = Some w))
     \<and> (\<forall>p\<in>fst ` set path. \<forall>y\<in>set (nb p). (p, y) \<in> E)
     \<and> (\<forall>x\<in>N. x \<notin> set act \<union> D \<longrightarrow> set (nb x) = {y. (x, y) \<in> E} \<and> pe x = None)"

definition scc_inv ::
  "(node \<times> node) set \<Rightarrow> node set \<Rightarrow> (node \<Rightarrow> nat) \<Rightarrow> (node \<Rightarrow> node option) \<Rightarrow> (node \<Rightarrow> node list) \<Rightarrow> node list \<Rightarrow> node list
     \<Rightarrow> node set \<Rightarrow> (node \<times> bool) list \<Rightarrow> node option \<Rightarrow> node option \<Rightarrow> bool" where
  "scc_inv E N rt pe nb stk act D path exc fresh \<longleftrightarrow>
     scc_base E N rt act D \<and> scc_path E rt pe stk act path \<and> scc_edges E N rt pe nb stk act D path exc fresh"

lemma scc_invD:
  assumes "scc_inv E N rt pe nb stk act D path exc fresh"
  shows "scc_base E N rt act D" "scc_path E rt pe stk act path" "scc_edges E N rt pe nb stk act D path exc fresh"
  using assms by (simp_all add: scc_inv_def)

lemma scc_baseD:
  assumes "scc_base E N rt act D"
  shows "E \<subseteq> N \<times> N" "distinct act" "set act \<subseteq> N" "D \<subseteq> N" "set act \<inter> D = {}"
    "x \<in> N \<Longrightarrow> rt x = 0 \<longleftrightarrow> x \<notin> set act \<and> x \<notin> D" "x \<in> D \<Longrightarrow> card N < rt x"
    "x \<in> set act \<Longrightarrow> rt x \<le> disc act x" "x \<in> set act \<Longrightarrow> (x, act ! (rt x - 1)) \<in> E\<^sup>*"
    "x \<in> D \<Longrightarrow> (x, y) \<in> E \<Longrightarrow> y \<in> D"
  using assms unfolding scc_base_def by blast+

lemma scc_pathD:
  assumes "scc_path E rt pe stk act path"
  shows "sorted_wrt (\<lambda>p q. disc act q < disc act p) (map fst path)" "fst ` set path \<subseteq> set act"
    "set stk = set act - fst ` set path" "distinct stk" "(p, f) \<in> set path \<Longrightarrow> f \<longleftrightarrow> rt p = disc act p"
    "x \<in> set stk \<Longrightarrow> rt x < disc act x" "act \<noteq> [] \<Longrightarrow> path \<noteq> [] \<and> fst (last path) = hd act"
    "sorted_wrt (\<lambda>x y. \<forall>p\<in>fst ` set path. disc act y < disc act p \<longrightarrow> disc act x < disc act p) stk"
    "successively (\<lambda>q p. pe (fst p) = Some (fst q) \<and> (fst p, fst q) \<in> E) path"
    "q \<in> fst ` set path \<Longrightarrow> x \<in> set act \<Longrightarrow> disc act q \<le> disc act x \<Longrightarrow> (q, x) \<in> E\<^sup>*"
  using assms unfolding scc_path_def by auto

lemma scc_edgesD:
  assumes "scc_edges E N rt pe nb stk act D path exc fresh"
  shows "x \<in> set stk \<Longrightarrow> (x, y) \<in> E \<Longrightarrow> y \<in> D \<or> y \<in> set act \<and> rt x \<le> disc act y"
    "x \<in> fst ` set path \<Longrightarrow> (x, y) \<in> E \<Longrightarrow>
       y \<in> set (nb x) \<or> fresh = Some y \<and> x = fst (hd path) \<or> y \<in> D \<or> y \<in> set act \<and> rt x \<le> disc act y"
    "q \<in> fst ` set path \<Longrightarrow> x \<in> set stk \<Longrightarrow> disc act q < disc act x \<Longrightarrow>
       \<forall>q'\<in>fst ` set path. disc act q' \<le> disc act q \<or> disc act x < disc act q' \<Longrightarrow>
       rt q \<le> rt x \<or> q = fst (hd path) \<and> (\<exists>c. exc = Some c \<and> c \<in> set stk \<and> rt c \<le> rt x)"
    "exc = Some c \<Longrightarrow> path \<noteq> [] \<and> (fst (hd path), c) \<in> E \<and> c \<in> set stk \<union> D"
    "fresh = Some w \<Longrightarrow> w \<in> N \<and> rt w = 0 \<and> (path \<noteq> [] \<longrightarrow> (fst (hd path), w) \<in> E \<and> pe (fst (hd path)) = Some w)"
    "q \<in> fst ` set path \<Longrightarrow> y \<in> set (nb q) \<Longrightarrow> (q, y) \<in> E"
    "x \<in> N \<Longrightarrow> x \<notin> set act \<Longrightarrow> x \<notin> D \<Longrightarrow> set (nb x) = {y. (x, y) \<in> E} \<and> pe x = None"
proof -
  note c = assms [unfolded scc_edges_def]
  show "x \<in> set stk \<Longrightarrow> (x, y) \<in> E \<Longrightarrow> y \<in> D \<or> y \<in> set act \<and> rt x \<le> disc act y"
    using c [THEN conjunct1] by blast
  note c = c [THEN conjunct2]
  show "x \<in> fst ` set path \<Longrightarrow> (x, y) \<in> E \<Longrightarrow>
       y \<in> set (nb x) \<or> fresh = Some y \<and> x = fst (hd path) \<or> y \<in> D \<or> y \<in> set act \<and> rt x \<le> disc act y"
    by (rule c [THEN conjunct1, THEN bspec, THEN spec, THEN mp])
  note c = c [THEN conjunct2]
  show "q \<in> fst ` set path \<Longrightarrow> x \<in> set stk \<Longrightarrow> disc act q < disc act x \<Longrightarrow>
       \<forall>q'\<in>fst ` set path. disc act q' \<le> disc act q \<or> disc act x < disc act q' \<Longrightarrow>
       rt q \<le> rt x \<or> q = fst (hd path) \<and> (\<exists>c. exc = Some c \<and> c \<in> set stk \<and> rt c \<le> rt x)"
    by (rule c [THEN conjunct1, THEN bspec, THEN bspec, THEN mp, THEN mp])
  note c = c [THEN conjunct2]
  show "exc = Some c \<Longrightarrow> path \<noteq> [] \<and> (fst (hd path), c) \<in> E \<and> c \<in> set stk \<union> D"
    using c [THEN conjunct1] by blast
  note c = c [THEN conjunct2]
  show "fresh = Some w \<Longrightarrow> w \<in> N \<and> rt w = 0 \<and> (path \<noteq> [] \<longrightarrow> (fst (hd path), w) \<in> E \<and> pe (fst (hd path)) = Some w)"
    using c [THEN conjunct1] by blast
  note c = c [THEN conjunct2]
  show "q \<in> fst ` set path \<Longrightarrow> y \<in> set (nb q) \<Longrightarrow> (q, y) \<in> E"
    using c [THEN conjunct1] by blast
  show "x \<in> N \<Longrightarrow> x \<notin> set act \<Longrightarrow> x \<notin> D \<Longrightarrow> set (nb x) = {y. (x, y) \<in> E} \<and> pe x = None"
    using c [THEN conjunct2] by blast
qed

lemma scc_edgesI:
  assumes "\<And>x y. x \<in> set stk \<Longrightarrow> (x, y) \<in> E \<Longrightarrow> y \<in> D \<or> y \<in> set act \<and> rt x \<le> disc act y"
    and "\<And>x y. x \<in> fst ` set path \<Longrightarrow> (x, y) \<in> E \<Longrightarrow>
       y \<in> set (nb x) \<or> fresh = Some y \<and> x = fst (hd path) \<or> y \<in> D \<or> y \<in> set act \<and> rt x \<le> disc act y"
    and "\<And>q x. q \<in> fst ` set path \<Longrightarrow> x \<in> set stk \<Longrightarrow> disc act q < disc act x \<Longrightarrow>
       \<forall>q'\<in>fst ` set path. disc act q' \<le> disc act q \<or> disc act x < disc act q' \<Longrightarrow>
       rt q \<le> rt x \<or> q = fst (hd path) \<and> (\<exists>c. exc = Some c \<and> c \<in> set stk \<and> rt c \<le> rt x)"
    and "\<And>c. exc = Some c \<Longrightarrow> path \<noteq> [] \<and> (fst (hd path), c) \<in> E \<and> c \<in> set stk \<union> D"
    and "\<And>w. fresh = Some w \<Longrightarrow> w \<in> N \<and> rt w = 0 \<and> (path \<noteq> [] \<longrightarrow> (fst (hd path), w) \<in> E \<and> pe (fst (hd path)) = Some w)"
    and "\<And>q y. q \<in> fst ` set path \<Longrightarrow> y \<in> set (nb q) \<Longrightarrow> (q, y) \<in> E"
    and "\<And>x. x \<in> N \<Longrightarrow> x \<notin> set act \<Longrightarrow> x \<notin> D \<Longrightarrow> set (nb x) = {y. (x, y) \<in> E} \<and> pe x = None"
  shows "scc_edges E N rt pe nb stk act D path exc fresh"
  unfolding scc_edges_def
  by (intro conjI ballI allI impI) (fact assms(1) assms(2) assms(3) | use assms in simp)+

section \<open>Discovering a node\<close>

lemma discover_base:
  assumes b: "scc_base E N rt act D" and v: "v \<in> N" "v \<notin> set act" "v \<notin> D"
  shows "scc_base E N (rt(v := Suc (length act))) (act @ [v]) D"
proof -
  have "(rt(v := Suc (length act))) x \<le> disc (act @ [v]) x \<and> (x, (act @ [v]) ! ((rt(v := Suc (length act))) x - 1)) \<in> E\<^sup>*"
    if "x \<in> set (act @ [v])" for x
  proof (cases "x = v")
    case False
    then have x: "x \<in> set act"
      using that by simp
    then have "rt x \<le> disc act x" "rt x \<noteq> 0" "(x, act ! (rt x - 1)) \<in> E\<^sup>*" "disc act x \<le> length act"
      using scc_baseD(3,5,6,8,9) [OF b] disc_mem(1) [OF x] by auto
    then show ?thesis
      using False disc_append [OF x, of "[v]"] by (auto simp: nth_append)
  qed (use disc_snoc [OF v(2)] in simp)
  then show ?thesis
    using b v unfolding scc_base_def by auto
qed

lemma discover_path:
  assumes p: "scc_path E rt pe stk act path" and v: "v \<notin> set act"
    and top: "path \<noteq> [] \<Longrightarrow> (fst (hd path), v) \<in> E \<and> pe (fst (hd path)) = Some v"
  shows "scc_path E (rt(v := Suc (length act))) pe stk (act @ [v]) ((v, True) # path)"
proof -
  note pD = scc_pathD [OF p]
  have d: "disc (act @ [v]) x = disc act x" "disc act x < Suc (length act)" "x \<noteq> v" if "x \<in> set act" for x
    using that v disc_append disc_mem(1) [OF that] by auto
  have dv: "disc (act @ [v]) v = Suc (length act)"
    using v by (rule disc_snoc)
  have in_act: "x \<in> set act" if "x \<in> fst ` set path \<or> x \<in> set stk" for x
    using that pD(2,3) by auto
  have "sorted_wrt (\<lambda>p q. disc (act @ [v]) q < disc (act @ [v]) p) (map fst ((v, True) # path))"
  proof -
    have "sorted_wrt (\<lambda>p q. disc (act @ [v]) q < disc (act @ [v]) p) (map fst path)"
      by (rule sorted_wrt_mono_rel [OF _ pD(1)]) (use d in_act in auto)
    moreover have "disc (act @ [v]) q < disc (act @ [v]) v" if "q \<in> fst ` set path" for q
      using that d [of q] dv in_act [of q] by simp
    ultimately show ?thesis
      by auto
  qed
  moreover have "set stk = set (act @ [v]) - fst ` set ((v, True) # path)" "distinct stk" "fst ` set ((v, True) # path) \<subseteq> set (act @ [v])"
    using pD(2-4) v by auto
  moreover have "\<forall>(p, f)\<in>set ((v, True) # path). f \<longleftrightarrow> (rt(v := Suc (length act))) p = disc (act @ [v]) p"
  proof (clarify, safe)
    fix p f
    assume pf: "(p, f) \<in> set ((v, True) # path)"
    have "p = v \<and> f \<or> (p, f) \<in> set path \<and> p \<in> set act"
      using pf pD(2) by force
    then have "f \<longleftrightarrow> (rt(v := Suc (length act))) p = disc (act @ [v]) p"
      using pD(5) [of p f] d dv by auto
    then show "f \<Longrightarrow> (rt(v := Suc (length act))) p = disc (act @ [v]) p" "(rt(v := Suc (length act))) p = disc (act @ [v]) p \<Longrightarrow> f"
      by simp_all
  qed
  moreover have "\<forall>x\<in>set stk. (rt(v := Suc (length act))) x < disc (act @ [v]) x"
    using pD(6) d in_act by auto
  moreover have "act @ [v] \<noteq> [] \<longrightarrow> (v, True) # path \<noteq> [] \<and> fst (last ((v, True) # path)) = hd (act @ [v])"
    using pD(2,7) by (cases act; cases path) auto
  moreover have "sorted_wrt (\<lambda>x y. \<forall>p\<in>fst ` set ((v, True) # path). disc (act @ [v]) y < disc (act @ [v]) p \<longrightarrow> disc (act @ [v]) x < disc (act @ [v]) p) stk"
    by (rule sorted_wrt_mono_rel [OF _ pD(8)]) (use d dv in_act in auto)
  moreover have "successively (\<lambda>q p. pe (fst p) = Some (fst q) \<and> (fst p, fst q) \<in> E) ((v, True) # path)"
    using pD(9) top by (auto simp: successively_Cons)
  moreover have "(q, x) \<in> E\<^sup>*" if "q \<in> fst ` set ((v, True) # path)" "x \<in> set (act @ [v])" "disc (act @ [v]) q \<le> disc (act @ [v]) x" for q x
  proof (cases "q = v")
    case True
    then have "x = v"
      using that(2,3) d [of x] dv by auto
    then show ?thesis
      using True by simp
  next
    case False
    then have q: "q \<in> fst ` set path" "path \<noteq> []"
      using that(1) by auto
    then have "fst (hd path) \<in> fst ` set path" "disc act q \<le> disc act (fst (hd path))"
      using pD(1) by (cases path; auto)+
    then have "(q, fst (hd path)) \<in> E\<^sup>*"
      using pD(10) [OF q(1)] in_act by blast
    then have "(q, v) \<in> E\<^sup>*"
      using top [OF q(2)] by auto
    then show ?thesis
      using pD(10) [OF q(1), of x] that(2,3) d in_act q(1) by auto
  qed
  ultimately show ?thesis
    unfolding scc_path_def by blast
qed

lemma discover_edges:
  assumes p: "scc_path E rt pe stk act path" and e: "scc_edges E N rt pe nb stk act D path None (Some v)"
    and b: "scc_base E N rt act D"
  shows "scc_edges E N (rt(v := Suc (length act))) pe nb stk (act @ [v]) D ((v, True) # path) None None"
proof -
  note eD = scc_edgesD [OF e] and pD = scc_pathD [OF p] and bD = scc_baseD [OF b]
  have v: "v \<in> N" "v \<notin> set act" "v \<notin> D"
    using eD(5) [of v] bD(6) by auto
  have d: "disc (act @ [v]) x = disc act x" "disc act x < Suc (length act)" "x \<noteq> v" if "x \<in> set act" for x
    using that v(2) disc_append disc_mem(1) [OF that] by auto
  have dv: "disc (act @ [v]) v = Suc (length act)"
    using v(2) by (rule disc_snoc)
  have in_act: "x \<in> set act" if "x \<in> fst ` set path \<or> x \<in> set stk" for x
    using that pD(2,3) by auto
  let ?rt = "rt(v := Suc (length act))"
  have "y \<in> D \<or> y \<in> set (act @ [v]) \<and> ?rt x \<le> disc (act @ [v]) y" if "x \<in> set stk" "(x, y) \<in> E" for x y
    using eD(1) [OF that] that(1) d in_act [of x] by auto
  moreover have "y \<in> set (nb x) \<or> None = Some y \<and> x = fst (hd ((v, True) # path)) \<or> y \<in> D \<or> y \<in> set (act @ [v]) \<and> ?rt x \<le> disc (act @ [v]) y"
    if "x \<in> fst ` set ((v, True) # path)" "(x, y) \<in> E" for x y
  proof (cases "x = v")
    case True
    then show ?thesis
      using eD(7) [OF v] that(2) by auto
  next
    case False
    then have x: "x \<in> fst ` set path" "x \<in> set act"
      using that(1) in_act by auto
    have "rt x \<le> length act"
      using bD(8) [OF x(2)] d(2) [OF x(2)] by simp
    then show ?thesis
      using eD(2) [OF x(1) that(2)] False d dv by auto
  qed
  moreover have "?rt q \<le> ?rt x \<or> q = fst (hd ((v, True) # path)) \<and> (\<exists>c. None = Some c \<and> c \<in> set stk \<and> ?rt c \<le> ?rt x)"
    if q: "q \<in> fst ` set ((v, True) # path)" "x \<in> set stk" "disc (act @ [v]) q < disc (act @ [v]) x"
      and btw: "\<forall>q'\<in>fst ` set ((v, True) # path). disc (act @ [v]) q' \<le> disc (act @ [v]) q \<or> disc (act @ [v]) x < disc (act @ [v]) q'" for q x
  proof -
    have x: "x \<in> set act" "disc (act @ [v]) x < disc (act @ [v]) v"
      using q(2) in_act d dv by auto
    then have "q \<in> fst ` set path" "q \<in> set act"
      using q(1,3) in_act by auto
    then have "rt q \<le> rt x"
      using eD(3) [of q x] q(2,3) btw d x in_act by auto
    then show ?thesis
      using d(3) \<open>q \<in> set act\<close> x(1) by auto
  qed
  moreover have "\<forall>q\<in>fst ` set ((v, True) # path). \<forall>y\<in>set (nb q). (q, y) \<in> E"
    using eD(6,7) v by auto
  moreover have "\<forall>x\<in>N. x \<notin> set (act @ [v]) \<union> D \<longrightarrow> set (nb x) = {y. (x, y) \<in> E} \<and> pe x = None"
    using eD(7) by auto
  ultimately show ?thesis
    unfolding scc_edges_def by blast
qed

lemma scc_discover:
  assumes inv: "scc_inv E N rt pe nb stk act D path None (Some v)"
  shows "scc_inv E N (rt(v := Suc (length act))) pe nb stk (act @ [v]) D ((v, True) # path) None None"
proof -
  note i = scc_invD [OF inv]
  have "v \<in> N" "v \<notin> set act" "v \<notin> D" "path \<noteq> [] \<Longrightarrow> (fst (hd path), v) \<in> E \<and> pe (fst (hd path)) = Some v"
    using scc_edgesD(5) [OF i(3), of v] scc_baseD(6) [OF i(1), of v] by auto
  then show ?thesis
    using discover_base [OF i(1)] discover_path [OF i(2)] discover_edges [OF i(2,3,1)] by (simp add: scc_inv_def)
qed

section \<open>Examining neighbours\<close>

text \<open>The topmost node of the path is not on the rest of it and not on the stack.\<close>

lemma top_apart:
  assumes "scc_path E rt pe stk act ((v, f) # ps)"
  shows "v \<in> set act" "v \<notin> fst ` set ps" "v \<notin> set stk" "q \<in> fst ` set ps \<Longrightarrow> disc act q < disc act v"
    "q \<in> fst ` set ps \<Longrightarrow> q \<in> set act" "(q, h) \<in> set ps \<Longrightarrow> q \<noteq> v"
proof -
  note pD = scc_pathD [OF assms]
  show lt: "q \<in> fst ` set ps \<Longrightarrow> disc act q < disc act v" for q
    using pD(1) by auto
  then show v: "v \<notin> fst ` set ps"
    by blast
  then show "(q, h) \<in> set ps \<Longrightarrow> q \<noteq> v"
    by force
  show "v \<in> set act" "v \<notin> set stk" "q \<in> fst ` set ps \<Longrightarrow> q \<in> set act"
    using pD(2,3) by auto
qed

lemma scc_pending:
  assumes inv: "scc_inv E N rt pe nb stk act D ((v, f) # ps) exc None"
  shows "scc_inv E N rt (pe(v := x)) nb stk act D ((v, f) # ps) exc None"
proof -
  note i = scc_invD [OF inv]
  note top = top_apart [OF i(2)]
  have "successively (\<lambda>q p. (pe(v := x)) (fst p) = Some (fst q) \<and> (fst p, fst q) \<in> E) ((v, f) # ps)"
  proof -
    have s: "successively (\<lambda>q p. pe (fst p) = Some (fst q) \<and> (fst p, fst q) \<in> E) ((v, f) # ps)"
      by (rule scc_pathD [OF i(2)])
    then have "successively (\<lambda>q p. (pe(v := x)) (fst p) = Some (fst q) \<and> (fst p, fst q) \<in> E) ps"
      using top(2) by (cases ps) (auto simp: successively_Cons elim!: successively_mono)
    then show ?thesis
      using s top(2) by (cases ps) auto
  qed
  then have "scc_path E rt (pe(v := x)) stk act ((v, f) # ps)"
    using i(2) unfolding scc_path_def by blast
  moreover have "\<forall>y\<in>N. y \<notin> set act \<union> D \<longrightarrow> set (nb y) = {z. (y, z) \<in> E} \<and> (pe(v := x)) y = None"
    using scc_edgesD(7) [OF i(3)] top(1) by auto
  then have "scc_edges E N rt (pe(v := x)) nb stk act D ((v, f) # ps) exc None"
    using i(3) unfolding scc_edges_def by simp
  ultimately show ?thesis
    using i(1) by (simp add: scc_inv_def)
qed

text \<open>Taking over a smaller root.\<close>

lemma scc_lower:
  assumes inv: "scc_inv E N rt pe nb stk act D ((v, f) # ps) exc None"
    and w: "(v, w) \<in> E" "w \<in> set act" "rt w < rt v"
  shows "scc_inv E N (rt(v := rt w)) pe nb stk act D ((v, False) # ps) exc None"
proof -
  note i = scc_invD [OF inv]
  note top = top_apart [OF i(2)] and bD = scc_baseD [OF i(1)] and pD = scc_pathD [OF i(2)] and eD = scc_edgesD [OF i(3)]
  let ?rt = "rt(v := rt w)"
  have vw: "rt w \<le> disc act v" "rt w \<noteq> disc act v" "rt w \<noteq> 0"
    using bD(8) [OF top(1)] w bD(3,6) by auto
  have "scc_base E N ?rt act D"
  proof -
    have "(v, act ! (rt w - 1)) \<in> E\<^sup>*"
      using w(1) bD(9) [OF w(2)] by (rule converse_rtrancl_into_rtrancl)
    then show ?thesis
      using i(1) vw top(1) unfolding scc_base_def by auto
  qed
  moreover have "scc_path E ?rt pe stk act ((v, False) # ps)"
  proof -
    have "\<forall>(p, h)\<in>set ((v, False) # ps). h \<longleftrightarrow> ?rt p = disc act p"
      using pD(5) vw top(6) by auto
    moreover have "\<forall>x\<in>set stk. ?rt x < disc act x"
      using pD(6) top(3) by auto
    moreover have "successively (\<lambda>q p. pe (fst p) = Some (fst q) \<and> (fst p, fst q) \<in> E) ((v, False) # ps)"
      using pD(9) by (cases ps) auto
    moreover have "fst (last ((v, False) # ps)) = fst (last ((v, f) # ps))"
      by simp
    moreover have "fst ` set ((v, False) # ps) = fst ` set ((v, f) # ps)" "map fst ((v, False) # ps) = map fst ((v, f) # ps)"
      by simp_all
    ultimately show ?thesis
      using i(2) unfolding scc_path_def by (simp only:) blast
  qed
  moreover have "scc_edges E N ?rt pe nb stk act D ((v, False) # ps) exc None"
  proof (rule scc_edgesI)
    show "y \<in> D \<or> y \<in> set act \<and> ?rt x \<le> disc act y" if "x \<in> set stk" "(x, y) \<in> E" for x y
      using eD(1) [OF that] that(1) top(3) by auto
    show "y \<in> set (nb x) \<or> None = Some y \<and> x = fst (hd ((v, False) # ps)) \<or> y \<in> D \<or> y \<in> set act \<and> ?rt x \<le> disc act y"
      if "x \<in> fst ` set ((v, False) # ps)" "(x, y) \<in> E" for x y
      using eD(2) [of x y] that w(3) by auto
    show "?rt q \<le> ?rt x \<or> q = fst (hd ((v, False) # ps)) \<and> (\<exists>c. exc = Some c \<and> c \<in> set stk \<and> ?rt c \<le> ?rt x)"
      if q: "q \<in> fst ` set ((v, False) # ps)" "x \<in> set stk" "disc act q < disc act x"
        and btw: "\<forall>q'\<in>fst ` set ((v, False) # ps). disc act q' \<le> disc act q \<or> disc act x < disc act q'" for q x
    proof -
      have ne: "x \<noteq> v" "c \<in> set stk \<Longrightarrow> c \<noteq> v" for c
        using q(2) top(3) by auto
      have "rt q \<le> rt x \<or> q = fst (hd ((v, f) # ps)) \<and> (\<exists>c. exc = Some c \<and> c \<in> set stk \<and> rt c \<le> rt x)"
        using q btw by (intro eD(3)) auto
      then show ?thesis
        using ne w(3) by auto
    qed
    show "(v, False) # ps \<noteq> [] \<and> (fst (hd ((v, False) # ps)), c) \<in> E \<and> c \<in> set stk \<union> D" if "exc = Some c" for c
      using eD(4) [OF that] by simp
    show "(q, y) \<in> E" if "q \<in> fst ` set ((v, False) # ps)" "y \<in> set (nb q)" for q y
      using eD(6) that by simp
  qed (use eD(7) in auto)
  ultimately show ?thesis
    by (simp add: scc_inv_def)
qed

lemma scc_absorb:
  assumes inv: "scc_inv E N rt pe nb stk act D ((v, f) # ps) (Some c) None" and c: "c \<in> set stk \<Longrightarrow> rt v \<le> rt c"
  shows "scc_inv E N rt pe nb stk act D ((v, f) # ps) None None"
proof -
  note i = scc_invD [OF inv]
  note eD = scc_edgesD [OF i(3)]
  have "rt q \<le> rt x \<or> q = fst (hd ((v, f) # ps)) \<and> (\<exists>c. None = Some c \<and> c \<in> set stk \<and> rt c \<le> rt x)"
    if q: "q \<in> fst ` set ((v, f) # ps)" "x \<in> set stk" "disc act q < disc act x"
      "\<forall>q'\<in>fst ` set ((v, f) # ps). disc act q' \<le> disc act q \<or> disc act x < disc act q'" for q x
    using eD(3) [OF q] c by auto
  then have "scc_edges E N rt pe nb stk act D ((v, f) # ps) None None"
    using i(3) unfolding scc_edges_def by (intro conjI) simp_all
  then show ?thesis
    using i by (simp add: scc_inv_def)
qed

lemma scc_examined:
  assumes inv: "scc_inv E N rt pe nb stk act D ((v, f) # ps) None None" and nb: "nb v = w # ws"
    and w: "w \<in> D \<or> w \<in> set act \<and> rt v \<le> disc act w"
  shows "scc_inv E N rt pe (nb(v := ws)) stk act D ((v, f) # ps) None None"
proof -
  note i = scc_invD [OF inv]
  note eD = scc_edgesD [OF i(3)] and top = top_apart [OF i(2)]
  have "y \<in> set ((nb(v := ws)) x) \<or> None = Some y \<and> x = fst (hd ((v, f) # ps)) \<or> y \<in> D \<or> y \<in> set act \<and> rt x \<le> disc act y"
    if "x \<in> fst ` set ((v, f) # ps)" "(x, y) \<in> E" for x y
    using eD(2) [OF that] w nb by auto
  moreover have "\<forall>q\<in>fst ` set ((v, f) # ps). \<forall>y\<in>set ((nb(v := ws)) q). (q, y) \<in> E"
    using eD(6) nb by auto
  moreover have "\<forall>x\<in>N. x \<notin> set act \<union> D \<longrightarrow> set ((nb(v := ws)) x) = {y. (x, y) \<in> E} \<and> pe x = None"
    using eD(7) top(1) by auto
  ultimately have "scc_edges E N rt pe (nb(v := ws)) stk act D ((v, f) # ps) None None"
    using i(3) unfolding scc_edges_def by (intro conjI) simp_all
  then show ?thesis
    using i by (simp add: scc_inv_def)
qed

lemma scc_descend:
  assumes inv: "scc_inv E N rt pe nb stk act D ((v, f) # ps) None None" and nb: "nb v = w # ws" and w: "rt w = 0"
  shows "scc_inv E N rt (pe(v := Some w)) (nb(v := ws)) stk act D ((v, f) # ps) None (Some w)"
proof -
  note i' = scc_invD [OF scc_pending [OF inv, of "Some w"]]
  note eD = scc_edgesD [OF i'(3)] and top = top_apart [OF i'(2)]
  have vw: "(v, w) \<in> E" "w \<in> N"
    using eD(6) [of v w] nb scc_baseD(1) [OF i'(1)] by auto
  have "y \<in> set ((nb(v := ws)) x) \<or> Some w = Some y \<and> x = fst (hd ((v, f) # ps)) \<or> y \<in> D \<or> y \<in> set act \<and> rt x \<le> disc act y"
    if "x \<in> fst ` set ((v, f) # ps)" "(x, y) \<in> E" for x y
    using eD(2) [OF that] nb by auto
  moreover have "\<forall>q\<in>fst ` set ((v, f) # ps). \<forall>y\<in>set ((nb(v := ws)) q). (q, y) \<in> E"
    using eD(6) nb by auto
  moreover have "\<forall>x\<in>N. x \<notin> set act \<union> D \<longrightarrow> set ((nb(v := ws)) x) = {y. (x, y) \<in> E} \<and> (pe(v := Some w)) x = None"
    using eD(7) top(1) by auto
  ultimately have "scc_edges E N rt (pe(v := Some w)) (nb(v := ws)) stk act D ((v, f) # ps) None (Some w)"
    using i'(3) vw w unfolding scc_edges_def by (intro conjI) simp_all
  then show ?thesis
    using i' by (simp add: scc_inv_def)
qed

section \<open>Leaving a node\<close>

lemma scc_finish:
  assumes inv: "scc_inv E N rt pe nb stk act D ((v, False) # ps) None None" and nb: "nb v = []"
  shows "scc_inv E N rt pe nb (stk @ [v]) act D ps (Some v) None" "ps \<noteq> []" "pe (fst (hd ps)) = Some v"
proof -
  note i = scc_invD [OF inv]
  note top = top_apart [OF i(2)] and bD = scc_baseD [OF i(1)] and pD = scc_pathD [OF i(2)] and eD = scc_edgesD [OF i(3)]
  have low: "rt v < disc act v"
    using pD(5) [of v False] bD(8) [OF top(1)] by auto
  show ne: "ps \<noteq> []"
  proof
    assume "ps = []"
    then have "hd act = v" "act \<noteq> []"
      using pD(7) top(1) by (cases act; simp)+
    then have "disc act v = 1"
      by (cases act) (auto simp: disc_def)
    then show False
      using low bD(6) [of v] bD(3) top(1) by auto
  qed
  define u where "u = fst (hd ps)"
  have u: "u \<in> fst ` set ps" "(u, v) \<in> E" "pe u = Some v"
    using ne pD(9) by (cases ps; auto simp: u_def)+
  then show "pe (fst (hd ps)) = Some v"
    by (simp add: u_def)
  have below: "q = u" if "q \<in> fst ` set ps" "disc act u \<le> disc act q" for q
  proof -
    have "disc act q \<le> disc act u"
      using pD(1) that(1) ne by (cases ps) (auto simp: u_def)
    then show ?thesis
      using that disc_inj [of q act u] top(5) u(1) by auto
  qed
  have "scc_path E rt pe (stk @ [v]) act ps"
  proof -
    have "set (stk @ [v]) = set act - fst ` set ps" "distinct (stk @ [v])"
      using pD(3,4) top(1-3) by auto
    moreover have "\<forall>x\<in>set (stk @ [v]). rt x < disc act x"
      using pD(6) low by auto
    moreover have "sorted_wrt (\<lambda>x y. \<forall>p\<in>fst ` set ps. disc act y < disc act p \<longrightarrow> disc act x < disc act p) (stk @ [v])"
    proof -
      have "sorted_wrt (\<lambda>x y. \<forall>p\<in>fst ` set ps. disc act y < disc act p \<longrightarrow> disc act x < disc act p) stk"
        by (rule sorted_wrt_mono_rel [OF _ pD(8)]) auto
      then show ?thesis
        using top(4) by (fastforce simp: sorted_wrt_append)
    qed
    moreover have "sorted_wrt (\<lambda>p q. disc act q < disc act p) (map fst ps)" "fst ` set ps \<subseteq> set act"
      "\<forall>(p, f)\<in>set ps. f \<longleftrightarrow> rt p = disc act p" "act \<noteq> [] \<longrightarrow> ps \<noteq> [] \<and> fst (last ps) = hd act"
      "successively (\<lambda>q p. pe (fst p) = Some (fst q) \<and> (fst p, fst q) \<in> E) ps"
      "\<forall>p\<in>fst ` set ps. \<forall>x\<in>set act. disc act p \<le> disc act x \<longrightarrow> (p, x) \<in> E\<^sup>*"
      using pD(1,2,5,7,9,10) ne by (auto simp: successively_Cons)
    ultimately show ?thesis
      unfolding scc_path_def by blast
  qed
  moreover have "scc_edges E N rt pe nb (stk @ [v]) act D ps (Some v) None"
  proof (rule scc_edgesI)
    show "y \<in> D \<or> y \<in> set act \<and> rt x \<le> disc act y" if "x \<in> set (stk @ [v])" "(x, y) \<in> E" for x y
      using eD(1) [of x y] eD(2) [of x y] that nb by auto
    show "y \<in> set (nb x) \<or> None = Some y \<and> x = fst (hd ps) \<or> y \<in> D \<or> y \<in> set act \<and> rt x \<le> disc act y"
      if "x \<in> fst ` set ps" "(x, y) \<in> E" for x y
      using eD(2) [of x y] that by auto
    show "rt q \<le> rt x \<or> q = fst (hd ps) \<and> (\<exists>c. Some v = Some c \<and> c \<in> set (stk @ [v]) \<and> rt c \<le> rt x)"
      if q: "q \<in> fst ` set ps" "x \<in> set (stk @ [v])" "disc act q < disc act x"
        and btw: "\<forall>q'\<in>fst ` set ps. disc act q' \<le> disc act q \<or> disc act x < disc act q'" for q x
    proof (cases "disc act x < disc act v")
      case True
      then have "x \<in> set stk"
        using q(2) by auto
      then have "rt q \<le> rt x \<or> q = fst (hd ((v, False) # ps)) \<and> (\<exists>c. None = Some c \<and> c \<in> set stk \<and> rt c \<le> rt x)"
        using q(1,3) btw True by (intro eD(3)) auto
      then show ?thesis
        by auto
    next
      case False
      then have "\<not> disc act x < disc act u"
        using top(4) [OF u(1)] by linarith
      then have "q = u"
        using btw u(1) q(1) below by blast
      moreover have "rt v \<le> rt x"
      proof (cases "x = v")
        case False
        then have x: "x \<in> set stk" "disc act v < disc act x"
          using q(2) \<open>\<not> disc act x < disc act v\<close> disc_inj [of x act v] top(1) pD(3) by force+
        have "rt v \<le> rt x \<or> v = fst (hd ((v, False) # ps)) \<and> (\<exists>c. None = Some c \<and> c \<in> set stk \<and> rt c \<le> rt x)"
          using x top(4) by (intro eD(3)) (auto intro: less_imp_le)
        then show ?thesis
          by simp
      qed simp
      ultimately show ?thesis
        by (simp add: u_def)
    qed
    show "ps \<noteq> [] \<and> (fst (hd ps), c) \<in> E \<and> c \<in> set (stk @ [v]) \<union> D" if "Some v = Some c" for c
      using that ne u(2) by (simp add: u_def)
    show "(q, y) \<in> E" if "q \<in> fst ` set ps" "y \<in> set (nb q)" for q y
      using eD(6) that by simp
  qed (use eD(7) in auto)
  ultimately show "scc_inv E N rt pe nb (stk @ [v]) act D ps (Some v) None"
    using i(1) by (simp add: scc_inv_def)
qed

text \<open>Closing a component: the nodes discovered since its root, which form the end of the stack.\<close>

definition scc_class :: "(node \<times> node) set \<Rightarrow> node \<Rightarrow> node set" where
  "scc_class E v = {x. (v, x) \<in> E\<^sup>* \<and> (x, v) \<in> E\<^sup>*}"

lemma scc_close_facts:
  assumes inv: "scc_inv E N rt pe nb stk act D ((v, True) # ps) None None" and nb: "nb v = []"
  shows "rt v = disc act v" "\<And>x. x \<in> set stk \<Longrightarrow> disc act v < disc act x \<Longrightarrow> rt v \<le> rt x"
    "\<And>x. x \<in> set stk \<Longrightarrow> disc act x < disc act v \<Longrightarrow> rt x < rt v"
    "insert v {x \<in> set stk. disc act v < disc act x} = set (drop (disc act v - 1) act)"
    "\<And>x y. x \<in> set (drop (disc act v - 1) act) \<Longrightarrow> (x, y) \<in> E \<Longrightarrow> y \<in> D \<union> set (drop (disc act v - 1) act)"
    "set (drop (disc act v - 1) act) = scc_class E v"
proof -
  note i = scc_invD [OF inv]
  note top = top_apart [OF i(2)] and bD = scc_baseD [OF i(1)] and pD = scc_pathD [OF i(2)] and eD = scc_edgesD [OF i(3)]
  let ?C = "set (drop (disc act v - 1) act)"
  show root: "rt v = disc act v"
    using pD(5) [of v True] by simp
  show up: "rt v \<le> rt x" if "x \<in> set stk" "disc act v < disc act x" for x
  proof -
    have "rt v \<le> rt x \<or> v = fst (hd ((v, True) # ps)) \<and> (\<exists>c. None = Some c \<and> c \<in> set stk \<and> rt c \<le> rt x)"
      using that top(4) by (intro eD(3)) (auto intro: less_imp_le)
    then show ?thesis
      by simp
  qed
  show "rt x < rt v" if "x \<in> set stk" "disc act x < disc act v" for x
    using bD(8) [of x] that pD(3) root by auto
  have inC: "x \<in> ?C \<longleftrightarrow> x \<in> set act \<and> disc act v \<le> disc act x" for x
  proof (cases "x \<in> set act")
    case True
    then show ?thesis
      using disc_take(3) [OF bD(2) True, of "disc act v - 1"] disc_mem(3) [OF top(1)] by auto
  qed (auto dest: in_set_dropD)
  show C: "insert v {x \<in> set stk. disc act v < disc act x} = ?C"
  proof (intro set_eqI)
    fix x
    show "x \<in> insert v {x \<in> set stk. disc act v < disc act x} \<longleftrightarrow> x \<in> ?C"
    proof (cases "x \<in> fst ` set ps")
      case True
      then show ?thesis
        using inC [of x] pD(3) top(2) top(4) [OF True] by auto
    next
      case False
      then show ?thesis
        using inC [of x] top(1) pD(3) disc_inj [of x act v] by (auto simp: le_less)
    qed
  qed
  have low: "rt v \<le> rt x" if "x \<in> ?C" for x
    using that up unfolding C [symmetric] by auto
  show out: "y \<in> D \<union> ?C" if x: "x \<in> ?C" and xy: "(x, y) \<in> E" for x y
  proof -
    have "y \<in> D \<or> y \<in> set act \<and> rt x \<le> disc act y"
      using x xy eD(1) [of x y] eD(2) [of x y] nb unfolding C [symmetric] by auto
    then show ?thesis
      using low [OF x] root inC [of y] by auto
  qed
  have home: "(x, v) \<in> E\<^sup>*" if "x \<in> ?C" for x
    using that
  proof (induction "disc act x" arbitrary: x rule: less_induct)
    case less
    show ?case
    proof (cases "x = v")
      case False
      then have x: "x \<in> set stk" "x \<in> set act"
        using less.prems inC [of x] unfolding C [symmetric] by auto
      let ?y = "act ! (rt x - 1)"
      have r: "disc act v \<le> rt x" "rt x < disc act x" "disc act x \<le> length act"
        using low [OF less.prems] root pD(6) [OF x(1)] disc_mem(1) [OF x(2)] by simp_all
      then have "disc act ?y = rt x" "?y \<in> set act"
        using disc_nth [OF bD(2), of "rt x - 1"] disc_mem(3) [OF top(1)] by auto
      then have "(?y, v) \<in> E\<^sup>*"
        using r inC [of ?y] by (intro less.hyps) auto
      then show ?thesis
        using bD(9) [OF x(2)] by simp
    qed simp
  qed
  show "?C = scc_class E v"
  proof (intro set_eqI iffI)
    fix x
    assume "x \<in> ?C"
    then show "x \<in> scc_class E v"
      using home inC [of x] pD(10) [of v x] by (auto simp: scc_class_def)
  next
    fix x
    assume x: "x \<in> scc_class E v"
    have "y \<in> D \<union> ?C" if "(v, y) \<in> E\<^sup>*" for y
      using that
    proof (induction rule: rtrancl_induct)
      case base
      then show ?case
        using inC [of v] top(1) by simp
    next
      case (step y z)
      then show ?case
        using out [of y z] bD(10) [of y z] by blast
    qed
    moreover have "z \<in> D" if "(y, z) \<in> E\<^sup>*" "y \<in> D" for y z
      using that by (induction rule: rtrancl_induct) (auto intro: bD(10))
    ultimately show "x \<in> ?C"
      using x top(1) bD(5) by (fastforce simp: scc_class_def)
  qed
qed

lemma scc_close:
  assumes inv: "scc_inv E N rt pe nb stk act D ((v, True) # ps) None None" and nb: "nb v = []" and big: "card N < sid"
  defines "C \<equiv> set (drop (disc act v - 1) act)"
  shows "scc_inv E N (\<lambda>x. if x \<in> C then sid else rt x) pe nb (filter (\<lambda>x. disc act x < disc act v) stk)
      (take (disc act v - 1) act) (D \<union> C) ps (if ps = [] then None else Some v) None"
proof -
  note i = scc_invD [OF inv]
  note top = top_apart [OF i(2)] and bD = scc_baseD [OF i(1)] and pD = scc_pathD [OF i(2)] and eD = scc_edgesD [OF i(3)]
  note f = scc_close_facts [OF inv nb, folded C_def]
  let ?k = "disc act v - 1" and ?rt = "\<lambda>x. if x \<in> C then sid else rt x" and ?stk = "filter (\<lambda>x. disc act x < disc act v) stk"
  let ?act = "take (disc act v - 1) act"
  have k: "disc act v = Suc ?k"
    using disc_mem(3) [OF top(1)] by simp
  have ina: "x \<in> set ?act \<longleftrightarrow> x \<in> set act \<and> disc act x < disc act v" for x
  proof (cases "x \<in> set act")
    case True
    then show ?thesis
      using disc_take(1) [OF bD(2) True, of ?k] k by auto
  qed (auto dest: in_set_takeD)
  have inc: "x \<in> C \<longleftrightarrow> x \<in> set act \<and> \<not> disc act x < disc act v" for x
  proof (cases "x \<in> set act")
    case True
    then show ?thesis
      using disc_take(3) [OF bD(2) True, of ?k] k by (auto simp: C_def)
  qed (auto simp: C_def dest: in_set_dropD)
  have d: "disc ?act x = disc act x" "x \<notin> C" "x \<in> set act" "disc act x < disc act v" if "x \<in> set ?act" for x
    using that disc_take(2) [OF bD(2), of x ?k] ina inc by auto
  have ps: "q \<in> set ?act" if "q \<in> fst ` set ps" for q
    using that top(4,5) ina by simp
  have st: "x \<in> set ?act" "x \<in> set stk" if "x \<in> set ?stk" for x
    using that pD(3) ina by auto
  have sets: "set ?act \<union> C = set act" "set ?act \<inter> C = {}" "C \<subseteq> set act"
    using ina inc by auto
  have "scc_base E N ?rt ?act (D \<union> C)"
  proof -
    have "?rt x \<le> disc ?act x \<and> (x, ?act ! (?rt x - 1)) \<in> E\<^sup>*" if x: "x \<in> set ?act" for x
    proof -
      have "rt x \<le> disc act x" "(x, act ! (rt x - 1)) \<in> E\<^sup>*" "rt x \<noteq> 0"
        using bD(3,6,8,9) d [OF x] by auto
      then show ?thesis
        using d [OF x] by auto
    qed
    moreover have "(x \<in> D \<union> C \<Longrightarrow> (x, y) \<in> E \<Longrightarrow> y \<in> D \<union> C)" for x y
      using f(5) [of x y] bD(10) [of x y] by blast
    moreover have "?rt x = 0 \<longleftrightarrow> x \<notin> set ?act \<and> x \<notin> D \<union> C" if "x \<in> N" for x
      using bD(6) [OF that] sets big by auto
    moreover have "card N < ?rt x" if "x \<in> D \<union> C" for x
      using that bD(7) [of x] big by auto
    moreover have "distinct ?act" "set ?act \<subseteq> N" "D \<union> C \<subseteq> N" "set ?act \<inter> (D \<union> C) = {}" "E \<subseteq> N \<times> N"
      using bD(1-5) sets by auto
    ultimately show ?thesis
      unfolding scc_base_def by blast
  qed
  moreover have "scc_path E ?rt pe ?stk ?act ps"
  proof -
    have "sorted_wrt (\<lambda>p q. disc ?act q < disc ?act p) (map fst ps)"
    proof -
      have "sorted_wrt (\<lambda>p q. disc act q < disc act p) (map fst ps)"
        using pD(1) by simp
      then show ?thesis
        by (rule sorted_wrt_mono_rel [rotated]) (use ps d(1) in auto)
    qed
    moreover have "set ?stk = set ?act - fst ` set ps" "distinct ?stk"
      using pD(3,4) ina by auto
    moreover have "\<forall>(p, h)\<in>set ps. h \<longleftrightarrow> ?rt p = disc ?act p"
    proof (clarify)
      fix p h
      assume ph: "(p, h) \<in> set ps"
      then have p: "p \<in> set ?act"
        using ps [of p] by force
      show "h \<longleftrightarrow> ?rt p = disc ?act p"
        using pD(5) [of p h] ph d [OF p] by simp
    qed
    moreover have "\<forall>x\<in>set ?stk. ?rt x < disc ?act x"
    proof
      fix x
      assume x: "x \<in> set ?stk"
      show "?rt x < disc ?act x"
        using pD(6) [OF st(2) [OF x]] d(1,2) [OF st(1) [OF x]] by simp
    qed
    moreover have "?act \<noteq> [] \<longrightarrow> ps \<noteq> [] \<and> fst (last ps) = hd ?act"
    proof
      assume ne: "?act \<noteq> []"
      then have h: "act \<noteq> []" "hd ?act = hd act" "fst (last ((v, True) # ps)) = hd act" "?k \<noteq> 0"
        using pD(7) by (simp_all add: take_eq_Nil)
      moreover have "ps \<noteq> []"
      proof
        assume "ps = []"
        then have "v = hd act"
          using h(3) by simp
        then have "disc act v = 1"
          using h(1) by (cases act) (auto simp: disc_def)
        then show False
          using h(4) by simp
      qed
      ultimately show "ps \<noteq> [] \<and> fst (last ps) = hd ?act"
        by simp
    qed
    moreover have "sorted_wrt (\<lambda>x y. \<forall>p\<in>fst ` set ps. disc ?act y < disc ?act p \<longrightarrow> disc ?act x < disc ?act p) ?stk"
    proof (rule sorted_wrt_mono_rel [OF _ sorted_wrt_filter [OF pD(8)]], rule ballI)
      fix x y p
      assume xy: "x \<in> set ?stk" "y \<in> set ?stk" and p: "p \<in> fst ` set ps"
        and r: "\<forall>p\<in>fst ` set ((v, True) # ps). disc act y < disc act p \<longrightarrow> disc act x < disc act p"
      show "disc ?act y < disc ?act p \<longrightarrow> disc ?act x < disc ?act p"
        using r p d(1) [OF st(1) [OF xy(1)]] d(1) [OF st(1) [OF xy(2)]] d(1) [OF ps [OF p]] by auto
    qed
    moreover have "successively (\<lambda>q p. pe (fst p) = Some (fst q) \<and> (fst p, fst q) \<in> E) ps"
      using pD(9) by (auto simp: successively_Cons)
    moreover have "\<forall>p\<in>fst ` set ps. \<forall>x\<in>set ?act. disc ?act p \<le> disc ?act x \<longrightarrow> (p, x) \<in> E\<^sup>*"
    proof (intro ballI impI)
      fix p x
      assume px: "p \<in> fst ` set ps" "x \<in> set ?act" "disc ?act p \<le> disc ?act x"
      show "(p, x) \<in> E\<^sup>*"
        using pD(10) [of p x] px d(1,3) [OF px(2)] d(1) [OF ps [OF px(1)]] by simp
    qed
    ultimately show ?thesis
      unfolding scc_path_def using ps by blast
  qed
  moreover have "scc_edges E N ?rt pe nb ?stk ?act (D \<union> C) ps (if ps = [] then None else Some v) None"
  proof (rule scc_edgesI)
    have split: "y \<in> C \<or> y \<in> set ?act \<and> disc ?act y = disc act y" if "y \<in> set act" for y
      using that sets(1) d(1) [of y] by blast
    show "y \<in> D \<union> C \<or> y \<in> set ?act \<and> ?rt x \<le> disc ?act y" if "x \<in> set ?stk" "(x, y) \<in> E" for x y
      using eD(1) [OF st(2) [OF that(1)] that(2)] d(2) [OF st(1) [OF that(1)]] split [of y] by auto
    show "y \<in> set (nb x) \<or> None = Some y \<and> x = fst (hd ps) \<or> y \<in> D \<union> C \<or> y \<in> set ?act \<and> ?rt x \<le> disc ?act y"
      if "x \<in> fst ` set ps" "(x, y) \<in> E" for x y
    proof -
      have "x \<in> fst ` set ((v, True) # ps)" "x \<noteq> v"
        using that(1) top(2) by auto
      then show ?thesis
        using eD(2) [of x y] that(2) d(2) [OF ps [OF that(1)]] split [of y] by auto
    qed
    show "?rt q \<le> ?rt x \<or> q = fst (hd ps) \<and> (\<exists>c. (if ps = [] then None else Some v) = Some c \<and> c \<in> set ?stk \<and> ?rt c \<le> ?rt x)"
      if q: "q \<in> fst ` set ps" "x \<in> set ?stk" "disc ?act q < disc ?act x"
        and btw: "\<forall>q'\<in>fst ` set ps. disc ?act q' \<le> disc ?act q \<or> disc ?act x < disc ?act q'" for q x
    proof -
      note dq = d [OF ps [OF q(1)]] and dx = d [OF st(1) [OF q(2)]]
      have "disc act q' \<le> disc act q \<or> disc act x < disc act q'" if "q' \<in> fst ` set ps" for q'
        using btw that d(1) [OF ps [OF that]] dq(1) dx(1) by auto
      then have "rt q \<le> rt x \<or> q = fst (hd ((v, True) # ps)) \<and> (\<exists>c. None = Some c \<and> c \<in> set stk \<and> rt c \<le> rt x)"
        using q dq dx st(2) [OF q(2)] by (intro eD(3)) auto
      then show ?thesis
        using dq dx by auto
    qed
    show "ps \<noteq> [] \<and> (fst (hd ps), c) \<in> E \<and> c \<in> set ?stk \<union> (D \<union> C)" if "(if ps = [] then None else Some v) = Some c" for c
      using that pD(9) inc [of v] top(1) by (cases ps) auto
    show "(q, y) \<in> E" if "q \<in> fst ` set ps" "y \<in> set (nb q)" for q y
      using eD(6) that by simp
    show "set (nb x) = {y. (x, y) \<in> E} \<and> pe x = None" if "x \<in> N" "x \<notin> set ?act" "x \<notin> D \<union> C" for x
      using eD(7) [of x] that sets(1) by auto
  qed simp
  ultimately show ?thesis
    by (simp add: scc_inv_def)
qed

end
