(* ===== verification/Graph_Scc.thy ===== *)
theory Graph_Scc
  imports Scc_Invariant "HOL-Library.Monad_Syntax"
begin

text \<open>
  The iterator over strongly connected components (\<^verbatim>\<open>zlim-core/src/schedule/graph/scc.rs\<close>): the space-efficient variant
  of Tarjan's algorithm with an explicit visitation stack. A root is a natural number with 0 for \<^verbatim>\<open>None\<close>, which is also
  how \<^verbatim>\<open>Option<NonZeroUsize>\<close> is stored and compared. The head of the visitation list is the top of the stack; the
  node stack keeps the order of the vector. \<open>None\<close> as the result of an operation stands for a panic: a node that is not in
  the graph, an index out of range, a counter below zero.
\<close>

section \<open>The iterator\<close>

record node_data =
  nd_root :: nat
  nd_pending :: "node option"
  nd_neighbors :: "node list"

record tarjan_scc =
  tj_unchecked :: "node list"
  tj_nodes :: "node_data list"
  tj_dfs :: nat
  tj_scc :: nat
  tj_stack :: "node list"
  tj_visit :: "(node \<times> bool) list"
  tj_found :: "(nat \<times> nat) option"

definition new_tarjan_scc :: "digraph \<Rightarrow> tarjan_scc" where
  "new_tarjan_scc g =
     \<lparr>tj_unchecked = nodes g,
      tj_nodes = map (\<lambda>n. \<lparr>nd_root = 0, nd_pending = None, nd_neighbors = neighbors g n\<rparr>) (nodes g),
      tj_dfs = 1, tj_scc = 2 ^ 64 - 1, tj_stack = [], tj_visit = [], tj_found = None\<rparr>"

text \<open>\<^verbatim>\<open>self.nodes[self.graph.to_index(v)]\<close>, with its two ways to panic.\<close>

definition slot_index :: "digraph \<Rightarrow> tarjan_scc \<Rightarrow> node \<Rightarrow> nat option" where
  "slot_index g t v =
     do { i \<leftarrow> to_index g v; if i < length (tj_nodes t) then Some i else None }"

definition set_data :: "tarjan_scc \<Rightarrow> nat \<Rightarrow> (node_data \<Rightarrow> node_data) \<Rightarrow> tarjan_scc" where
  "set_data t i f = t\<lparr>tj_nodes := (tj_nodes t)[i := f (tj_nodes t ! i)]\<rparr>"

definition take_over :: "tarjan_scc \<Rightarrow> nat \<Rightarrow> nat \<Rightarrow> bool \<Rightarrow> bool \<times> tarjan_scc" where
  "take_over t iv iw v_is_local_root =
     (if nd_root (tj_nodes t ! iw) < nd_root (tj_nodes t ! iv)
      then (False, set_data t iv (\<lambda>d. d\<lparr>nd_root := nd_root (tj_nodes t ! iw)\<rparr>))
      else (v_is_local_root, t))"

text \<open>
  The loop over the neighbours of \<open>v\<close>, given those that are left. \<open>None\<close> in the result means that a neighbour has to be
  visited first; otherwise it is the final value of \<^verbatim>\<open>v_is_local_root\<close>.
\<close>

fun scan_neighbors ::
  "digraph \<Rightarrow> node \<Rightarrow> nat \<Rightarrow> node list \<Rightarrow> bool \<Rightarrow> tarjan_scc \<Rightarrow> (bool option \<times> tarjan_scc) option" where
  "scan_neighbors g v iv [] v_is_local_root t = Some (Some v_is_local_root, t)"
| "scan_neighbors g v iv (w # ws) v_is_local_root t =
     do { iw \<leftarrow> slot_index g t w;
          let t1 = set_data t iv (\<lambda>d. d\<lparr>nd_neighbors := ws\<rparr>);
          if nd_root (tj_nodes t1 ! iw) = 0
          then Some (None, set_data (t1\<lparr>tj_visit := (w, True) # (v, v_is_local_root) # tj_visit t1\<rparr>) iv
                 (\<lambda>d. d\<lparr>nd_pending := Some w\<rparr>))
          else let (l, t2) = take_over t1 iv iw v_is_local_root in scan_neighbors g v iv ws l t2 }"

text \<open>
  The search for the start of the component from the end of the stack, given here from its last element on; nodes that are
  passed get the id of the component. The result is the start, the updated data and the length.
\<close>

fun sweep_stack ::
  "digraph \<Rightarrow> nat \<Rightarrow> nat \<Rightarrow> node list \<Rightarrow> nat \<Rightarrow> tarjan_scc \<Rightarrow> (nat \<times> nat \<times> tarjan_scc) option" where
  "sweep_stack g iv scc_id [] scc_len t = Some (0, scc_len, t)"
| "sweep_stack g iv scc_id (w # ws) scc_len t =
     do { iw \<leftarrow> slot_index g t w;
          if nd_root (tj_nodes t ! iw) < nd_root (tj_nodes t ! iv) then Some (length (w # ws), scc_len, t)
          else sweep_stack g iv scc_id ws (Suc scc_len) (set_data t iw (\<lambda>d. d\<lparr>nd_root := scc_id\<rparr>)) }"

text \<open>The steps of \<^verbatim>\<open>visit_once\<close>: a first visit, the neighbour that had to be visited first, and leaving the node.\<close>

definition assign_root :: "nat \<Rightarrow> tarjan_scc \<Rightarrow> tarjan_scc" where
  "assign_root iv t =
     (if nd_root (tj_nodes t ! iv) = 0
      then (set_data t iv (\<lambda>d. d\<lparr>nd_root := tj_dfs t\<rparr>))\<lparr>tj_dfs := tj_dfs t + 1\<rparr> else t)"

definition take_pending :: "digraph \<Rightarrow> nat \<Rightarrow> bool \<Rightarrow> tarjan_scc \<Rightarrow> (bool \<times> tarjan_scc) option" where
  "take_pending g iv v_is_local_root t =
     (case nd_pending (tj_nodes t ! iv) of
        None \<Rightarrow> Some (v_is_local_root, t)
      | Some w \<Rightarrow>
          do { iw \<leftarrow> slot_index g t w;
               Some (take_over (set_data t iv (\<lambda>d. d\<lparr>nd_pending := None\<rparr>)) iv iw v_is_local_root) })"

definition leave_node :: "digraph \<Rightarrow> node \<Rightarrow> nat \<Rightarrow> bool \<Rightarrow> tarjan_scc \<Rightarrow> (nat option \<times> tarjan_scc) option" where
  "leave_node g v iv v_is_local_root t =
     (if \<not> v_is_local_root then Some (None, t\<lparr>tj_stack := tj_stack t @ [v]\<rparr>)
      else
        do { (start, scc_len, t1) \<leftarrow> sweep_stack g iv (tj_scc t) (rev (tj_stack t)) 1 t;
             let t2 = set_data t1 iv (\<lambda>d. d\<lparr>nd_root := tj_scc t\<rparr>);
             Some (Some start, t2\<lparr>tj_stack := tj_stack t2 @ [v], tj_found := Some (start, scc_len)\<rparr>) })"

definition visit_once :: "digraph \<Rightarrow> node \<Rightarrow> bool \<Rightarrow> tarjan_scc \<Rightarrow> (nat option \<times> tarjan_scc) option" where
  "visit_once g v v_is_local_root t =
     do { iv \<leftarrow> slot_index g t v;
          (l, t1) \<leftarrow> take_pending g iv v_is_local_root (assign_root iv t);
          (r, t2) \<leftarrow> scan_neighbors g v iv (nd_neighbors (tj_nodes t1 ! iv)) l t1;
          (case r of None \<Rightarrow> Some (None, t2) | Some l' \<Rightarrow> leave_node g v iv l' t2) }"

section \<open>The work left\<close>

definition work :: "tarjan_scc \<Rightarrow> nat" where
  "work t = 2 * sum_list (map (\<lambda>d. length (nd_neighbors d)) (tj_nodes t)) + length (tj_visit t) + 2 * length (tj_unchecked t)"

lemma sum_list_update_nat: "i < length xs \<Longrightarrow> sum_list (map f (xs[i := y])) + f (xs ! i) = sum_list (map f xs) + f y"
  for f :: "'a \<Rightarrow> nat"
  by (induction xs arbitrary: i) (auto split: nat.splits simp: nth_Cons')

lemma set_data_work:
  assumes "i < length (tj_nodes t)"
  shows "work (set_data t i f) + 2 * length (nd_neighbors (tj_nodes t ! i)) = work t + 2 * length (nd_neighbors (f (tj_nodes t ! i)))"
  using sum_list_update_nat [OF assms, of "\<lambda>d. length (nd_neighbors d)" "f (tj_nodes t ! i)"]
  by (simp add: work_def set_data_def)

lemma set_data_sel [simp]:
  "length (tj_nodes (set_data t i f)) = length (tj_nodes t)" "tj_visit (set_data t i f) = tj_visit t"
  "tj_unchecked (set_data t i f) = tj_unchecked t" "tj_stack (set_data t i f) = tj_stack t" "tj_dfs (set_data t i f) = tj_dfs t"
  "tj_scc (set_data t i f) = tj_scc t" "tj_found (set_data t i f) = tj_found t"
  by (simp_all add: set_data_def)

lemma set_data_nth: "tj_nodes (set_data t i f) ! j = (if j = i \<and> i < length (tj_nodes t) then f (tj_nodes t ! i) else tj_nodes t ! j)"
  by (cases "i < length (tj_nodes t)") (auto simp: set_data_def nth_list_update list_update_beyond)

lemma slot_index_range: "slot_index g t v = Some i \<Longrightarrow> i < length (tj_nodes t)"
  by (auto simp: slot_index_def bind_eq_Some_conv split: if_splits)

lemma take_over_work:
  "i < length (tj_nodes t) \<Longrightarrow> take_over t i j l = (l', t') \<Longrightarrow>
     work t' = work t \<and> length (tj_nodes t') = length (tj_nodes t) \<and> nd_neighbors (tj_nodes t' ! k) = nd_neighbors (tj_nodes t ! k)"
  using set_data_work [of i t "\<lambda>d. d\<lparr>nd_root := nd_root (tj_nodes t ! j)\<rparr>"]
  by (auto simp: take_over_def set_data_nth split: if_splits)

lemma scan_work:
  "scan_neighbors g v iv ws l t = Some (r, t') \<Longrightarrow> iv < length (tj_nodes t) \<Longrightarrow> nd_neighbors (tj_nodes t ! iv) = ws \<Longrightarrow> work t' \<le> work t"
proof (induction g v iv ws l t rule: scan_neighbors.induct)
  case (2 g v iv w ws l t)
  let ?t1 = "set_data t iv (\<lambda>d. d\<lparr>nd_neighbors := ws\<rparr>)"
  have t1: "work ?t1 + 2 = work t" "iv < length (tj_nodes ?t1)" "nd_neighbors (tj_nodes ?t1 ! iv) = ws"
    using set_data_work [OF 2(3), of "\<lambda>d. d\<lparr>nd_neighbors := ws\<rparr>"] 2(3,4) by (simp_all add: set_data_nth)
  obtain iw where iw: "slot_index g t w = Some iw"
    using 2(2) by (auto simp: bind_eq_Some_conv)
  show ?case
  proof (cases "nd_root (tj_nodes ?t1 ! iw) = 0")
    case True
    let ?t2 = "?t1\<lparr>tj_visit := (w, True) # (v, l) # tj_visit ?t1\<rparr>"
    have "t' = set_data ?t2 iv (\<lambda>d. d\<lparr>nd_pending := Some w\<rparr>)"
      using 2(2) iw True by (simp add: Let_def)
    moreover have "work ?t2 = work ?t1 + 2"
      by (simp add: work_def)
    ultimately show ?thesis
      using set_data_work [of iv ?t2 "\<lambda>d. d\<lparr>nd_pending := Some w\<rparr>"] t1(1,2) by simp
  next
    case False
    obtain l2 t2 where r: "take_over ?t1 iv iw l = (l2, t2)"
      by fastforce
    then have "scan_neighbors g v iv ws l2 t2 = Some (r, t')"
      using 2(2) iw False by (simp add: Let_def)
    then have "work t' \<le> work t2"
      using 2(1) [OF iw refl False r [symmetric] refl] take_over_work [OF t1(2) r] t1(2,3) by simp
    then show ?thesis
      using take_over_work [OF t1(2) r] t1(1) by simp
  qed
qed simp

lemma sweep_work:
  "sweep_stack g iv sid ws n t = Some (s, m, t') \<Longrightarrow> work t' = work t \<and> length (tj_nodes t') = length (tj_nodes t)"
proof (induction g iv sid ws n t rule: sweep_stack.induct)
  case (2 g iv sid w ws n t)
  obtain iw where iw: "slot_index g t w = Some iw"
    using 2(2) by (auto simp: bind_eq_Some_conv)
  then show ?case
    using 2 set_data_work [OF slot_index_range [OF iw], of "\<lambda>d. d\<lparr>nd_root := sid\<rparr>"] by (auto split: if_splits)
qed simp

lemma visit_once_work:
  assumes "visit_once g v l t = Some (r, t')"
  shows "work t' \<le> work t"
proof -
  obtain iv l1 t1 q t2 where st: "slot_index g t v = Some iv" "take_pending g iv l (assign_root iv t) = Some (l1, t1)"
    "scan_neighbors g v iv (nd_neighbors (tj_nodes t1 ! iv)) l1 t1 = Some (q, t2)"
    "(case q of None \<Rightarrow> Some (None, t2) | Some l' \<Rightarrow> leave_node g v iv l' t2) = Some (r, t')"
    using assms by (auto simp: visit_once_def bind_eq_Some_conv)
  let ?a = "assign_root iv t"
  have a: "work ?a = work t" "iv < length (tj_nodes ?a)"
    using set_data_work [OF slot_index_range [OF st(1)], of "\<lambda>d. d\<lparr>nd_root := tj_dfs t\<rparr>"] slot_index_range [OF st(1)]
    by (auto simp: assign_root_def work_def)
  have w1: "work t1 = work ?a" "iv < length (tj_nodes t1)"
    using st(2) a(2) take_over_work [of iv "set_data ?a iv (\<lambda>d. d\<lparr>nd_pending := None\<rparr>)"]
      set_data_work [OF a(2), of "\<lambda>d. d\<lparr>nd_pending := None\<rparr>"]
    by (auto simp: take_pending_def bind_eq_Some_conv split: option.splits)
  have w2: "work t2 \<le> work t1"
    using scan_work [OF st(3) w1(2) refl] .
  have stk: "work (t\<lparr>tj_stack := s\<rparr>) = work t" "work (t\<lparr>tj_stack := s, tj_found := fnd\<rparr>) = work t" for t s fnd
    by (simp_all add: work_def)
  have roots: "work (set_data t i (\<lambda>d. d\<lparr>nd_root := x\<rparr>)) = work t" for t i x
    by (cases "i < length (tj_nodes t)") (use set_data_work [of i t "\<lambda>d. d\<lparr>nd_root := x\<rparr>"] in \<open>auto simp: set_data_def work_def list_update_beyond\<close>)
  have "work t' = work t2"
    using st(4) by (auto simp: leave_node_def bind_eq_Some_conv stk roots dest!: sweep_work split: option.splits if_splits)
  then show ?thesis
    using w2 w1(1) a(1) by simp
qed

section \<open>The next component\<close>

text \<open>The loop of \<^verbatim>\<open>next_scc\<close> after its cleanup.\<close>

function search :: "digraph \<Rightarrow> tarjan_scc \<Rightarrow> (node list option \<times> tarjan_scc) option" where
  "search g t =
     (case tj_visit t of
        (v, l) # vs \<Rightarrow>
          (case visit_once g v l (t\<lparr>tj_visit := vs\<rparr>) of
             None \<Rightarrow> None
           | Some (Some start, t') \<Rightarrow> Some (Some (drop start (tj_stack t')), t')
           | Some (None, t') \<Rightarrow> search g t')
      | [] \<Rightarrow>
          (case tj_unchecked t of
             [] \<Rightarrow> Some (None, t)
           | n # ns \<Rightarrow>
               (case slot_index g t n of
                  None \<Rightarrow> None
                | Some i \<Rightarrow>
                    if nd_root (tj_nodes t ! i) = 0 then search g (t\<lparr>tj_unchecked := ns, tj_visit := [(n, True)]\<rparr>)
                    else search g (t\<lparr>tj_unchecked := ns\<rparr>))))"
  by pat_completeness auto
termination
  by (relation "measure (\<lambda>(g, t). work t)") (auto simp: work_def dest!: visit_once_work)

declare search.simps [simp del]

text \<open>The cleanup at the start of \<^verbatim>\<open>next_scc\<close>; the two subtractions panic below zero.\<close>

definition cleanup :: "tarjan_scc \<Rightarrow> tarjan_scc option" where
  "cleanup t =
     (case tj_found t of
        None \<Rightarrow> Some t
      | Some (start, len) \<Rightarrow>
          if len \<le> tj_dfs t \<and> 1 \<le> tj_scc t
          then Some (t\<lparr>tj_found := None, tj_stack := take start (tj_stack t), tj_dfs := tj_dfs t - len, tj_scc := tj_scc t - 1\<rparr>)
          else None)"

definition next_scc :: "digraph \<Rightarrow> tarjan_scc \<Rightarrow> (node list option \<times> tarjan_scc) option" where
  "next_scc g t = do { t1 \<leftarrow> cleanup t; search g t1 }"

lemma search_work: "search g t = Some (r, t') \<Longrightarrow> (if r = None then work t' \<le> work t else work t' < work t)"
proof (induction g t rule: search.induct)
  case (1 g t)
  show ?case
  proof (cases "tj_visit t")
    case Nil
    show ?thesis
    proof (cases "tj_unchecked t")
      case (Cons n ns)
      have w: "work (t\<lparr>tj_unchecked := ns, tj_visit := [(n, True)]\<rparr>) < work t" "work (t\<lparr>tj_unchecked := ns\<rparr>) < work t"
        using Nil Cons by (simp_all add: work_def)
      obtain i where i: "slot_index g t n = Some i"
        using 1(4) Nil Cons by (auto simp: search.simps [of g t] split: option.splits)
      show ?thesis
      proof (cases "nd_root (tj_nodes t ! i) = 0")
        case True
        then show ?thesis
          using 1(1) [OF Nil Cons i True] 1(4) Nil Cons i w(1) by (auto simp: search.simps [of g t] split: if_splits)
      next
        case False
        then show ?thesis
          using 1(2) [OF Nil Cons i False] 1(4) Nil Cons i w(2) by (auto simp: search.simps [of g t] split: if_splits)
      qed
    qed (use 1(4) Nil in \<open>auto simp: search.simps [of g t]\<close>)
  next
    case (Cons p vs)
    obtain v l where p: "p = (v, l)"
      by fastforce
    then obtain q t1 where v: "visit_once g v l (t\<lparr>tj_visit := vs\<rparr>) = Some (q, t1)"
      using 1(4) Cons by (auto simp: search.simps [of g t] split: option.splits)
    have "work t1 < work t"
      using visit_once_work [OF v] Cons by (simp add: work_def)
    then show ?thesis
      using 1(3) [OF Cons p [symmetric] v refl] 1(4) Cons p v by (cases q) (auto simp: search.simps [of g t] split: if_splits)
  qed
qed

lemma next_scc_work: "next_scc g t = Some (Some scc, t') \<Longrightarrow> work t' < work t"
  by (auto simp: next_scc_def cleanup_def bind_eq_Some_conv work_def dest!: search_work split: option.splits if_splits)

text \<open>Everything the iterator yields from a state on.\<close>

function drain_sccs :: "digraph \<Rightarrow> tarjan_scc \<Rightarrow> node list list option" where
  "drain_sccs g t =
     (case next_scc g t of
        None \<Rightarrow> None
      | Some (None, t') \<Rightarrow> Some []
      | Some (Some scc, t') \<Rightarrow> map_option ((#) scc) (drain_sccs g t'))"
  by pat_completeness auto
termination
  by (relation "measure (\<lambda>(g, t). work t)") (auto dest!: next_scc_work)

declare drain_sccs.simps [simp del]

definition iter_sccs :: "digraph \<Rightarrow> node list list option" where
  "iter_sccs g = drain_sccs g (new_tarjan_scc g)"

end
