(* ===== verification/Scc_Correct.thy ===== *)
theory Scc_Correct
  imports Graph_Scc
begin

text \<open>
  The iterator over strongly connected components keeps the invariant of the search, and so yields every
  component exactly once, each after the components it leads to.
\<close>

section \<open>The arrays as functions of a node\<close>

definition rt_of :: "digraph \<Rightarrow> tarjan_scc \<Rightarrow> node \<Rightarrow> nat" where
  "rt_of g t x = (case slot_index g t x of Some i \<Rightarrow> nd_root (tj_nodes t ! i) | None \<Rightarrow> 0)"

definition pe_of :: "digraph \<Rightarrow> tarjan_scc \<Rightarrow> node \<Rightarrow> node option" where
  "pe_of g t x = (case slot_index g t x of Some i \<Rightarrow> nd_pending (tj_nodes t ! i) | None \<Rightarrow> None)"

definition nb_of :: "digraph \<Rightarrow> tarjan_scc \<Rightarrow> node \<Rightarrow> node list" where
  "nb_of g t x = (case slot_index g t x of Some i \<Rightarrow> nd_neighbors (tj_nodes t ! i) | None \<Rightarrow> [])"

lemmas node_views = rt_of_def pe_of_def nb_of_def

lemma to_index_inject: "to_index g x = Some i \<Longrightarrow> to_index g y = Some i \<Longrightarrow> x = y"
  using position_Some [of "\<lambda>e. fst e = x" "g_nodes g" i] position_Some [of "\<lambda>e. fst e = y" "g_nodes g" i]
  by (simp add: to_index_def)

lemma slot_index_inject: "slot_index g t x = Some i \<Longrightarrow> slot_index g t' y = Some i \<Longrightarrow> x = y"
  by (auto simp: slot_index_def bind_eq_Some_conv split: if_splits intro: to_index_inject)

lemma slot_index_node:
  assumes "length (tj_nodes t) = length (nodes g)" "x \<in> set (nodes g)"
  obtains i where "slot_index g t x = Some i" "i < length (tj_nodes t)"
proof -
  obtain i where "to_index g x = Some i"
    using assms(2) position_None [of "\<lambda>e. fst e = x" "g_nodes g"] by (cases "to_index g x") (auto simp: to_index_def nodes_def)
  moreover from this have "i < length (nodes g)"
    using position_Some [of "\<lambda>e. fst e = x" "g_nodes g" i] by (simp add: to_index_def nodes_def)
  ultimately show ?thesis
    using that assms(1) by (simp add: slot_index_def)
qed

lemma slot_index_length: "length (tj_nodes t') = length (tj_nodes t) \<Longrightarrow> slot_index g t' = slot_index g t"
  by (simp add: fun_eq_iff slot_index_def)

lemma slot_index_sel [simp]:
  "slot_index g (set_data t i f) = slot_index g t" "slot_index g (t\<lparr>tj_visit := vs\<rparr>) = slot_index g t"
  "slot_index g (t\<lparr>tj_stack := st\<rparr>) = slot_index g t" "slot_index g (t\<lparr>tj_dfs := k\<rparr>) = slot_index g t"
  "slot_index g (t\<lparr>tj_scc := k\<rparr>) = slot_index g t" "slot_index g (t\<lparr>tj_found := fd\<rparr>) = slot_index g t"
  "slot_index g (t\<lparr>tj_unchecked := us\<rparr>) = slot_index g t"
  by (rule slot_index_length; simp)+

lemma views_sel [simp]:
  "rt_of g (t\<lparr>tj_visit := vs\<rparr>) = rt_of g t" "rt_of g (t\<lparr>tj_stack := st\<rparr>) = rt_of g t" "rt_of g (t\<lparr>tj_dfs := k\<rparr>) = rt_of g t"
  "rt_of g (t\<lparr>tj_scc := k\<rparr>) = rt_of g t" "rt_of g (t\<lparr>tj_found := fd\<rparr>) = rt_of g t" "rt_of g (t\<lparr>tj_unchecked := us\<rparr>) = rt_of g t"
  "pe_of g (t\<lparr>tj_visit := vs\<rparr>) = pe_of g t" "pe_of g (t\<lparr>tj_stack := st\<rparr>) = pe_of g t" "pe_of g (t\<lparr>tj_dfs := k\<rparr>) = pe_of g t"
  "pe_of g (t\<lparr>tj_scc := k\<rparr>) = pe_of g t" "pe_of g (t\<lparr>tj_found := fd\<rparr>) = pe_of g t" "pe_of g (t\<lparr>tj_unchecked := us\<rparr>) = pe_of g t"
  "nb_of g (t\<lparr>tj_visit := vs\<rparr>) = nb_of g t" "nb_of g (t\<lparr>tj_stack := st\<rparr>) = nb_of g t" "nb_of g (t\<lparr>tj_dfs := k\<rparr>) = nb_of g t"
  "nb_of g (t\<lparr>tj_scc := k\<rparr>) = nb_of g t" "nb_of g (t\<lparr>tj_found := fd\<rparr>) = nb_of g t" "nb_of g (t\<lparr>tj_unchecked := us\<rparr>) = nb_of g t"
  by (simp_all add: fun_eq_iff node_views split: option.splits)

lemma views_set_data:
  assumes "slot_index g t v = Some i"
  shows "rt_of g (set_data t i f) = (rt_of g t)(v := nd_root (f (tj_nodes t ! i)))"
    "pe_of g (set_data t i f) = (pe_of g t)(v := nd_pending (f (tj_nodes t ! i)))"
    "nb_of g (set_data t i f) = (nb_of g t)(v := nd_neighbors (f (tj_nodes t ! i)))"
proof -
  have only: "slot_index g t x = Some i \<longleftrightarrow> x = v" for x
    using assms slot_index_inject [where t = t and t' = t] by metis
  have at: "tj_nodes (set_data t i f) ! j = (if j = i then f (tj_nodes t ! i) else tj_nodes t ! j)" for j
    using slot_index_range [OF assms] by (simp add: set_data_nth)
  show "rt_of g (set_data t i f) = (rt_of g t)(v := nd_root (f (tj_nodes t ! i)))"
    "pe_of g (set_data t i f) = (pe_of g t)(v := nd_pending (f (tj_nodes t ! i)))"
    "nb_of g (set_data t i f) = (nb_of g t)(v := nd_neighbors (f (tj_nodes t ! i)))"
    by (rule ext; auto simp: node_views at only assms split: option.split)+
qed

lemma views_slot:
  assumes "slot_index g t v = Some i"
  shows "nd_root (tj_nodes t ! i) = rt_of g t v" "nd_pending (tj_nodes t ! i) = pe_of g t v"
    "nd_neighbors (tj_nodes t ! i) = nb_of g t v"
  using assms by (simp_all add: node_views)

definition tj_inv :: "digraph \<Rightarrow> tarjan_scc \<Rightarrow> node list \<Rightarrow> node set \<Rightarrow> (node \<times> bool) list \<Rightarrow> node option \<Rightarrow> node option \<Rightarrow> bool" where
  "tj_inv g t act D path exc fresh \<longleftrightarrow> digraph_inv g \<and> length (tj_nodes t) = length (nodes g)
     \<and> scc_inv (g_edges g) (set (nodes g)) (rt_of g t) (pe_of g t) (nb_of g t) (tj_stack t) act D path exc fresh"

lemma tj_invD:
  assumes "tj_inv g t act D path exc fresh"
  shows "digraph_inv g" "length (tj_nodes t) = length (nodes g)"
    "scc_inv (g_edges g) (set (nodes g)) (rt_of g t) (pe_of g t) (nb_of g t) (tj_stack t) act D path exc fresh"
  using assms by (simp_all add: tj_inv_def)

lemma tj_edge_slot:
  assumes "tj_inv g t act D path exc fresh" "(v, w) \<in> g_edges g"
  obtains i where "slot_index g t w = Some i" "w \<in> set (nodes g)"
  using assms edge_nodes(2) tj_invD(1,2) slot_index_node by metis

section \<open>Looking at neighbours\<close>

text \<open>A smaller root is always the root of an active node.\<close>

lemma root_active:
  assumes b: "scc_base E N rt act D" and fin: "finite N" and v: "v \<in> set act" and w: "w \<in> N" "rt w \<noteq> 0" "rt w < rt v"
  shows "w \<in> set act"
proof -
  have "rt v \<le> length act"
    using scc_baseD(8) [OF b v] disc_mem(1) [OF v] by simp
  also have "length act \<le> card N"
    using scc_baseD(2,3) [OF b] card_mono [OF fin, of "set act"] distinct_card [of act] by simp
  finally show ?thesis
    using scc_baseD(6,7) [OF b, of w] w by auto
qed

text \<open>Comparing the topmost node with a visited successor.\<close>

lemma take_over_ok:
  assumes inv: "tj_inv g t act D ((v, f) # ps) exc None" and iv: "slot_index g t v = Some iv"
    and w: "(v, w) \<in> g_edges g" "slot_index g t w = Some iw" "rt_of g t w \<noteq> 0"
  obtains f' t' where "take_over t iv iw f = (f', t')" "tj_inv g t' act D ((v, f') # ps) exc None"
    "rt_of g t' v \<le> rt_of g t w" "\<forall>x. x \<noteq> v \<longrightarrow> rt_of g t' x = rt_of g t x" "pe_of g t' = pe_of g t" "nb_of g t' = nb_of g t"
    "length (tj_nodes t') = length (tj_nodes t)" "tj_visit t' = tj_visit t" "tj_unchecked t' = tj_unchecked t" "tj_stack t' = tj_stack t"
    "tj_dfs t' = tj_dfs t" "tj_scc t' = tj_scc t" "tj_found t' = tj_found t"
proof (cases "rt_of g t w < rt_of g t v")
  case True
  let ?t = "set_data t iv (\<lambda>d. d\<lparr>nd_root := nd_root (tj_nodes t ! iw)\<rparr>)"
  note i = tj_invD(3) [OF inv]
  have "w \<in> set act"
    using root_active [OF scc_invD(1) [OF i] _ top_apart(1) [OF scc_invD(2) [OF i]] _ w(3) True]
      edge_nodes(2) [OF tj_invD(1) [OF inv] w(1)] by simp
  then have "scc_inv (g_edges g) (set (nodes g)) ((rt_of g t)(v := rt_of g t w)) (pe_of g t) (nb_of g t) (tj_stack t) act D
      ((v, False) # ps) exc None"
    by (rule scc_lower [OF i w(1) _ True])
  moreover have e: "rt_of g ?t = (rt_of g t)(v := rt_of g t w)" "pe_of g ?t = pe_of g t" "nb_of g ?t = nb_of g t"
    using views_slot [OF w(2)] views_slot [OF iv] by (simp_all add: views_set_data [OF iv])
  ultimately have "tj_inv g ?t act D ((v, False) # ps) exc None"
    using tj_invD(1,2) [OF inv] by (simp add: tj_inv_def)
  moreover have "take_over t iv iw f = (False, ?t)"
    using True views_slot(1) [OF w(2)] views_slot(1) [OF iv] by (simp add: take_over_def)
  ultimately show ?thesis
    using that [of False ?t] e by simp
next
  case False
  then have "take_over t iv iw f = (f, t)"
    using views_slot(1) [OF w(2)] views_slot(1) [OF iv] by (simp add: take_over_def)
  then show ?thesis
    using that [of f t] False inv by simp
qed

lemma root_neighbors_commute: "d\<lparr>nd_neighbors := ws, nd_root := r\<rparr> = d\<lparr>nd_root := r, nd_neighbors := ws\<rparr>" for d :: node_data
  by (cases d) simp

lemma take_over_swap:
  "iv < length (tj_nodes t) \<Longrightarrow> take_over t iv iw f = (f', t') \<Longrightarrow>
    take_over (set_data t iv (\<lambda>d. d\<lparr>nd_neighbors := ws\<rparr>)) iv iw f = (f', set_data t' iv (\<lambda>d. d\<lparr>nd_neighbors := ws\<rparr>))"
  by (auto simp: take_over_def set_data_def nth_list_update root_neighbors_commute split: if_splits)

text \<open>The loop over the neighbours ends with an unvisited one on the visitation stack, or with none left.\<close>

lemma scan_neighbors_ok:
  assumes "tj_inv g t act D ((v, f) # ps) None None" "slot_index g t v = Some iv" "nb_of g t v = ws"
  shows "\<exists>r t'. scan_neighbors g v iv ws f t = Some (r, t') \<and> tj_unchecked t' = tj_unchecked t \<and> tj_dfs t' = tj_dfs t
      \<and> tj_scc t' = tj_scc t \<and> tj_found t' = tj_found t
      \<and> (case r of
           None \<Rightarrow> \<exists>w f'. tj_visit t' = (w, True) # (v, f') # tj_visit t \<and> tj_inv g t' act D ((v, f') # ps) None (Some w)
         | Some f' \<Rightarrow> tj_visit t' = tj_visit t \<and> tj_inv g t' act D ((v, f') # ps) None None \<and> nb_of g t' v = [])"
  using assms
proof (induction ws arbitrary: f t)
  case (Cons w ws)
  note inv = tj_invD [OF Cons(2)] and iv = Cons(3)
  have vw: "(v, w) \<in> g_edges g"
    using scc_edgesD(6) [OF scc_invD(3) [OF inv(3)], of v w] Cons(4) by simp
  obtain iw where iw: "slot_index g t w = Some iw" "w \<in> set (nodes g)"
    by (rule tj_edge_slot [OF Cons(2) vw])
  let ?t1 = "set_data t iv (\<lambda>d. d\<lparr>nd_neighbors := ws\<rparr>)"
  have e1: "rt_of g ?t1 = rt_of g t" "pe_of g ?t1 = pe_of g t" "nb_of g ?t1 = (nb_of g t)(v := ws)"
    using views_slot [OF iv] by (simp_all add: views_set_data [OF iv])
  have root: "nd_root (tj_nodes ?t1 ! iw) = rt_of g t w"
    using views_slot(1) [of g ?t1 w iw] iw(1) e1(1) by simp
  show ?case
  proof (cases "rt_of g t w = 0")
    case True
    let ?t2 = "?t1\<lparr>tj_visit := (w, True) # (v, f) # tj_visit t\<rparr>"
    let ?t3 = "set_data ?t2 iv (\<lambda>d. d\<lparr>nd_pending := Some w\<rparr>)"
    have iv2: "slot_index g ?t2 v = Some iv"
      using iv by simp
    have "rt_of g ?t3 = rt_of g t" "pe_of g ?t3 = (pe_of g t)(v := Some w)" "nb_of g ?t3 = (nb_of g t)(v := ws)"
      using e1 views_slot [OF iv2] by (simp_all add: views_set_data [OF iv2])
    then have "tj_inv g ?t3 act D ((v, f) # ps) None (Some w)"
      using scc_descend [OF inv(3) Cons(4) True] inv(1,2) by (simp add: tj_inv_def)
    moreover have "scan_neighbors g v iv (w # ws) f t = Some (None, ?t3)"
      using iw(1) root True by (simp add: Let_def)
    ultimately show ?thesis
      by auto
  next
    case False
    have act: "w \<in> D \<or> w \<in> set act"
      using scc_baseD(6) [OF scc_invD(1) [OF inv(3)] iw(2)] False by blast
    have iv1: "slot_index g ?t1 v = Some iv"
      using iv by simp
    obtain f1 t1 where o: "take_over t iv iw f = (f1, t1)" "tj_inv g t1 act D ((v, f1) # ps) None None" "rt_of g t1 v \<le> rt_of g t w"
      "\<forall>x. x \<noteq> v \<longrightarrow> rt_of g t1 x = rt_of g t x" "pe_of g t1 = pe_of g t" "nb_of g t1 = nb_of g t"
      "length (tj_nodes t1) = length (tj_nodes t)" "tj_visit t1 = tj_visit t" "tj_unchecked t1 = tj_unchecked t" "tj_stack t1 = tj_stack t"
      "tj_dfs t1 = tj_dfs t" "tj_scc t1 = tj_scc t" "tj_found t1 = tj_found t"
      by (rule take_over_ok [OF Cons(2) iv vw iw(1) False])
    let ?t2 = "set_data t1 iv (\<lambda>d. d\<lparr>nd_neighbors := ws\<rparr>)"
    have swap: "take_over ?t1 iv iw f = (f1, ?t2)"
      using slot_index_range [OF iv] o(1) by (rule take_over_swap)
    have iv2: "slot_index g t1 v = Some iv"
      using slot_index_length [OF o(7), of g] iv by simp
    have e2: "rt_of g ?t2 = rt_of g t1" "pe_of g ?t2 = pe_of g t1" "nb_of g ?t2 = (nb_of g t1)(v := ws)"
      using views_slot [OF iv2] by (simp_all add: views_set_data [OF iv2])
    have "w \<in> D \<or> w \<in> set act \<and> rt_of g t1 v \<le> disc act w"
      using act o(3) scc_baseD(8) [OF scc_invD(1) [OF inv(3)], of w] by fastforce
    then have "tj_inv g ?t2 act D ((v, f1) # ps) None None"
      using scc_examined [OF tj_invD(3) [OF o(2)], of w ws] tj_invD(1,2) [OF o(2)] e2 o(6) Cons(4) by (simp add: tj_inv_def)
    then have "\<exists>r t'. scan_neighbors g v iv ws f1 ?t2 = Some (r, t') \<and> tj_unchecked t' = tj_unchecked ?t2 \<and> tj_dfs t' = tj_dfs ?t2
      \<and> tj_scc t' = tj_scc ?t2 \<and> tj_found t' = tj_found ?t2
      \<and> (case r of
           None \<Rightarrow> \<exists>w f'. tj_visit t' = (w, True) # (v, f') # tj_visit ?t2 \<and> tj_inv g t' act D ((v, f') # ps) None (Some w)
         | Some f' \<Rightarrow> tj_visit t' = tj_visit ?t2 \<and> tj_inv g t' act D ((v, f') # ps) None None \<and> nb_of g t' v = [])"
      using Cons(1) [of ?t2 f1] iv2 e2(3) by simp
    moreover have "scan_neighbors g v iv (w # ws) f t = scan_neighbors g v iv ws f1 ?t2"
      using iw(1) root False swap by (simp add: Let_def)
    ultimately show ?thesis
      unfolding set_data_sel o(8,9,11-13) by (simp only:)
  qed
qed (auto intro!: exI)

section \<open>Entering a node\<close>

definition same_frame :: "tarjan_scc \<Rightarrow> tarjan_scc \<Rightarrow> bool" where
  "same_frame t t' \<longleftrightarrow> tj_unchecked t' = tj_unchecked t \<and> tj_scc t' = tj_scc t \<and> tj_found t' = tj_found t"

lemma take_pending_ok:
  assumes inv: "tj_inv g t act D ((v, f) # ps) exc None" and iv: "slot_index g t v = Some iv" and exc: "pe_of g t v = exc"
  obtains f' t' where "take_pending g iv f t = Some (f', t')" "tj_inv g t' act D ((v, f') # ps) None None"
    "slot_index g t' v = Some iv" "same_frame t t'" "tj_visit t' = tj_visit t" "tj_dfs t' = tj_dfs t"
proof (cases exc)
  case None
  then have "take_pending g iv f t = Some (f, t)"
    using views_slot(2) [OF iv] exc by (simp add: take_pending_def)
  then show ?thesis
    using that [of f t] inv iv None by (simp add: same_frame_def)
next
  case (Some c)
  note i = tj_invD(3) [OF inv]
  have c: "(v, c) \<in> g_edges g" "c \<in> set (tj_stack t) \<union> D"
    using scc_edgesD(4) [OF scc_invD(3) [OF i] Some] by auto
  obtain ic where ic: "slot_index g t c = Some ic" "c \<in> set (nodes g)"
    by (rule tj_edge_slot [OF inv c(1)])
  have cv: "c \<in> set (tj_stack t) \<Longrightarrow> c \<noteq> v"
    using top_apart(3) [OF scc_invD(2) [OF i]] by blast
  have "c \<in> set act \<union> D"
    using c(2) scc_pathD(3) [OF scc_invD(2) [OF i]] by blast
  then have r: "rt_of g t c \<noteq> 0"
    using scc_baseD(6) [OF scc_invD(1) [OF i] ic(2)] by blast
  let ?t1 = "set_data t iv (\<lambda>d. d\<lparr>nd_pending := None\<rparr>)"
  have e: "rt_of g ?t1 = rt_of g t" "pe_of g ?t1 = (pe_of g t)(v := None)" "nb_of g ?t1 = nb_of g t"
    using views_slot [OF iv] by (simp_all add: views_set_data [OF iv])
  have inv1: "tj_inv g ?t1 act D ((v, f) # ps) exc None"
    using scc_pending [OF i, of None] e tj_invD(1,2) [OF inv] by (simp add: tj_inv_def)
  have iv1: "slot_index g ?t1 v = Some iv" and ic1: "slot_index g ?t1 c = Some ic" and r1: "rt_of g ?t1 c \<noteq> 0"
    using iv ic(1) r e(1) by simp_all
  obtain f' t' where o: "take_over ?t1 iv ic f = (f', t')" "tj_inv g t' act D ((v, f') # ps) exc None"
    "rt_of g t' v \<le> rt_of g ?t1 c" "\<forall>x. x \<noteq> v \<longrightarrow> rt_of g t' x = rt_of g ?t1 x"
    "length (tj_nodes t') = length (tj_nodes ?t1)" "tj_visit t' = tj_visit ?t1" "tj_unchecked t' = tj_unchecked ?t1"
    "tj_stack t' = tj_stack ?t1" "tj_dfs t' = tj_dfs ?t1" "tj_scc t' = tj_scc ?t1" "tj_found t' = tj_found ?t1"
    by (rule take_over_ok [OF inv1 iv1 c(1) ic1 r1])
  have "rt_of g t' v \<le> rt_of g t' c" if "c \<in> set (tj_stack t')"
    using o(3,4,8) cv that by simp
  then have "tj_inv g t' act D ((v, f') # ps) None None"
    using scc_absorb [of "g_edges g" "set (nodes g)" "rt_of g t'" _ _ "tj_stack t'" act D v f' ps c] o(2) Some by (auto simp: tj_inv_def)
  moreover have "take_pending g iv f t = Some (f', t')"
    using views_slot(2) [OF iv] exc Some ic(1) o(1) by (simp add: take_pending_def)
  ultimately show ?thesis
    using that [of f' t'] o(5-7,9-11) iv slot_index_length [of t' t g] by (simp add: same_frame_def)
qed

lemma assign_root_fresh:
  assumes inv: "tj_inv g t act D path None (Some v)" and iv: "slot_index g t v = Some iv" and dfs: "tj_dfs t = Suc (length act)"
  shows "tj_inv g (assign_root iv t) (act @ [v]) D ((v, True) # path) None None" "pe_of g (assign_root iv t) v = None"
    "slot_index g (assign_root iv t) v = Some iv" "tj_dfs (assign_root iv t) = Suc (length (act @ [v]))"
    "same_frame t (assign_root iv t)" "tj_visit (assign_root iv t) = tj_visit t"
proof -
  note i = tj_invD(3) [OF inv]
  have v: "v \<in> set (nodes g)" "rt_of g t v = 0"
    using scc_edgesD(5) [OF scc_invD(3) [OF i]] by auto
  have a: "assign_root iv t = (set_data t iv (\<lambda>d. d\<lparr>nd_root := Suc (length act)\<rparr>))\<lparr>tj_dfs := Suc (Suc (length act))\<rparr>"
    using views_slot(1) [OF iv] v(2) dfs by (simp add: assign_root_def)
  have e: "rt_of g (assign_root iv t) = (rt_of g t)(v := Suc (length act))" "pe_of g (assign_root iv t) = pe_of g t"
    "nb_of g (assign_root iv t) = nb_of g t"
    using views_slot [OF iv] by (simp_all add: a views_set_data [OF iv])
  show "tj_inv g (assign_root iv t) (act @ [v]) D ((v, True) # path) None None"
    using scc_discover [OF i] tj_invD(1,2) [OF inv] unfolding tj_inv_def e by (simp add: a)
  have "v \<notin> set act" "v \<notin> D"
    using scc_baseD(6) [OF scc_invD(1) [OF i] v(1)] v(2) by blast+
  then show "pe_of g (assign_root iv t) v = None"
    using scc_edgesD(7) [OF scc_invD(3) [OF i] v(1)] e(2) by simp
qed (use iv in \<open>simp_all add: assign_root_def same_frame_def dfs views_slot(1) [OF iv] scc_edgesD(5) [OF scc_invD(3) [OF tj_invD(3) [OF inv]]]\<close>)

lemma assign_root_visited:
  assumes inv: "tj_inv g t act D ((v, f) # ps) exc None" and iv: "slot_index g t v = Some iv"
  shows "assign_root iv t = t"
proof -
  note i = tj_invD(3) [OF inv]
  have "v \<in> set act" "v \<in> set (nodes g)"
    using top_apart(1) [OF scc_invD(2) [OF i]] scc_baseD(3) [OF scc_invD(1) [OF i]] by blast+
  then have "rt_of g t v \<noteq> 0"
    using scc_baseD(6) [OF scc_invD(1) [OF i]] by blast
  then show ?thesis
    using views_slot(1) [OF iv] by (simp add: assign_root_def)
qed

section \<open>Leaving a node\<close>

lemma sweep_stack_ok:
  assumes "length (tj_nodes t) = length (nodes g)" "slot_index g t v = Some iv" "distinct us" "v \<notin> set us"
    and "\<forall>w\<in>set us. w \<in> set (nodes g) \<and> rt_of g t v \<le> rt_of g t w"
    and "below \<noteq> [] \<Longrightarrow> hd below \<in> set (nodes g) - set us \<and> rt_of g t (hd below) < rt_of g t v"
  shows "\<exists>t'. sweep_stack g iv sid (us @ below) n t = Some (length below, n + length us, t') \<and> t' = t\<lparr>tj_nodes := tj_nodes t'\<rparr>
      \<and> length (tj_nodes t') = length (tj_nodes t) \<and> rt_of g t' = (\<lambda>x. if x \<in> set us then sid else rt_of g t x)
      \<and> pe_of g t' = pe_of g t \<and> nb_of g t' = nb_of g t"
  using assms
proof (induction us arbitrary: n t)
  case Nil
  show ?case
  proof (cases below)
    case (Cons w ws)
    obtain iw where iw: "slot_index g t w = Some iw"
      using slot_index_node [OF Nil(1), of w] Nil(6) Cons by auto
    then show ?thesis
      using Cons Nil(6) views_slot(1) [OF iw] views_slot(1) [OF Nil(2)] by simp
  qed simp
next
  case (Cons u us)
  obtain iu where iu: "slot_index g t u = Some iu"
    using slot_index_node [OF Cons(2), of u] Cons(6) by auto
  let ?t = "set_data t iu (\<lambda>d. d\<lparr>nd_root := sid\<rparr>)"
  have e: "rt_of g ?t = (rt_of g t)(u := sid)" "pe_of g ?t = pe_of g t" "nb_of g ?t = nb_of g t"
    using views_slot [OF iu] by (simp_all add: views_set_data [OF iu])
  have "\<exists>t'. sweep_stack g iv sid (us @ below) (Suc n) ?t = Some (length below, Suc n + length us, t') \<and> t' = ?t\<lparr>tj_nodes := tj_nodes t'\<rparr>
      \<and> length (tj_nodes t') = length (tj_nodes ?t) \<and> rt_of g t' = (\<lambda>x. if x \<in> set us then sid else rt_of g ?t x)
      \<and> pe_of g t' = pe_of g ?t \<and> nb_of g t' = nb_of g ?t"
    using Cons(2-7) by (intro Cons(1)) (auto simp: e(1))
  then obtain t' where t': "sweep_stack g iv sid (us @ below) (Suc n) ?t = Some (length below, Suc n + length us, t')"
    "t' = ?t\<lparr>tj_nodes := tj_nodes t'\<rparr>" "length (tj_nodes t') = length (tj_nodes ?t)"
    "rt_of g t' = (\<lambda>x. if x \<in> set us then sid else rt_of g ?t x)" "pe_of g t' = pe_of g ?t" "nb_of g t' = nb_of g ?t"
    by blast
  have "sweep_stack g iv sid ((u # us) @ below) n t = Some (length below, n + length (u # us), t')"
    using t'(1) iu Cons(6) views_slot(1) [OF iu] views_slot(1) [OF Cons(3)] by simp
  moreover have "t' = t\<lparr>tj_nodes := tj_nodes t'\<rparr>"
    using t'(2) by (simp add: set_data_def)
  moreover have "rt_of g t' = (\<lambda>x. if x \<in> set (u # us) then sid else rt_of g t x)"
    using t'(4) e(1) by auto
  ultimately show ?case
    using t'(3,5,6) e by (intro exI [of _ t']) simp
qed

lemma partition_prefix: "sorted_wrt (\<lambda>x y. P y \<longrightarrow> P x) xs \<Longrightarrow> xs = filter P xs @ filter (\<lambda>x. \<not> P x) xs"
proof (induction xs)
  case (Cons x xs)
  show ?case
  proof (cases "P x")
    case False
    then have "\<forall>y\<in>set xs. \<not> P y"
      using Cons(2) by auto
    then have "filter P xs = []" "filter (\<lambda>x. \<not> P x) xs = xs"
      by (simp_all add: filter_empty_conv filter_id_conv)
    then show ?thesis
      using False by simp
  qed (use Cons in auto)
qed simp

lemma leave_open:
  assumes inv: "tj_inv g t act D ((v, False) # ps) None None" and nb: "nb_of g t v = []"
  obtains t' where "leave_node g v iv False t = Some (None, t')" "tj_inv g t' act D ps (Some v) None" "ps \<noteq> []"
    "pe_of g t' (fst (hd ps)) = Some v" "same_frame t t'" "tj_visit t' = tj_visit t" "tj_dfs t' = tj_dfs t"
proof -
  let ?t = "t\<lparr>tj_stack := tj_stack t @ [v]\<rparr>"
  have "tj_inv g ?t act D ps (Some v) None" "ps \<noteq> []" "pe_of g ?t (fst (hd ps)) = Some v"
    using scc_finish [OF tj_invD(3) [OF inv] nb] tj_invD(1,2) [OF inv] by (simp_all add: tj_inv_def)
  then show ?thesis
    by (intro that [of ?t]) (simp_all add: leave_node_def same_frame_def)
qed

lemma leave_close:
  assumes inv: "tj_inv g t act D ((v, True) # ps) None None" and nb: "nb_of g t v = []" and iv: "slot_index g t v = Some iv"
    and dfs: "tj_dfs t = Suc (length act)" and big: "card (set (nodes g)) < tj_scc t"
  obtains t' start len where "leave_node g v iv True t = Some (Some start, t')" "tj_found t' = Some (start, len)"
    "set (drop start (tj_stack t')) = scc_class (g_edges g) v" "distinct (drop start (tj_stack t'))"
    "scc_class (g_edges g) v \<inter> D = {}"
    "\<forall>x y. x \<in> scc_class (g_edges g) v \<longrightarrow> (x, y) \<in> g_edges g \<longrightarrow> y \<in> D \<union> scc_class (g_edges g) v"
    "tj_inv g (t'\<lparr>tj_stack := take start (tj_stack t')\<rparr>) (take (length act - len) act) (D \<union> scc_class (g_edges g) v) ps
       (if ps = [] then None else Some v) None"
    "ps \<noteq> [] \<longrightarrow> pe_of g t' (fst (hd ps)) = Some v" "len \<le> length act"
    "set act \<subseteq> set (take (length act - len) act) \<union> scc_class (g_edges g) v"
    "tj_unchecked t' = tj_unchecked t" "tj_scc t' = tj_scc t" "tj_visit t' = tj_visit t" "tj_dfs t' = tj_dfs t"
proof -
  note i = tj_invD(3) [OF inv]
  note base = scc_invD(1) [OF i] and path = scc_invD(2) [OF i]
  note facts = scc_close_facts [OF i nb]
  let ?stk = "tj_stack t" and ?P = "\<lambda>x. disc act x < disc act v" and ?C = "set (drop (disc act v - 1) act)"
  have va: "v \<in> set act" "v \<notin> set ?stk"
    using top_apart(1,3) [OF path] .
  define below above where "below = filter ?P ?stk" and "above = filter (\<lambda>x. \<not> ?P x) ?stk"
  have stk: "?stk = below @ above"
    unfolding below_def above_def using scc_pathD(8) [OF path] by (intro partition_prefix) (auto elim: sorted_wrt_mono_rel [rotated])
  have act: "x \<in> set act" "x \<noteq> v" "x \<in> set (nodes g)" if "x \<in> set ?stk" for x
    using that va(2) scc_pathD(3) [OF path] scc_baseD(3) [OF base] by auto
  have above: "x \<in> set above \<longleftrightarrow> x \<in> set ?stk \<and> disc act v < disc act x" for x
    using act [of x] va(1) disc_inj [of x act v] by (auto simp: above_def)
  have C: "insert v (set above) = ?C"
    using facts(4) above by auto
  have d: "distinct above" "v \<notin> set above"
    using scc_pathD(4) [OF path] va(2) above by (auto simp: above_def)
  have "length (drop (disc act v - 1) act) = card ?C"
    using scc_baseD(2) [OF base] by (simp add: distinct_card)
  also have "card ?C = Suc (length above)"
    unfolding C [symmetric] using d by (simp add: distinct_card)
  finally have len: "length act - (disc act v - 1) = Suc (length above)"
    by simp
  have "disc act v - 1 < length act"
    using disc_mem(1,3) [OF va(1)] by simp
  then have k: "length act - Suc (length above) = disc act v - 1" "Suc (length above) \<le> length act"
    using len by simp_all
  have low: "rt_of g t (last below) < rt_of g t v" "last below \<in> set ?stk" "last below \<notin> set above" if "below \<noteq> []"
  proof -
    have "last below \<in> set below"
      using that by simp
    then show "rt_of g t (last below) < rt_of g t v" "last below \<in> set ?stk" "last below \<notin> set above"
      using facts(3) by (auto simp: below_def above_def)
  qed
  have "\<exists>t1. sweep_stack g iv (tj_scc t) (rev above @ rev below) 1 t = Some (length (rev below), 1 + length (rev above), t1)
      \<and> t1 = t\<lparr>tj_nodes := tj_nodes t1\<rparr> \<and> length (tj_nodes t1) = length (tj_nodes t)
      \<and> rt_of g t1 = (\<lambda>x. if x \<in> set (rev above) then tj_scc t else rt_of g t x) \<and> pe_of g t1 = pe_of g t \<and> nb_of g t1 = nb_of g t"
    using tj_invD(2) [OF inv] iv d above facts(2) act low by (intro sweep_stack_ok) (auto simp: hd_rev)
  then obtain t1 where t1: "sweep_stack g iv (tj_scc t) (rev ?stk) 1 t = Some (length below, Suc (length above), t1)"
    "t1 = t\<lparr>tj_nodes := tj_nodes t1\<rparr>" "length (tj_nodes t1) = length (tj_nodes t)"
    "rt_of g t1 = (\<lambda>x. if x \<in> set above then tj_scc t else rt_of g t x)" "pe_of g t1 = pe_of g t" "nb_of g t1 = nb_of g t"
    unfolding stk by auto
  have sel: "tj_stack t1 = tj_stack t" "tj_unchecked t1 = tj_unchecked t" "tj_scc t1 = tj_scc t" "tj_visit t1 = tj_visit t" "tj_dfs t1 = tj_dfs t"
    by (subst t1(2), simp)+
  have iv1: "slot_index g t1 v = Some iv"
    using slot_index_length [OF t1(3), of g] iv by simp
  let ?t2 = "set_data t1 iv (\<lambda>d. d\<lparr>nd_root := tj_scc t\<rparr>)"
  let ?t' = "?t2\<lparr>tj_stack := below @ above @ [v], tj_found := Some (length below, Suc (length above))\<rparr>"
  have e: "rt_of g ?t2 = (\<lambda>x. if x \<in> ?C then tj_scc t else rt_of g t x)" "pe_of g ?t2 = pe_of g t" "nb_of g ?t2 = nb_of g t"
    unfolding C [symmetric] using t1(4-6) views_slot [OF iv1] by (auto simp: views_set_data [OF iv1] fun_eq_iff)
  have leave: "leave_node g v iv True t = Some (Some (length below), ?t')"
    using t1(1) sel(1) stk by (simp add: leave_node_def Let_def)
  have "tj_inv g (?t'\<lparr>tj_stack := below\<rparr>) (take (disc act v - 1) act) (D \<union> ?C) ps (if ps = [] then None else Some v) None"
    using scc_close [OF i nb big] tj_invD(1,2) [OF inv] t1(3) e by (simp add: tj_inv_def below_def)
  moreover have "ps \<noteq> [] \<Longrightarrow> pe_of g ?t' (fst (hd ps)) = Some v"
    using scc_pathD(9) [OF path] e(2) by (cases ps) auto
  moreover have "set act \<subseteq> set (take (disc act v - 1) act) \<union> ?C"
    by (metis append_take_drop_id set_append subset_refl)
  moreover have "?C \<inter> D = {}"
    using scc_baseD(5) [OF base] by (auto dest: in_set_dropD)
  ultimately show ?thesis
    using facts(5) by (intro that [OF leave, of "Suc (length above)"]) (use d C k sel in \<open>auto simp: facts(6) [symmetric]\<close>)
qed

section \<open>The loop\<close>

lemma card_nodes: "card (set (nodes g)) \<le> 2 ^ 32"
proof -
  have "card (set (nodes g)) = card (as_u32 ` set (nodes g))"
    by (subst card_image) (auto simp: inj_on_def as_u32_inject)
  also have "\<dots> \<le> CARD(u32)"
    by (rule card_mono) simp_all
  finally show ?thesis
    by (simp add: card_word)
qed

definition tj_ready :: "digraph \<Rightarrow> tarjan_scc \<Rightarrow> node list \<Rightarrow> node set \<Rightarrow> bool" where
  "tj_ready g t act D \<longleftrightarrow>
     tj_found t = None \<and> tj_dfs t = Suc (length act) \<and> 2 ^ 64 - 1 \<le> tj_scc t + card D
     \<and> set (tj_unchecked t) \<subseteq> set (nodes g) \<and> set (nodes g) \<subseteq> set (tj_unchecked t) \<union> set act \<union> D \<union> fst ` set (tj_visit t)
     \<and> (tj_visit t = [] \<and> tj_inv g t act D [] None None
        \<or> (\<exists>v ps. tj_visit t = (v, True) # ps \<and> tj_inv g t act D ps None (Some v))
        \<or> tj_visit t \<noteq> [] \<and> tj_inv g t act D (tj_visit t) (pe_of g t (fst (hd (tj_visit t)))) None)"

text \<open>What a component must be after those in \<open>D\<close>.\<close>

definition scc_step :: "digraph \<Rightarrow> node set \<Rightarrow> node list \<Rightarrow> bool" where
  "scc_step g D scc \<longleftrightarrow> distinct scc \<and> set scc \<inter> D = {} \<and> (\<exists>v\<in>set (nodes g). set scc = scc_class (g_edges g) v)
     \<and> (\<forall>x\<in>set scc. \<forall>y. (x, y) \<in> g_edges g \<longrightarrow> y \<in> D \<union> set scc)"

definition tj_between :: "digraph \<Rightarrow> tarjan_scc \<Rightarrow> node set \<Rightarrow> bool" where
  "tj_between g t D \<longleftrightarrow> (\<exists>t1 act. cleanup t = Some t1 \<and> tj_ready g t1 act D)"

lemma tj_inv_visit [simp]:
  "tj_inv g (t\<lparr>tj_visit := vs\<rparr>) = tj_inv g t" "tj_inv g (t\<lparr>tj_found := fd\<rparr>) = tj_inv g t" "tj_inv g (t\<lparr>tj_dfs := k\<rparr>) = tj_inv g t"
  "tj_inv g (t\<lparr>tj_scc := k\<rparr>) = tj_inv g t" "tj_inv g (t\<lparr>tj_unchecked := us\<rparr>) = tj_inv g t"
  by (simp_all add: fun_eq_iff tj_inv_def)

text \<open>A node taken from the visitation stack is discovered or was left waiting.\<close>

lemma enter_node:
  assumes r: "tj_ready g t act D" and vs: "tj_visit t = (v, f) # vs" and iv: "slot_index g t v = Some iv"
  defines "t1 \<equiv> assign_root iv (t\<lparr>tj_visit := vs\<rparr>)"
  obtains act1 exc where "tj_inv g t1 act1 D ((v, f) # vs) exc None" "pe_of g t1 v = exc" "slot_index g t1 v = Some iv"
    "same_frame t t1" "tj_visit t1 = vs" "tj_dfs t1 = Suc (length act1)" "set (nodes g) \<subseteq> set (tj_unchecked t) \<union> set act1 \<union> D"
proof -
  let ?t = "t\<lparr>tj_visit := vs\<rparr>"
  note r' = r [unfolded tj_ready_def]
  have cover: "set (nodes g) \<subseteq> set (tj_unchecked t) \<union> set act1 \<union> D"
    if "tj_inv g t1 act1 D ((v, f) # vs) exc None" "set act \<subseteq> set act1" for act1 exc
    using r' vs that(2) scc_pathD(2) [OF scc_invD(2) [OF tj_invD(3) [OF that(1)]]] by fastforce
  consider "f" "tj_inv g t act D vs None (Some v)" | "tj_inv g t act D ((v, f) # vs) (pe_of g t v) None"
    using r' vs by auto
  then show ?thesis
  proof cases
    case 1
    then have "tj_inv g ?t act D vs None (Some v)" "slot_index g ?t v = Some iv" "tj_dfs ?t = Suc (length act)"
      using iv r' by simp_all
    note a = assign_root_fresh [OF this, folded t1_def]
    show ?thesis
      using a 1(1) cover [of "act @ [v]" None] by (intro that [of "act @ [v]" None]) (auto simp: same_frame_def)
  next
    case 2
    then have "t1 = ?t"
      unfolding t1_def by (intro assign_root_visited [of g _ act D v f vs]) (use iv in simp_all)
    then show ?thesis
      using 2 iv r' cover [of act] by (intro that [of act "pe_of g t v"]) (auto simp: same_frame_def)
  qed
qed

lemma class_refl: "v \<in> scc_class E v"
  by (simp add: scc_class_def)

lemma close_between:
  assumes inv: "tj_inv g t act D ((v, True) # vs) None None" and nb: "nb_of g t v = []" and iv: "slot_index g t v = Some iv"
    and st: "tj_dfs t = Suc (length act)" "2 ^ 64 - 1 \<le> tj_scc t + card D" "tj_visit t = vs" "set (tj_unchecked t) \<subseteq> set (nodes g)"
      "set (nodes g) \<subseteq> set (tj_unchecked t) \<union> set act \<union> D"
  obtains t' start where "leave_node g v iv True t = Some (Some start, t')" "scc_step g D (drop start (tj_stack t'))"
    "tj_between g t' (D \<union> set (drop start (tj_stack t')))"
proof -
  note base = scc_invD(1) [OF tj_invD(3) [OF inv]]
  let ?C = "scc_class (g_edges g) v"
  have v: "v \<in> set (nodes g)"
    using top_apart(1) [OF scc_invD(2) [OF tj_invD(3) [OF inv]]] scc_baseD(3) [OF base] by blast
  have fin: "finite D" "card D \<le> 2 ^ 32"
    using finite_subset [OF scc_baseD(4) [OF base]] card_mono [OF _ scc_baseD(4) [OF base]] card_nodes [of g] by auto
  then have big: "card (set (nodes g)) < tj_scc t"
    using st(2) card_nodes [of g] by simp
  obtain t' start len where l: "leave_node g v iv True t = Some (Some start, t')" "tj_found t' = Some (start, len)"
    "set (drop start (tj_stack t')) = ?C" "distinct (drop start (tj_stack t'))" "?C \<inter> D = {}"
    "\<forall>x y. x \<in> ?C \<longrightarrow> (x, y) \<in> g_edges g \<longrightarrow> y \<in> D \<union> ?C"
    "tj_inv g (t'\<lparr>tj_stack := take start (tj_stack t')\<rparr>) (take (length act - len) act) (D \<union> ?C) vs (if vs = [] then None else Some v) None"
    "vs \<noteq> [] \<longrightarrow> pe_of g t' (fst (hd vs)) = Some v" "len \<le> length act"
    "set act \<subseteq> set (take (length act - len) act) \<union> ?C"
    "tj_unchecked t' = tj_unchecked t" "tj_scc t' = tj_scc t" "tj_visit t' = tj_visit t" "tj_dfs t' = tj_dfs t"
    by (rule leave_close [OF inv nb iv st(1) big])
  have C: "finite ?C" "?C \<noteq> {}"
    using l(3) class_refl [of v "g_edges g"] by (metis List.finite_set, blast)
  have "card ?C \<noteq> 0"
    using C by simp
  then have "2 ^ 64 - 1 \<le> tj_scc t - 1 + card (D \<union> ?C)"
    using st(2) big card_Un_disjoint [OF fin(1) C(1)] l(5) by (simp add: inf_commute)
  moreover let ?t1 = "t'\<lparr>tj_found := None, tj_stack := take start (tj_stack t'), tj_dfs := tj_dfs t' - len, tj_scc := tj_scc t' - 1\<rparr>"
  have "tj_inv g ?t1 = tj_inv g (t'\<lparr>tj_stack := take start (tj_stack t')\<rparr>)" "pe_of g ?t1 = pe_of g t'"
    by (simp_all add: fun_eq_iff tj_inv_def)
  ultimately have "tj_ready g ?t1 (take (length act - len) act) (D \<union> ?C)"
    unfolding tj_ready_def using l(7-14) st by (cases "vs = []") auto
  moreover have "cleanup t' = Some ?t1"
    using l(2,9,12,14) st(1) big by (simp add: cleanup_def)
  ultimately have "tj_between g t' (D \<union> set (drop start (tj_stack t')))"
    unfolding l(3) tj_between_def by blast
  then show ?thesis
    using l(1,3-6) v by (intro that [of start t']) (auto simp: scc_step_def)
qed

lemma visit_once_ok:
  assumes r: "tj_ready g t act D" and vs: "tj_visit t = (v, f) # vs"
  shows "\<exists>q t'. visit_once g v f (t\<lparr>tj_visit := vs\<rparr>) = Some (q, t') \<and>
    (case q of None \<Rightarrow> \<exists>act'. tj_ready g t' act' D
     | Some start \<Rightarrow> scc_step g D (drop start (tj_stack t')) \<and> tj_between g t' (D \<union> set (drop start (tj_stack t'))))"
proof -
  note r' = r [unfolded tj_ready_def]
  have inN: "v \<in> set (nodes g)" if "tj_inv g t act D ((v, f) # vs) exc None" for exc
    using top_apart(1) [OF scc_invD(2) [OF tj_invD(3) [OF that]]] scc_baseD(3) [OF scc_invD(1) [OF tj_invD(3) [OF that]]] by blast
  have "v \<in> set (nodes g)" if "tj_inv g t act D vs None (Some v)"
    using scc_edgesD(5) [OF scc_invD(3) [OF tj_invD(3) [OF that]]] by auto
  then have "length (tj_nodes t) = length (nodes g)" "v \<in> set (nodes g)"
    using r' vs inN tj_invD(2) [of g t act D] by auto
  then obtain iv where iv: "slot_index g t v = Some iv"
    by (rule slot_index_node)
  let ?t = "t\<lparr>tj_visit := vs\<rparr>" and ?t1 = "assign_root iv (t\<lparr>tj_visit := vs\<rparr>)"
  obtain act1 exc where e: "tj_inv g ?t1 act1 D ((v, f) # vs) exc None" "pe_of g ?t1 v = exc" "slot_index g ?t1 v = Some iv"
    "same_frame t ?t1" "tj_visit ?t1 = vs" "tj_dfs ?t1 = Suc (length act1)" "set (nodes g) \<subseteq> set (tj_unchecked t) \<union> set act1 \<union> D"
    by (rule enter_node [OF r vs iv])
  obtain f2 t2 where p: "take_pending g iv f ?t1 = Some (f2, t2)" "tj_inv g t2 act1 D ((v, f2) # vs) None None"
    "slot_index g t2 v = Some iv" "same_frame ?t1 t2" "tj_visit t2 = tj_visit ?t1" "tj_dfs t2 = tj_dfs ?t1"
    by (rule take_pending_ok [OF e(1,3,2)])
  obtain q t3 where s: "scan_neighbors g v iv (nb_of g t2 v) f2 t2 = Some (q, t3)" "tj_unchecked t3 = tj_unchecked t2" "tj_dfs t3 = tj_dfs t2"
    "tj_scc t3 = tj_scc t2" "tj_found t3 = tj_found t2"
    "case q of
           None \<Rightarrow> \<exists>w f'. tj_visit t3 = (w, True) # (v, f') # tj_visit t2 \<and> tj_inv g t3 act1 D ((v, f') # vs) None (Some w)
         | Some f' \<Rightarrow> tj_visit t3 = tj_visit t2 \<and> tj_inv g t3 act1 D ((v, f') # vs) None None \<and> nb_of g t3 v = []"
    using scan_neighbors_ok [OF p(2,3) refl] by blast
  have fr: "tj_unchecked t3 = tj_unchecked t" "tj_scc t3 = tj_scc t" "tj_found t3 = None" "tj_dfs t3 = Suc (length act1)" "tj_visit t2 = vs"
    using e(4-6) p(4-6) s(2-5) r' by (simp_all add: same_frame_def)
  have visit: "visit_once g v f ?t = (case q of None \<Rightarrow> Some (None, t3) | Some l' \<Rightarrow> leave_node g v iv l' t3)"
    using iv p(1) s(1) views_slot(3) [OF p(3)] by (simp add: visit_once_def)
  show ?thesis
  proof (cases q)
    case None
    then obtain w f' where w: "tj_visit t3 = (w, True) # (v, f') # vs" "tj_inv g t3 act1 D ((v, f') # vs) None (Some w)"
      using s(6) fr(5) by auto
    then have "tj_ready g t3 act1 D"
      using fr r' e(7) unfolding tj_ready_def by auto
    then show ?thesis
      using visit None by auto
  next
    case (Some l)
    then have inv: "tj_visit t3 = vs" "tj_inv g t3 act1 D ((v, l) # vs) None None" "nb_of g t3 v = []"
      using s(6) fr(5) by auto
    have iv3: "slot_index g t3 v = Some iv"
      using p(3) slot_index_length [of t3 t2 g] tj_invD(2) [OF inv(2)] tj_invD(2) [OF p(2)] by simp
    show ?thesis
    proof (cases l)
      case True
      then have i: "tj_inv g t3 act1 D ((v, True) # vs) None None"
        using inv(2) by simp
      have st: "2 ^ 64 - 1 \<le> tj_scc t3 + card D" "set (tj_unchecked t3) \<subseteq> set (nodes g)"
        "set (nodes g) \<subseteq> set (tj_unchecked t3) \<union> set act1 \<union> D"
        using fr r' e(7) by simp_all
      obtain t' start where "leave_node g v iv True t3 = Some (Some start, t')" "scc_step g D (drop start (tj_stack t'))"
        "tj_between g t' (D \<union> set (drop start (tj_stack t')))"
        by (rule close_between [OF i inv(3) iv3 fr(4) st(1) inv(1) st(2,3)])
      then show ?thesis
        using visit Some True by auto
    next
      case False
      then have i: "tj_inv g t3 act1 D ((v, False) # vs) None None"
        using inv(2) by simp
      obtain t' where t': "leave_node g v iv False t3 = Some (None, t')" "tj_inv g t' act1 D vs (Some v) None" "vs \<noteq> []"
        "pe_of g t' (fst (hd vs)) = Some v" "same_frame t3 t'" "tj_visit t' = tj_visit t3" "tj_dfs t' = tj_dfs t3"
        by (rule leave_open [OF i inv(3)])
      then have "tj_ready g t' act1 D"
        using fr r' e(7) inv(1) unfolding tj_ready_def same_frame_def by auto
      then show ?thesis
        using visit Some False t'(1) by auto
    qed
  qed
qed

lemma search_ok:
  "tj_ready g t act D \<Longrightarrow> \<exists>q t'. search g t = Some (q, t') \<and>
     (case q of None \<Rightarrow> D = set (nodes g) | Some scc \<Rightarrow> scc_step g D scc \<and> tj_between g t' (D \<union> set scc))"
proof (induction g t arbitrary: act rule: search.induct)
  case (1 g t)
  note r = 1(4) [unfolded tj_ready_def]
  show ?case
  proof (cases "tj_visit t")
    case (Cons p vs)
    obtain v f where p: "p = (v, f)"
      by fastforce
    obtain q t' where v: "visit_once g v f (t\<lparr>tj_visit := vs\<rparr>) = Some (q, t')"
      "case q of None \<Rightarrow> \<exists>act'. tj_ready g t' act' D
       | Some start \<Rightarrow> scc_step g D (drop start (tj_stack t')) \<and> tj_between g t' (D \<union> set (drop start (tj_stack t')))"
      using visit_once_ok [OF 1(4)] Cons p by blast
    show ?thesis
    proof (cases q)
      case None
      then obtain act' where "tj_ready g t' act' D"
        using v(2) by auto
      then show ?thesis
        using 1(3) [OF Cons p [symmetric] v(1) refl None] Cons p v(1) None by (simp add: search.simps [of g t])
    next
      case (Some start)
      then show ?thesis
        using v Cons p by (simp add: search.simps [of g t])
    qed
  next
    case Nil
    then have inv: "tj_inv g t act D [] None None"
      using r by auto
    then have act: "act = []"
      using scc_pathD(7) [OF scc_invD(2) [OF tj_invD(3) [OF inv]]] by auto
    show ?thesis
    proof (cases "tj_unchecked t")
      case Nil
      then have "D = set (nodes g)"
        using r \<open>tj_visit t = []\<close> act scc_baseD(4) [OF scc_invD(1) [OF tj_invD(3) [OF inv]]] by auto
      then show ?thesis
        using Nil \<open>tj_visit t = []\<close> by (simp add: search.simps [of g t])
    next
      case (Cons n ns)
      then have n: "n \<in> set (nodes g)"
        using r by auto
      then obtain i where i: "slot_index g t n = Some i"
        by (rule slot_index_node [OF tj_invD(2) [OF inv]])
      show ?thesis
      proof (cases "nd_root (tj_nodes t ! i) = 0")
        case True
        then have "scc_inv (g_edges g) (set (nodes g)) (rt_of g t) (pe_of g t) (nb_of g t) (tj_stack t) act D [] None (Some n)"
          using tj_invD(3) [OF inv] views_slot(1) [OF i] n by (auto simp: scc_inv_def scc_edges_def)
        then have "tj_ready g (t\<lparr>tj_unchecked := ns, tj_visit := [(n, True)]\<rparr>) act D"
          using r Cons \<open>tj_visit t = []\<close> tj_invD(1,2) [OF inv] by (auto simp: tj_ready_def tj_inv_def)
        then show ?thesis
          using 1(1) [OF Nil Cons i True] Nil Cons i True by (simp add: search.simps [of g t])
      next
        case False
        then have "n \<in> D"
          using scc_baseD(6) [OF scc_invD(1) [OF tj_invD(3) [OF inv]] n] views_slot(1) [OF i] act by auto
        then have "tj_ready g (t\<lparr>tj_unchecked := ns\<rparr>) act D"
          using r Cons \<open>tj_visit t = []\<close> inv by (auto simp: tj_ready_def)
        then show ?thesis
          using 1(2) [OF Nil Cons i False] Nil Cons i False by (simp add: search.simps [of g t])
      qed
    qed
  qed
qed

lemma new_ready:
  assumes "digraph_inv g"
  shows "tj_between g (new_tarjan_scc g) {}"
proof -
  let ?t = "new_tarjan_scc g"
  have len: "length (tj_nodes ?t) = length (nodes g)"
    and sel: "tj_stack ?t = []" "tj_visit ?t = []" "tj_found ?t = None" "tj_dfs ?t = 1" "tj_scc ?t = 2 ^ 64 - 1" "tj_unchecked ?t = nodes g"
    by (simp_all add: new_tarjan_scc_def)
  have at: "i < length (nodes g) \<and> nodes g ! i = x" if "slot_index g ?t x = Some i" for x i
    using that position_Some [of "\<lambda>e. fst e = x" "g_nodes g" i]
    by (auto simp: slot_index_def bind_eq_Some_conv to_index_def nodes_def split: if_splits)
  have data: "tj_nodes ?t ! i = \<lparr>nd_root = 0, nd_pending = None, nd_neighbors = neighbors g x\<rparr>" if "slot_index g ?t x = Some i" for x i
    using at [OF that] by (simp add: new_tarjan_scc_def)
  have some: "\<exists>i. slot_index g ?t x = Some i" if "x \<in> set (nodes g)" for x
    using slot_index_node [OF len that] by blast
  have e: "rt_of g ?t x = 0" "pe_of g ?t x = None" "x \<in> set (nodes g) \<Longrightarrow> nb_of g ?t x = neighbors g x" for x
    using some [of x] by (auto simp: node_views data split: option.split)
  have "scc_inv (g_edges g) (set (nodes g)) (rt_of g ?t) (pe_of g ?t) (nb_of g ?t) (tj_stack ?t) [] {} [] None None"
    using edge_nodes [OF assms] neighbors_edges [OF assms]
    by (auto simp: scc_inv_def scc_base_def scc_path_def scc_edges_def e sel)
  then have "tj_ready g ?t [] {}"
    using assms len by (simp add: tj_ready_def tj_inv_def sel)
  moreover have "cleanup ?t = Some ?t"
    by (simp add: cleanup_def sel)
  ultimately show ?thesis
    unfolding tj_between_def by blast
qed

section \<open>All components\<close>

fun scc_order :: "digraph \<Rightarrow> node set \<Rightarrow> node list list \<Rightarrow> bool" where
  "scc_order g D [] \<longleftrightarrow> D = set (nodes g)"
| "scc_order g D (scc # sccs) \<longleftrightarrow> scc_step g D scc \<and> scc_order g (D \<union> set scc) sccs"

lemma drain_ok: "tj_between g t D \<Longrightarrow> \<exists>sccs. drain_sccs g t = Some sccs \<and> scc_order g D sccs"
proof (induction g t arbitrary: D rule: drain_sccs.induct)
  case (1 g t)
  obtain t1 act where c: "cleanup t = Some t1" "tj_ready g t1 act D"
    using 1(2) by (auto simp: tj_between_def)
  obtain q t' where s: "search g t1 = Some (q, t')"
    "case q of None \<Rightarrow> D = set (nodes g) | Some scc \<Rightarrow> scc_step g D scc \<and> tj_between g t' (D \<union> set scc)"
    using search_ok [OF c(2)] by blast
  have n: "next_scc g t = Some (q, t')"
    using c(1) s(1) by (simp add: next_scc_def)
  show ?case
  proof (cases q)
    case None
    then show ?thesis
      using n s(2) by (simp add: drain_sccs.simps [of g t])
  next
    case (Some scc)
    then obtain sccs where "drain_sccs g t' = Some sccs" "scc_order g (D \<union> set scc) sccs"
      using 1(1) [OF n refl Some] s(2) by auto
    then show ?thesis
      using n Some s(2) by (simp add: drain_sccs.simps [of g t])
  qed
qed

lemma iter_sccs_ok: "digraph_inv g \<Longrightarrow> \<exists>sccs. iter_sccs g = Some sccs \<and> scc_order g {} sccs"
  unfolding iter_sccs_def by (rule drain_ok [OF new_ready])

lemma scc_order_nodes:
  "scc_order g D sccs \<Longrightarrow> set (nodes g) = D \<union> set (concat sccs) \<and> distinct (concat sccs) \<and> set (concat sccs) \<inter> D = {}"
proof (induction sccs arbitrary: D)
  case (Cons scc sccs)
  then have "set (nodes g) = D \<union> set scc \<union> set (concat sccs) \<and> distinct (concat sccs) \<and> set (concat sccs) \<inter> (D \<union> set scc) = {}"
    using Cons(1) [of "D \<union> set scc"] by simp
  then show ?case
    using Cons(2) by (auto simp: scc_step_def)
qed simp

lemma class_eq: "x \<in> scc_class E v \<Longrightarrow> scc_class E v = scc_class E x"
proof -
  assume "x \<in> scc_class E v"
  then have "(v, x) \<in> E\<^sup>*" "(x, v) \<in> E\<^sup>*"
    by (simp_all add: scc_class_def)
  then have "(v, y) \<in> E\<^sup>* \<longleftrightarrow> (x, y) \<in> E\<^sup>*" "(y, v) \<in> E\<^sup>* \<longleftrightarrow> (y, x) \<in> E\<^sup>*" for y
    using rtrancl_trans [of v x E y] rtrancl_trans [of x v E y] rtrancl_trans [of y v E x] rtrancl_trans [of y x E v] by blast+
  then show ?thesis
    by (simp add: scc_class_def)
qed

lemma scc_order_class:
  "scc_order g D sccs \<Longrightarrow> scc \<in> set sccs \<Longrightarrow> x \<in> set scc \<Longrightarrow> set scc = scc_class (g_edges g) x"
proof (induction sccs arbitrary: D)
  case (Cons c sccs)
  show ?case
  proof (cases "scc = c")
    case True
    then obtain v where "set scc = scc_class (g_edges g) v"
      using Cons(2) by (auto simp: scc_step_def)
    then show ?thesis
      using Cons(4) class_eq by blast
  next
    case False
    then show ?thesis
      using Cons(1) [of "D \<union> set c"] Cons(2-4) by simp
  qed
qed simp

lemma scc_order_edges:
  "scc_order g D (xs @ scc # ys) \<Longrightarrow> x \<in> set scc \<Longrightarrow> (x, y) \<in> g_edges g \<Longrightarrow> y \<in> D \<union> set (concat xs) \<union> set scc"
proof (induction xs arbitrary: D)
  case (Cons c xs)
  then show ?case
    using Cons(1) [of "D \<union> set c"] by auto
qed (auto simp: scc_step_def)

text \<open>What a client of the iterator relies on: it ends, and its components come in an order that follows the edges backwards.\<close>

locale component_lister =
  fixes list_components :: "digraph \<Rightarrow> node list list option"
  assumes lists: "digraph_inv g \<Longrightarrow> \<exists>sccs. list_components g = Some sccs \<and> scc_order g {} sccs"
begin

lemma partition:
  assumes "digraph_inv g"
  obtains sccs where "list_components g = Some sccs" "scc_order g {} sccs" "distinct (concat sccs)" "set (concat sccs) = set (nodes g)"
  using lists [OF assms] scc_order_nodes by fastforce

end

interpretation sc: component_lister iter_sccs
  by unfold_locales (rule iter_sccs_ok)

end
