(* ===== verification/Toposort.thy ===== *)
theory Toposort
  imports Scc_Correct
begin

text \<open>
  Topological sorting (\<^verbatim>\<open>zlim-core/src/schedule/graph/toposort.rs\<close>) and the graph with a cached order (\<^verbatim>\<open>dag.rs\<close>).
  The order in which the hash set of edges is iterated is the parameter \<open>all_edges\<close>. Hash sets of nodes are sets; a set that is
  iterated is the list of its elements in the order of insertion (the iterations that remain do not depend on
  their order). \<open>None\<close> as a result stands for a call that panics or does not return.
\<close>

section \<open>Listing the cycles of a component\<close>

datatype toposort_error = Loop node | Cycle "node list list"

record circuit =
  ci_path :: "node list"
  ci_blocked :: "node set"
  ci_together :: "node \<Rightarrow> node list"
  ci_more :: "node set"
  ci_stack :: "(node \<times> node list) list"
  ci_cycles :: "node list list"

lemma finite_node [simp]: "finite A" for A :: "node set"
proof (rule finite_subset)
  show "A \<subseteq> as_u32 -` UNIV"
    by simp
  show "finite (as_u32 -` UNIV)"
    by (rule finite_vimageI) (simp_all add: inj_def as_u32_inject)
qed

text \<open>The loop that unblocks a node and those that wait for it.\<close>

function unblock :: "node list \<Rightarrow> node set \<Rightarrow> (node \<Rightarrow> node list) \<Rightarrow> node set \<times> (node \<Rightarrow> node list)" where
  "unblock [] blocked together = (blocked, together)"
| "unblock (n # st) blocked together =
     (if n \<in> blocked then unblock (rev (together n) @ st) (blocked - {n}) (together(n := []))
      else unblock st blocked together)"
  by pat_completeness auto
termination
  by (relation "measures [\<lambda>(st, b, tg). card b, \<lambda>(st, b, tg). length st]") (auto simp: card_Diff1_less simp del: card_Diff_insert card_Diff_singleton)

definition leave_path :: "digraph \<Rightarrow> node \<Rightarrow> circuit \<Rightarrow> circuit" where
  "leave_path subgraph v s =
     (let s1 = (if v \<in> ci_more s
                then (let (b, tg) = unblock [v] (ci_blocked s) (ci_together s) in s\<lparr>ci_blocked := b, ci_together := tg\<rparr>)
                else s\<lparr>ci_together :=
                       foldl (\<lambda>tg w. if v \<in> set (tg w) then tg else tg(w := tg w @ [v])) (ci_together s) (neighbors subgraph v)\<rparr>)
      in s1\<lparr>ci_path := butlast (ci_path s1), ci_stack := tl (ci_stack s1)\<rparr>)"

text \<open>
  The end of a round of the search: \<^verbatim>\<open>successors.peekable().peek()\<close> looks for a further successor and, as the
  peeking adaptor is dropped at once, takes it from the iterator.
\<close>

definition end_round :: "digraph \<Rightarrow> node \<Rightarrow> node list \<Rightarrow> circuit \<Rightarrow> circuit" where
  "end_round subgraph v successors s =
     (case successors of
        [] \<Rightarrow> leave_path subgraph v s
      | _ # rest \<Rightarrow> s\<lparr>ci_stack := (v, rest) # tl (ci_stack s)\<rparr>)"

definition circuit_step :: "digraph \<Rightarrow> node \<Rightarrow> circuit \<Rightarrow> circuit" where
  "circuit_step subgraph root s =
     (case ci_stack s of
        [] \<Rightarrow> s
      | (v, []) # fs \<Rightarrow> end_round subgraph v [] s
      | (v, w # ws) # fs \<Rightarrow>
          if w = root
          then end_round subgraph v ws (s\<lparr>ci_more := ci_more s \<union> set (ci_path s), ci_cycles := ci_cycles s @ [ci_path s]\<rparr>)
          else if w \<notin> ci_blocked s
          then s\<lparr>ci_more := ci_more s - {w}, ci_path := ci_path s @ [w], ci_blocked := insert w (ci_blocked s),
                 ci_stack := (w, neighbors subgraph w) # (v, ws) # fs\<rparr>
          else end_round subgraph v ws s)"

partial_function (option) circuits :: "digraph \<Rightarrow> node \<Rightarrow> circuit \<Rightarrow> circuit option" where
  [code]: "circuits subgraph root s = (if ci_stack s = [] then Some s else circuits subgraph root (circuit_step subgraph root s))"

definition component_graph :: "digraph \<Rightarrow> node list \<Rightarrow> digraph" where
  "component_graph g scc =
     foldl (\<lambda>sub n. foldl (\<lambda>sub w. if contains_node sub w then insert_edge sub n w else sub) sub (neighbors g n))
       (foldl insert_node digraph_new scc) scc"

definition circuit_start :: "digraph \<Rightarrow> node \<Rightarrow> node list list \<Rightarrow> circuit" where
  "circuit_start subgraph root cycles =
     \<lparr>ci_path = [root], ci_blocked = {root}, ci_together = (\<lambda>_. []), ci_more = {}, ci_stack = [(root, neighbors subgraph root)],
      ci_cycles = cycles\<rparr>"

text \<open>The loop over the stack of components, whose last element is the head of the list here.\<close>

partial_function (option) cycle_loop :: "digraph \<Rightarrow> node list list \<Rightarrow> node list list \<Rightarrow> node list list option" where
  [code]: "cycle_loop g sccs cycles =
     (case sccs of
        [] \<Rightarrow> Some cycles
      | scc # rest \<Rightarrow>
          (if scc = [] then None
           else
             do { let subgraph = component_graph g scc; let root = last scc;
                  s \<leftarrow> circuits subgraph root (circuit_start subgraph root cycles);
                  more \<leftarrow> iter_sccs (remove_node subgraph root);
                  cycle_loop g (rev (filter (\<lambda>c. 1 < length c) more) @ rest) (ci_cycles s) }))"

definition simple_cycles_in_component :: "digraph \<Rightarrow> node list \<Rightarrow> node list list option" where
  "simple_cycles_in_component g scc = cycle_loop g [scc] []"

section \<open>Sorting\<close>

fun all_cycles :: "digraph \<Rightarrow> node list list \<Rightarrow> node list list option" where
  "all_cycles g [] = Some []"
| "all_cycles g (scc # sccs) =
     do { cs \<leftarrow> simple_cycles_in_component g scc; rest \<leftarrow> all_cycles g sccs; Some (cs @ rest) }"

definition toposort :: "(digraph \<Rightarrow> (node \<times> node) list) \<Rightarrow> digraph \<Rightarrow> (toposort_error + node list) option" where
  "toposort all_edges g =
     (case find (\<lambda>(x, y). x = y) (all_edges g) of
        Some (n, _) \<Rightarrow> Some (Inl (Loop n))
      | None \<Rightarrow>
          do { sccs \<leftarrow> iter_sccs g;
               let top_sorted_nodes = concat sccs; let sccs_with_cycles = filter (\<lambda>scc. 1 < length scc) sccs;
               if sccs_with_cycles = [] then Some (Inr (rev top_sorted_nodes))
               else do { cycles \<leftarrow> all_cycles g sccs_with_cycles; Some (Inl (Cycle cycles)) } })"

section \<open>A graph with a cached order\<close>

record dag =
  dg_graph :: digraph
  dg_toposort :: "node list"
  dg_dirty :: bool

definition dag_new :: dag where
  "dag_new = \<lparr>dg_graph = digraph_new, dg_toposort = [], dg_dirty = False\<rparr>"

definition dag_from :: "digraph \<Rightarrow> dag" where
  "dag_from g = \<lparr>dg_graph = g, dg_toposort = [], dg_dirty = True\<rparr>"

text \<open>\<^verbatim>\<open>graph_mut\<close>, with what the caller does with the reference.\<close>

definition graph_mut :: "(digraph \<Rightarrow> digraph) \<Rightarrow> dag \<Rightarrow> dag" where
  "graph_mut f d = d\<lparr>dg_graph := f (dg_graph d), dg_dirty := True\<rparr>"

definition is_toposorted :: "dag \<Rightarrow> bool" where
  "is_toposorted d \<longleftrightarrow> \<not> dg_dirty d"

definition get_toposort :: "dag \<Rightarrow> node list option" where
  "get_toposort d = (if dg_dirty d then None else Some (dg_toposort d))"

definition ensure_toposorted :: "(digraph \<Rightarrow> (node \<times> node) list) \<Rightarrow> dag \<Rightarrow> ((toposort_error + unit) \<times> dag) option" where
  "ensure_toposorted all_edges d =
     (if dg_dirty d
      then (case toposort all_edges (dg_graph d) of
              None \<Rightarrow> None
            | Some (Inl e) \<Rightarrow> Some (Inl e, d\<lparr>dg_toposort := []\<rparr>)
            | Some (Inr order) \<Rightarrow> Some (Inr (), d\<lparr>dg_toposort := order, dg_dirty := False\<rparr>))
      else Some (Inr (), d))"

definition dag_toposort :: "(digraph \<Rightarrow> (node \<times> node) list) \<Rightarrow> dag \<Rightarrow> ((toposort_error + node list) \<times> dag) option" where
  "dag_toposort all_edges d =
     do { (r, d') \<leftarrow> ensure_toposorted all_edges d;
          Some (case r of Inl e \<Rightarrow> (Inl e, d') | Inr _ \<Rightarrow> (Inr (dg_toposort d'), d')) }"

definition toposort_and_graph ::
  "(digraph \<Rightarrow> (node \<times> node) list) \<Rightarrow> dag \<Rightarrow> ((toposort_error + node list \<times> digraph) \<times> dag) option" where
  "toposort_and_graph all_edges d =
     do { (r, d') \<leftarrow> ensure_toposorted all_edges d;
          Some (case r of Inl e \<Rightarrow> (Inl e, d') | Inr _ \<Rightarrow> (Inr (dg_toposort d', dg_graph d'), d')) }"

section \<open>Orders\<close>

definition topological_order :: "digraph \<Rightarrow> node list \<Rightarrow> bool" where
  "topological_order g order \<longleftrightarrow> distinct order \<and> set order = set (nodes g)
     \<and> (\<forall>i<length order. \<forall>j<length order. (order ! i, order ! j) \<in> g_edges g \<longrightarrow> i < j)"

lemma topological_acyclic:
  assumes "digraph_inv g" "topological_order g order"
  shows "acyclic (g_edges g)"
proof -
  note o = assms(2) [unfolded topological_order_def]
  have step: "disc order a < disc order b" if e: "(a, b) \<in> g_edges g" for a b
  proof -
    obtain i j where "i < length order" "order ! i = a" "j < length order" "order ! j = b"
      using o edge_nodes [OF assms(1) e] by (metis in_set_conv_nth)
    then show ?thesis
      using o e disc_nth [of order i] disc_nth [of order j] by fastforce
  qed
  have "(a, b) \<in> (g_edges g)\<^sup>+ \<Longrightarrow> disc order a < disc order b" for a b
    by (induction rule: trancl_induct) (auto dest: step)
  then show ?thesis
    by (fastforce simp: acyclic_def)
qed

lemma singletons:
  assumes "scc_order g D sccs" "filter (\<lambda>scc. 1 < length scc) sccs = []"
  shows "sccs = map (\<lambda>x. [x]) (concat sccs)"
  using assms
proof (induction sccs arbitrary: D)
  case (Cons scc sccs)
  then obtain v where "set scc = scc_class (g_edges g) v"
    by (auto simp: scc_step_def)
  then have "scc \<noteq> []"
    using class_refl [of v "g_edges g"] by auto
  moreover have "length scc \<le> 1" "filter (\<lambda>scc. 1 < length scc) sccs = []"
    using Cons(3) by (auto split: if_splits)
  ultimately obtain x where "scc = [x]"
    by (cases scc) auto
  then show ?case
    using Cons(1) [of "D \<union> set scc"] Cons(2) \<open>filter (\<lambda>scc. 1 < length scc) sccs = []\<close> by simp
qed simp

lemma singleton_order:
  assumes ord: "scc_order g {} sccs" and single: "filter (\<lambda>scc. 1 < length scc) sccs = []" and loops: "\<And>x. (x, x) \<notin> g_edges g"
  shows "topological_order g (rev (concat sccs))"
proof -
  define xs where "xs = concat sccs"
  note n = scc_order_nodes [OF ord, folded xs_def]
  have later: "y \<in> set (take k xs)" if k: "k < length xs" and e: "(xs ! k, y) \<in> g_edges g" for k y
  proof -
    have "xs = take k xs @ xs ! k # drop (Suc k) xs"
      using id_take_nth_drop [OF k] .
    then have "sccs = map (\<lambda>x. [x]) (take k xs) @ [xs ! k] # map (\<lambda>x. [x]) (drop (Suc k) xs)"
      using singletons [OF ord single] by (metis list.simps(9) map_append xs_def)
    then have "y \<in> set (concat (map (\<lambda>x. [x]) (take k xs))) \<union> {xs ! k}"
      using scc_order_edges [of g "{}" "map (\<lambda>x. [x]) (take k xs)" "[xs ! k]" "map (\<lambda>x. [x]) (drop (Suc k) xs)" "xs ! k" y] ord e
      by auto
    then show ?thesis
      using loops e by auto
  qed
  have "i < j" if ij: "i < length xs" "j < length xs" and e: "(rev xs ! i, rev xs ! j) \<in> g_edges g" for i j
  proof -
    let ?k = "length xs - 1 - i" and ?m = "length xs - 1 - j"
    have r: "rev xs ! i = xs ! ?k" "rev xs ! j = xs ! ?m"
      using ij by (simp_all add: rev_nth)
    have "xs ! ?m \<in> set (take ?k xs)"
      using later [of ?k "xs ! ?m"] e r ij by simp
    then obtain q where "q < ?k" "xs ! q = xs ! ?m"
      by (auto simp: in_set_conv_nth)
    moreover from this have "q = ?m"
      using n ij nth_eq_iff_index_eq [of xs q ?m] by simp
    ultimately show ?thesis
      using ij by simp
  qed
  then show ?thesis
    unfolding topological_order_def xs_def [symmetric] using n by auto
qed

lemma acyclic_singletons:
  assumes ord: "scc_order g {} sccs" and ac: "acyclic (g_edges g)"
  shows "filter (\<lambda>scc. 1 < length scc) sccs = []"
proof (rule ccontr)
  assume "filter (\<lambda>scc. 1 < length scc) sccs \<noteq> []"
  then obtain scc where scc: "scc \<in> set sccs" "1 < length scc"
    by (auto simp: filter_empty_conv)
  have "distinct scc"
    using scc_order_nodes [OF ord] scc(1) by (simp add: distinct_concat_iff)
  then have ne: "scc ! 0 \<noteq> scc ! 1"
    using scc(2) nth_eq_iff_index_eq [of scc 0 1] by linarith
  have m: "scc ! 0 \<in> set scc" "scc ! 1 \<in> set scc"
    using scc(2) by (auto intro: nth_mem)
  have "scc ! 1 \<in> scc_class (g_edges g) (scc ! 0)"
    using scc_order_class [OF ord scc(1) m(1)] m(2) by blast
  then have "(scc ! 0, scc ! 1) \<in> (g_edges g)\<^sup>+" "(scc ! 1, scc ! 0) \<in> (g_edges g)\<^sup>*"
    using ne by (auto simp: scc_class_def dest: rtranclD)
  then have "(scc ! 0, scc ! 0) \<in> (g_edges g)\<^sup>+"
    by (rule trancl_rtrancl_trancl)
  then show False
    using ac by (simp add: acyclic_def)
qed

context component_lister
begin

lemma sorts:
  assumes "digraph_inv g"
  shows "\<exists>sccs. list_components g = Some sccs \<and> (acyclic (g_edges g) \<longrightarrow> filter (\<lambda>scc. 1 < length scc) sccs = [])
    \<and> (filter (\<lambda>scc. 1 < length scc) sccs = [] \<longrightarrow> (\<forall>x. (x, x) \<notin> g_edges g) \<longrightarrow> topological_order g (rev (concat sccs)))"
  using lists [OF assms] acyclic_singletons singleton_order by metis

end

lemma toposort_loop:
  "toposort all_edges g = Some (Inl (Loop n)) \<Longrightarrow> (n, n) \<in> set (all_edges g)"
proof (cases "find (\<lambda>(x, y). x = y) (all_edges g)")
  case (Some p)
  moreover assume "toposort all_edges g = Some (Inl (Loop n))"
  ultimately have "fst p = n"
    by (cases p) (simp add: toposort_def)
  moreover have "p \<in> set (all_edges g)" "fst p = snd p"
    using Some unfolding find_Some_iff by (auto simp: case_prod_unfold)
  ultimately show ?thesis
    by (metis prod.collapse)
qed (auto simp: toposort_def bind_eq_Some_conv Let_def split: if_splits)

lemma toposort_ok:
  assumes inv: "digraph_inv g" and e: "set (all_edges g) = g_edges g"
  shows "acyclic (g_edges g) \<Longrightarrow> \<exists>order. toposort all_edges g = Some (Inr order)"
    "toposort all_edges g = Some (Inr order) \<Longrightarrow> topological_order g order"
    "(n, n) \<in> g_edges g \<Longrightarrow> \<exists>m. toposort all_edges g = Some (Inl (Loop m))"
proof -
  obtain sccs where s: "iter_sccs g = Some sccs" "acyclic (g_edges g) \<Longrightarrow> filter (\<lambda>scc. 1 < length scc) sccs = []"
    "filter (\<lambda>scc. 1 < length scc) sccs = [] \<Longrightarrow> \<forall>x. (x, x) \<notin> g_edges g \<Longrightarrow> topological_order g (rev (concat sccs))"
    using sc.sorts [OF inv] by blast
  have loop: "find (\<lambda>(x, y). x = y) (all_edges g) = None \<longleftrightarrow> (\<forall>x. (x, x) \<notin> g_edges g)"
    unfolding e [symmetric] by (auto simp: find_None_iff)
  have t: "toposort all_edges g = (if filter (\<lambda>scc. 1 < length scc) sccs = [] then Some (Inr (rev (concat sccs)))
      else do { cycles \<leftarrow> all_cycles g (filter (\<lambda>scc. 1 < length scc) sccs); Some (Inl (Cycle cycles)) })"
    if "\<forall>x. (x, x) \<notin> g_edges g"
    using that loop s(1) by (simp add: toposort_def Let_def)
  show "\<exists>order. toposort all_edges g = Some (Inr order)" if "acyclic (g_edges g)"
    using t s(2) that by (auto simp: acyclic_def)
  show "\<exists>m. toposort all_edges g = Some (Inl (Loop m))" if "(n, n) \<in> g_edges g"
    using that loop by (cases "find (\<lambda>(x, y). x = y) (all_edges g)") (auto simp: toposort_def split: prod.splits)
  show "topological_order g order" if o: "toposort all_edges g = Some (Inr order)"
  proof -
    have none: "\<forall>x. (x, x) \<notin> g_edges g"
      using o loop by (cases "find (\<lambda>(x, y). x = y) (all_edges g)") (auto simp: toposort_def split: prod.splits)
    then have "filter (\<lambda>scc. 1 < length scc) sccs = []" "order = rev (concat sccs)"
      using o t by (auto simp: bind_eq_Some_conv split: if_splits)
    then show ?thesis
      using s(3) none by simp
  qed
qed

text \<open>The graphs with a cached order that a caller can reach.\<close>

inductive dag_reachable :: "(digraph \<Rightarrow> (node \<times> node) list) \<Rightarrow> dag \<Rightarrow> bool" for all_edges where
  fresh: "dag_reachable all_edges dag_new"
| converted: "dag_reachable all_edges (dag_from (fold graph_op cs digraph_new))"
| mutated: "dag_reachable all_edges d \<Longrightarrow> dag_reachable all_edges (graph_mut (graph_op c) d)"
| sorted: "dag_reachable all_edges d \<Longrightarrow> ensure_toposorted all_edges d = Some (r, d') \<Longrightarrow> dag_reachable all_edges d'"

lemma dag_invariant:
  assumes "dag_reachable all_edges d" and e: "\<And>g. digraph_inv g \<Longrightarrow> set (all_edges g) = g_edges g"
  shows "digraph_inv (dg_graph d) \<and> (\<not> dg_dirty d \<longrightarrow> topological_order (dg_graph d) (dg_toposort d))"
  using assms(1)
proof induction
  case fresh
  then show ?case
    using digraph_new_ok by (simp add: dag_new_def topological_order_def)
next
  case (converted cs)
  then show ?case
    using dg.run_view [of cs] by (simp add: dag_from_def)
next
  case (mutated d c)
  then show ?case
    using graph_op_ok(1) by (simp add: graph_mut_def)
next
  case (sorted d r d')
  then show ?case
    using toposort_ok(2) [where all_edges = all_edges, OF _ e [of "dg_graph d"]] by (auto simp: ensure_toposorted_def split: if_splits option.splits sum.splits)
qed

text \<open>An iteration order for the edges: by source node, in the order of the adjacency lists.\<close>

definition listed_edges :: "digraph \<Rightarrow> (node \<times> node) list" where
  "listed_edges g = concat (map (edges g) (nodes g))"

lemma listed_edges_set: "digraph_inv g \<Longrightarrow> set (listed_edges g) = g_edges g"
proof -
  assume inv: "digraph_inv g"
  have "set (edges g a) = {(a, b) |b. (a, b) \<in> g_edges g}" for a
    using digraph_invD(3) [OF inv] by (auto simp: edges_def)
  then show ?thesis
    using edge_nodes [OF inv] by (auto simp: listed_edges_def)
qed

section \<open>Properties\<close>

text \<open>C13: the iterator over the strongly connected components of a graph ends without a panic; it yields every node in
  exactly one component, each component is the set of nodes that reach one another, and an edge leads into the same component or an
  earlier one.\<close>
theorem iter_sccs_components:
  "let g = fold graph_op cs digraph_new in
     \<exists>sccs. iter_sccs g = Some sccs \<and> distinct (concat sccs) \<and> set (concat sccs) = set (nodes g)
       \<and> (\<forall>scc\<in>set sccs. \<forall>x\<in>set scc. set scc = {y. (x, y) \<in> (g_edges g)\<^sup>* \<and> (y, x) \<in> (g_edges g)\<^sup>*})
       \<and> (\<forall>k<length sccs. \<forall>x\<in>set (sccs ! k). \<forall>y. (x, y) \<in> g_edges g \<longrightarrow> y \<in> set (concat (take (Suc k) sccs)))"
proof -
  let ?g = "fold graph_op cs digraph_new"
  have inv: "digraph_inv ?g"
    using dg.run_view [of cs] by simp
  obtain sccs where s: "iter_sccs ?g = Some sccs" "scc_order ?g {} sccs"
    by (rule sc.partition [OF inv])
  have "y \<in> set (concat (take (Suc k) sccs))" if k: "k < length sccs" and e: "x \<in> set (sccs ! k)" "(x, y) \<in> g_edges ?g" for k x y
    using scc_order_edges [of ?g "{}" "take k sccs" "sccs ! k" "drop (Suc k) sccs" x y] s(2) e k
    by (simp add: id_take_nth_drop [symmetric] take_Suc_conv_app_nth)
  then show ?thesis
    unfolding Let_def using s scc_order_nodes [OF s(2)] scc_order_class [OF s(2)] by (auto simp: scc_class_def)
qed

theorem iter_sccs_components_witness:
  "\<exists>sccs scc. iter_sccs (fold graph_op [AddEdge (Node 0 1) (Node 0 2), AddEdge (Node 0 2) (Node 0 1)] digraph_new) = Some sccs
     \<and> scc \<in> set sccs \<and> set scc = {Node 0 1, Node 0 2}"
proof -
  let ?a = "Node 0 1" and ?b = "Node 0 2"
  let ?g = "fold graph_op [AddEdge ?a ?b, AddEdge ?b ?a] digraph_new"
  have e: "g_edges ?g = {(?a, ?b), (?b, ?a)}" and n: "set (nodes ?g) = {?a, ?b}"
    using dg.run_view [of "[AddEdge ?a ?b, AddEdge ?b ?a]"] by auto
  obtain sccs where s: "iter_sccs ?g = Some sccs" "set (concat sccs) = set (nodes ?g)"
    "\<forall>scc\<in>set sccs. \<forall>x\<in>set scc. set scc = {y. (x, y) \<in> (g_edges ?g)\<^sup>* \<and> (y, x) \<in> (g_edges ?g)\<^sup>*}"
    using iter_sccs_components [of "[AddEdge ?a ?b, AddEdge ?b ?a]"] unfolding Let_def by blast
  have "?a \<in> set (concat sccs)"
    unfolding s(2) n by simp
  then obtain scc where scc: "scc \<in> set sccs" "?a \<in> set scc"
    by auto
  then have "set scc = {y. (?a, y) \<in> (g_edges ?g)\<^sup>* \<and> (y, ?a) \<in> (g_edges ?g)\<^sup>*}"
    using s(3) by blast
  moreover have "?b \<in> {y. (?a, y) \<in> (g_edges ?g)\<^sup>* \<and> (y, ?a) \<in> (g_edges ?g)\<^sup>*}"
    unfolding e by auto
  ultimately have "set scc = {?a, ?b}"
    using scc s(2) n by auto
  then show ?thesis
    using s(1) scc(1) by blast
qed

text \<open>C12: sorting a graph without a cycle ends with an order of its nodes in which every edge leads forward; a graph with
  a cycle never gets an order, and one with a loop, and only that, is refused with a node that has one.\<close>
theorem toposort_orders:
  assumes "g = fold graph_op cs digraph_new" and "set (all_edges g) = g_edges g"
  shows "(acyclic (g_edges g) \<longleftrightarrow> (\<exists>order. toposort all_edges g = Some (Inr order)))
    \<and> (\<forall>order. toposort all_edges g = Some (Inr order) \<longrightarrow> topological_order g order)
    \<and> ((\<exists>n. (n, n) \<in> g_edges g) \<longleftrightarrow> (\<exists>n. toposort all_edges g = Some (Inl (Loop n))))
    \<and> (\<forall>n. toposort all_edges g = Some (Inl (Loop n)) \<longrightarrow> (n, n) \<in> g_edges g)"
proof -
  have inv: "digraph_inv g"
    using dg.run_view [of cs] assms(1) by simp
  note t = toposort_ok [where all_edges = all_edges, OF inv assms(2)]
  have "toposort all_edges g = Some (Inl (Loop n)) \<Longrightarrow> (n, n) \<in> g_edges g" for n
    using toposort_loop [of all_edges g n] assms(2) by simp
  then show ?thesis
    using t topological_acyclic [OF inv] by blast
qed

theorem toposort_orders_witness:
  "\<exists>order. toposort listed_edges (fold graph_op [AddEdge (Node 0 1) (Node 0 2)] digraph_new) = Some (Inr order)"
proof -
  let ?g = "fold graph_op [AddEdge (Node 0 1) (Node 0 2)] digraph_new"
  have "g_edges ?g = {(Node 0 1, Node 0 2)}" "digraph_inv ?g"
    using dg.run_view [of "[AddEdge (Node 0 1) (Node 0 2)]"] by auto
  moreover from this have "acyclic (g_edges ?g)"
    by (simp add: acyclic_insert) (simp add: acyclic_def)
  ultimately show ?thesis
    using toposort_orders [where all_edges = listed_edges, OF refl listed_edges_set [of ?g]] by blast
qed

text \<open>C23: whatever is done with a graph that caches its order, an order it hands out without sorting is one of its
  graph as it is now, and asking for one sorts a graph without a cycle.\<close>
theorem dag_cache_valid:
  assumes "dag_reachable all_edges d" and "\<And>g. digraph_inv g \<Longrightarrow> set (all_edges g) = g_edges g"
  shows "(\<forall>order. get_toposort d = Some order \<longrightarrow> topological_order (dg_graph d) order)
    \<and> (acyclic (g_edges (dg_graph d)) \<longleftrightarrow> (\<exists>order d'. dag_toposort all_edges d = Some (Inr order, d')))
    \<and> (\<forall>order d'. dag_toposort all_edges d = Some (Inr order, d') \<longrightarrow>
         topological_order (dg_graph d) order \<and> dg_graph d' = dg_graph d \<and> get_toposort d' = Some order)"
proof (intro conjI allI impI)
  have inv: "digraph_inv (dg_graph d)" "\<not> dg_dirty d \<Longrightarrow> topological_order (dg_graph d) (dg_toposort d)"
    using dag_invariant [OF assms] by auto
  note t = toposort_ok [where all_edges = all_edges, OF inv(1) assms(2) [OF inv(1)]]
  show "topological_order (dg_graph d) order" if "get_toposort d = Some order" for order
    using inv(2) that by (auto simp: get_toposort_def split: if_splits)
  have r: "topological_order (dg_graph d) order \<and> dg_graph d' = dg_graph d \<and> get_toposort d' = Some order"
    if "dag_toposort all_edges d = Some (Inr order, d')" for order d'
    using that t(2) inv(2)
    by (auto simp: dag_toposort_def ensure_toposorted_def get_toposort_def bind_eq_Some_conv split: if_splits option.splits sum.splits)
  then show "topological_order (dg_graph d) order" "dg_graph d' = dg_graph d" "get_toposort d' = Some order"
    if "dag_toposort all_edges d = Some (Inr order, d')" for order d'
    using that by blast+
  show "acyclic (g_edges (dg_graph d)) \<longleftrightarrow> (\<exists>order d'. dag_toposort all_edges d = Some (Inr order, d'))"
  proof
    assume "acyclic (g_edges (dg_graph d))"
    then show "\<exists>order d'. dag_toposort all_edges d = Some (Inr order, d')"
      using t(1) by (auto simp: dag_toposort_def ensure_toposorted_def)
  qed (use r topological_acyclic [OF inv(1)] in blast)
qed

theorem dag_cache_valid_witness:
  "\<exists>order d'. dag_toposort listed_edges (graph_mut (graph_op (AddEdge (Node 0 1) (Node 0 2))) dag_new) = Some (Inr order, d')"
proof -
  let ?d = "graph_mut (graph_op (AddEdge (Node 0 1) (Node 0 2))) dag_new"
  have r: "dag_reachable listed_edges ?d"
    by (intro dag_reachable.intros)
  have "g_edges (dg_graph ?d) = {(Node 0 1, Node 0 2)}"
    using dg.run_view [of "[AddEdge (Node 0 1) (Node 0 2)]"] by (simp add: graph_mut_def dag_new_def)
  then have "acyclic (g_edges (dg_graph ?d))"
    by (simp add: acyclic_insert) (simp add: acyclic_def)
  then show ?thesis
    using dag_cache_valid [where all_edges = listed_edges, OF r listed_edges_set] by blast
qed

end
