(* ===== verification/Cycle_Listing.thy ===== *)
theory Cycle_Listing
  imports Toposort
begin

text \<open>
  What the listing of cycles does when sorting fails (\<^verbatim>\<open>simple_cycles_in_component\<close> of
  \<^verbatim>\<open>zlim-core/src/schedule/graph/toposort.rs\<close>). The search takes one more successor from its iterator whenever it only
  means to look at it, so that it leaves out cycles, and a node can be unblocked while it is on the path. The second effect makes the
  search run forever on some graphs: its stack grows by the same frames again and again.
\<close>

section \<open>Every listed path closes\<close>

definition closed_walk :: "(node \<times> node) set \<Rightarrow> node list \<Rightarrow> bool" where
  "closed_walk E p \<longleftrightarrow> p \<noteq> [] \<and> successively (\<lambda>a b. (a, b) \<in> E) p \<and> (last p, hd p) \<in> E"

definition circuit_inv :: "(node \<times> node) set \<Rightarrow> node \<Rightarrow> circuit \<Rightarrow> bool" where
  "circuit_inv E root s \<longleftrightarrow> ci_path s = rev (map fst (ci_stack s)) \<and> successively (\<lambda>a b. (a, b) \<in> E) (ci_path s)
     \<and> (ci_path s \<noteq> [] \<longrightarrow> hd (ci_path s) = root) \<and> (\<forall>(v, ws)\<in>set (ci_stack s). \<forall>w\<in>set ws. (v, w) \<in> E)
     \<and> (\<forall>c\<in>set (ci_cycles s). closed_walk E c)"

lemma leave_path_sel:
  "ci_stack (leave_path g v s) = tl (ci_stack s)" "ci_path (leave_path g v s) = butlast (ci_path s)" "ci_more (leave_path g v s) = ci_more s"
  "ci_cycles (leave_path g v s) = ci_cycles s"
  by (simp_all add: leave_path_def Let_def split: prod.split)

lemma successively_butlast: "successively P xs \<Longrightarrow> successively P (butlast xs)"
  by (metis append_butlast_last_id butlast.simps(1) successively_append_iff)

lemma end_round_inv:
  assumes inv: "circuit_inv E root s" and st: "ci_stack s = (v, xs) # fs" and ws: "set ws \<subseteq> set xs"
  shows "circuit_inv E root (end_round g v ws s)"
proof (cases ws)
  case Nil
  have p: "ci_path s = rev (map fst fs) @ [v]"
    using inv st by (simp add: circuit_inv_def)
  then have "rev (map fst fs) \<noteq> [] \<Longrightarrow> hd (rev (map fst fs)) = root"
    using inv by (auto simp: circuit_inv_def hd_append)
  then show ?thesis
    using inv st p successively_butlast [of _ "ci_path s"] Nil by (auto simp: circuit_inv_def end_round_def leave_path_sel)
next
  case (Cons w rest)
  then show ?thesis
    using inv st ws by (auto simp: circuit_inv_def end_round_def)
qed

lemma circuit_step_inv:
  assumes inv: "circuit_inv E root s" and nb: "\<And>v w. w \<in> set (neighbors g v) \<Longrightarrow> (v, w) \<in> E"
  shows "circuit_inv E root (circuit_step g root s)"
proof (cases "ci_stack s")
  case Nil
  then show ?thesis
    using inv by (simp add: circuit_step_def)
next
  case (Cons f fs)
  obtain v xs where f: "f = (v, xs)"
    by fastforce
  note st = Cons [unfolded f]
  have p: "ci_path s = rev (map fst fs) @ [v]"
    using inv st by (simp add: circuit_inv_def)
  show ?thesis
  proof (cases xs)
    case Nil
    then show ?thesis
      using end_round_inv [OF inv st, of "[]"] st by (simp add: circuit_step_def)
  next
    case xs: (Cons w ws)
    have e: "(v, w) \<in> E"
      using inv st xs by (auto simp: circuit_inv_def)
    consider (found) "w = root" | (enter) "w \<noteq> root" "w \<notin> ci_blocked s" | (skip) "w \<noteq> root" "w \<in> ci_blocked s"
      by blast
    then show ?thesis
    proof cases
      case found
      let ?s = "s\<lparr>ci_more := ci_more s \<union> set (ci_path s), ci_cycles := ci_cycles s @ [ci_path s]\<rparr>"
      have "closed_walk E (ci_path s)"
      proof -
        have "last (ci_path s) = v" "ci_path s \<noteq> []"
          using p by simp_all
        moreover from this have "hd (ci_path s) = w"
          using inv found unfolding circuit_inv_def by metis
        ultimately show ?thesis
          using inv e unfolding closed_walk_def circuit_inv_def by metis
      qed
      then have "circuit_inv E root ?s"
        using inv by (auto simp: circuit_inv_def)
      then show ?thesis
        using end_round_inv [of E root ?s v xs fs ws] st xs found by (auto simp: circuit_step_def)
    next
      case enter
      then show ?thesis
        using inv st xs p e nb [of _ w] by (auto simp: circuit_step_def circuit_inv_def successively_append_iff hd_append)
    next
      case skip
      then show ?thesis
        using end_round_inv [OF inv st, of ws] st xs by (auto simp: circuit_step_def)
    qed
  qed
qed

lemma circuits_inv:
  assumes "circuits g root s = Some r" "circuit_inv E root s" and nb: "\<And>v w. w \<in> set (neighbors g v) \<Longrightarrow> (v, w) \<in> E"
  shows "circuit_inv E root r"
proof -
  have "h = g \<Longrightarrow> circuit_inv E root' s' \<Longrightarrow> circuit_inv E root' r'" if "circuits h root' s' = Some r'" for h root' s' r'
  proof (rule circuits.raw_induct [where P = "\<lambda>h root' s' r'. h = g \<longrightarrow> circuit_inv E root' s' \<longrightarrow> circuit_inv E root' r'", OF _ that, rule_format],
      goal_cases)
    case (1 rec h root' s' r')
    then show ?case
      using circuit_step_inv [of E root' s' g] nb by (cases "ci_stack s' = []") auto
  qed
  then show ?thesis
    using assms(1,2) by blast
qed

lemma foldl_keeps: "P x \<Longrightarrow> (\<And>x a. a \<in> set as \<Longrightarrow> P x \<Longrightarrow> P (f x a)) \<Longrightarrow> P (foldl f x as)"
  by (induction "as" arbitrary: x) auto

lemma component_graph_ok:
  assumes inv: "digraph_inv g"
  shows "digraph_inv (component_graph g scc)" "g_edges (component_graph g scc) \<subseteq> g_edges g"
proof -
  let ?P = "\<lambda>h. digraph_inv h \<and> g_edges h \<subseteq> g_edges g"
  have "?P (component_graph g scc)"
    unfolding component_graph_def
  proof (intro foldl_keeps [where P = ?P])
    show "?P digraph_new"
      by (simp add: digraph_new_ok)
    show "?P (insert_node h n)" if "?P h" for h n
      using insert_node_ok [of h n] that by simp
    show "?P (if contains_node h w then insert_edge h n w else h)" if "?P h" "w \<in> set (neighbors g n)" for h n w
      using insert_edge_ok [of h n w] that neighbors_edges [OF inv, of n] by auto
  qed
  then show "digraph_inv (component_graph g scc)" "g_edges (component_graph g scc) \<subseteq> g_edges g"
    by blast+
qed

lemma cycle_loop_walks:
  assumes inv: "digraph_inv g" and "cycle_loop g sccs cycles = Some r" "\<forall>c\<in>set cycles. closed_walk (g_edges g) c"
  shows "\<forall>c\<in>set r. closed_walk (g_edges g) c"
proof -
  let ?P = "\<lambda>h (sccs :: node list list) cycles r. h = g \<longrightarrow>
    (\<forall>c\<in>set cycles. closed_walk (g_edges g) c) \<longrightarrow> (\<forall>c\<in>set r. closed_walk (g_edges g) c)"
  have "?P g sccs cycles r"
  proof (rule cycle_loop.raw_induct [where P = ?P, OF _ assms(2)], goal_cases)
    case (1 rec h sccs cycles r)
    show ?case
    proof (intro impI)
      assume h: "h = g" and cyc: "\<forall>c\<in>set cycles. closed_walk (g_edges g) c"
      show "\<forall>c\<in>set r. closed_walk (g_edges g) c"
      proof (cases sccs)
        case (Cons scc rest)
        let ?sub = "component_graph g scc"
        obtain s more where s: "circuits ?sub (last scc) (circuit_start ?sub (last scc) cycles) = Some s"
          and rest: "rec g (rev (filter (\<lambda>c. 1 < length c) more) @ rest) (ci_cycles s) = Some r"
          using 1(2) h Cons by (auto simp: bind_eq_Some_conv Let_def split: if_splits)
        have nb: "w \<in> set (neighbors ?sub v) \<Longrightarrow> (v, w) \<in> g_edges g" for v w
          using component_graph_ok [OF inv, of scc] neighbors_edges [of ?sub v] by auto
        then have "circuit_inv (g_edges g) (last scc) (circuit_start ?sub (last scc) cycles)"
          using cyc by (auto simp: circuit_inv_def circuit_start_def)
        then have "circuit_inv (g_edges g) (last scc) s"
          by (rule circuits_inv [OF s _ nb])
        then show ?thesis
          using 1(1) [OF rest] by (simp add: circuit_inv_def)
      qed (use 1(2) cyc in simp)
    qed
  qed
  then show ?thesis
    using assms(3) by blast
qed

lemma all_cycles_walks:
  "digraph_inv g \<Longrightarrow> all_cycles g sccs = Some cycles \<Longrightarrow> \<forall>c\<in>set cycles. closed_walk (g_edges g) c"
  by (induction sccs arbitrary: cycles)
    (auto simp: bind_eq_Some_conv simple_cycles_in_component_def dest!: cycle_loop_walks [where cycles = "[]"])

section \<open>Runs that do not look below a part of the stack\<close>

definition same_top :: "circuit \<Rightarrow> circuit \<Rightarrow> bool" where
  "same_top s s' \<longleftrightarrow> ci_blocked s = ci_blocked s' \<and> ci_together s = ci_together s' \<and> ci_more s = ci_more s'
     \<and> set (ci_path s) = set (ci_path s') \<and> ci_stack s \<noteq> [] \<and> ci_stack s' \<noteq> [] \<and> hd (ci_stack s) = hd (ci_stack s')"

text \<open>\<open>n\<close> nodes of the path and \<open>n + 1\<close> frames of the stack agree, and what is below has the same nodes.\<close>

definition same_above :: "nat \<Rightarrow> circuit \<Rightarrow> circuit \<Rightarrow> bool" where
  "same_above n s s' \<longleftrightarrow> ci_blocked s = ci_blocked s' \<and> ci_together s = ci_together s' \<and> ci_more s = ci_more s'
     \<and> (\<exists>b b' q. ci_path s = b @ q \<and> ci_path s' = b' @ q \<and> set b = set b' \<and> length q = n)
     \<and> (\<exists>f f' t. ci_stack s = t @ f \<and> ci_stack s' = t @ f' \<and> length t = Suc n)"

lemma same_aboveI:
  assumes "ci_blocked s = ci_blocked s'" "ci_together s = ci_together s'" "ci_more s = ci_more s'"
    and "ci_path s = b @ q" "ci_path s' = b' @ q" "set b = set b'" "length q = n"
    and "ci_stack s = t @ f" "ci_stack s' = t @ f'" "length t = Suc n"
  shows "same_above n s s'"
  unfolding same_above_def using assms by blast

lemma same_top_above: "same_top s s' \<Longrightarrow> same_above 0 s s'"
proof -
  assume t: "same_top s s'"
  then obtain x f f' where "ci_stack s = [x] @ f" "ci_stack s' = [x] @ f'"
    by (cases "ci_stack s"; cases "ci_stack s'") (auto simp: same_top_def)
  then have "\<exists>f f' t. ci_stack s = t @ f \<and> ci_stack s' = t @ f' \<and> length t = Suc 0"
    by (metis length_Cons list.size(3))
  then show ?thesis
    using t by (simp add: same_above_def same_top_def)
qed

lemma same_above_top: "same_above n s s' \<Longrightarrow> same_top s s'"
  by (auto simp: same_above_def same_top_def length_Suc_conv)

lemma same_top_trans: "same_top s s' \<Longrightarrow> same_top s' s'' \<Longrightarrow> same_top s s''"
  by (simp add: same_top_def)

lemma same_top_sym: "same_top s s' \<Longrightarrow> same_top s' s"
  by (simp add: same_top_def)

lemma leave_path_same:
  assumes "ci_blocked s = ci_blocked s'" "ci_together s = ci_together s'" "ci_more s = ci_more s'"
  shows "ci_blocked (leave_path g v s) = ci_blocked (leave_path g v s')" "ci_together (leave_path g v s) = ci_together (leave_path g v s')"
  using assms by (simp_all add: leave_path_def Let_def split: prod.split)

lemma end_round_same:
  assumes same: "same_above n s s'" and h: "n' + length (ci_stack s) = n + length (ci_stack (end_round g v xs s))"
  shows "same_above n' (end_round g v xs s) (end_round g v xs s')"
proof -
  obtain b b' q f f' fr t where eq: "ci_blocked s = ci_blocked s'" "ci_together s = ci_together s'" "ci_more s = ci_more s'"
    and p: "ci_path s = b @ q" "ci_path s' = b' @ q" "set b = set b'" "length q = n"
    and st: "ci_stack s = fr # t @ f" "ci_stack s' = fr # t @ f'" "length t = n"
    using same unfolding same_above_def length_Suc_conv by fastforce
  show ?thesis
  proof (cases xs)
    case Nil
    then have e: "end_round g v xs s = leave_path g v s" "end_round g v xs s' = leave_path g v s'"
      by (simp_all add: end_round_def)
    have n: "n = Suc n'"
      using h st(1) unfolding e by (simp add: leave_path_sel)
    then have "q \<noteq> []"
      using p(4) by auto
    then have "butlast (b @ q) = b @ butlast q" "butlast (b' @ q) = b' @ butlast q"
      by (simp_all add: butlast_append)
    then show ?thesis
      unfolding e using leave_path_same [OF eq] eq(3) p st n
      by (intro same_aboveI [of _ _ b "butlast q" b' n' t f f']) (simp_all add: leave_path_sel)
  next
    case (Cons x rest)
    then have e: "end_round g v xs s = s\<lparr>ci_stack := (v, rest) # t @ f\<rparr>" "end_round g v xs s' = s'\<lparr>ci_stack := (v, rest) # t @ f'\<rparr>"
      using st by (simp_all add: end_round_def)
    then have "n' = n"
      using h st(1) by simp
    then show ?thesis
      unfolding e using eq p st(3) by (intro same_aboveI [of _ _ b q b' n' "(v, rest) # t" f f']) simp_all
  qed
qed

lemma circuit_step_same:
  assumes same: "same_above n s s'" and h: "n' + length (ci_stack s) = n + length (ci_stack (circuit_step g root s))"
  shows "same_above n' (circuit_step g root s) (circuit_step g root s')"
proof -
  obtain b b' q f f' v ws t where eq: "ci_blocked s = ci_blocked s'" "ci_together s = ci_together s'" "ci_more s = ci_more s'"
    and p: "ci_path s = b @ q" "ci_path s' = b' @ q" "set b = set b'" "length q = n"
    and st: "ci_stack s = (v, ws) # t @ f" "ci_stack s' = (v, ws) # t @ f'" "length t = n"
    using same unfolding same_above_def length_Suc_conv by fastforce
  show ?thesis
  proof (cases ws)
    case Nil
    then have "circuit_step g root s = end_round g v [] s" "circuit_step g root s' = end_round g v [] s'"
      using st by (simp_all add: circuit_step_def)
    then show ?thesis
      using end_round_same [OF same] h by simp
  next
    case (Cons w ws')
    consider (found) "w = root" | (enter) "w \<noteq> root" "w \<notin> ci_blocked s" | (skip) "w \<noteq> root" "w \<in> ci_blocked s"
      by blast
    then show ?thesis
    proof cases
      case found
      let ?u = "\<lambda>s. s\<lparr>ci_more := ci_more s \<union> set (ci_path s), ci_cycles := ci_cycles s @ [ci_path s]\<rparr>"
      have "circuit_step g root s = end_round g v ws' (?u s)" "circuit_step g root s' = end_round g v ws' (?u s')"
        using st Cons found by (simp_all add: circuit_step_def)
      moreover have "same_above n (?u s) (?u s')"
        using same p by (auto simp: same_above_def)
      ultimately show ?thesis
        using end_round_same [of n "?u s" "?u s'"] h by simp
    next
      case skip
      then have "circuit_step g root s = end_round g v ws' s" "circuit_step g root s' = end_round g v ws' s'"
        using st Cons eq(1) by (simp_all add: circuit_step_def)
      then show ?thesis
        using end_round_same [OF same] h by simp
    next
      case enter
      let ?u = "\<lambda>s f. s\<lparr>ci_more := ci_more s - {w}, ci_path := ci_path s @ [w], ci_blocked := insert w (ci_blocked s),
                 ci_stack := (w, neighbors g w) # (v, ws') # t @ f\<rparr>"
      have e: "circuit_step g root s = ?u s f" "circuit_step g root s' = ?u s' f'"
        using st Cons enter eq(1) by (simp_all add: circuit_step_def)
      then have n: "n' = Suc n"
        using h st(1) by simp
      show ?thesis
        unfolding e using eq p st(3) n
        by (intro same_aboveI [of _ _ b "q @ [w]" b' n' "(w, neighbors g w) # (v, ws') # t" f f']) simp_all
    qed
  qed
qed

section \<open>A search that repeats itself\<close>

fun stays_above :: "digraph \<Rightarrow> node \<Rightarrow> nat \<Rightarrow> nat \<Rightarrow> circuit \<Rightarrow> bool" where
  "stays_above g root h 0 s \<longleftrightarrow> h \<le> length (ci_stack s)"
| "stays_above g root h (Suc k) s \<longleftrightarrow> h \<le> length (ci_stack s) \<and> stays_above g root h k (circuit_step g root s)"

lemma stays_same:
  assumes "stays_above g root h k s" "same_above (length (ci_stack s) - h) s s'" "j \<le> k"
  shows "same_top ((circuit_step g root ^^ j) s) ((circuit_step g root ^^ j) s')"
  using assms
proof (induction j arbitrary: s s' k)
  case 0
  then show ?case
    using same_above_top by simp
next
  case (Suc j)
  then obtain m where m: "k = Suc m" "stays_above g root h m (circuit_step g root s)"
    by (cases k) auto
  have h: "h \<le> length (ci_stack s)" "h \<le> length (ci_stack (circuit_step g root s))"
    using Suc(2) m by (cases m; simp)+
  then have "same_above (length (ci_stack (circuit_step g root s)) - h) (circuit_step g root s) (circuit_step g root s')"
    by (intro circuit_step_same [OF Suc(3)]) simp
  then show ?case
    using Suc(1) [OF m(2)] Suc(4) m(1) by (simp add: funpow_swap1)
qed

lemma repeats_forever:
  assumes rep: "stays_above g root (length (ci_stack s)) p s" "same_top ((circuit_step g root ^^ p) s) s" "0 < p"
  shows "same_top s s' \<Longrightarrow> ci_stack ((circuit_step g root ^^ k) s') \<noteq> []"
proof (induction k arbitrary: s' rule: less_induct)
  case (less k)
  note same = stays_same [OF rep(1), of s'] same_top_above [OF less(2)]
  show ?case
  proof (cases "k \<le> p")
    case True
    then show ?thesis
      using same(1) [OF _ True] same(2) by (simp add: same_top_def)
  next
    case False
    have "same_top s ((circuit_step g root ^^ p) s')"
      using same(1) [of p] same(2) same_top_trans [OF same_top_sym [OF rep(2)]] by simp
    then have "ci_stack ((circuit_step g root ^^ (k - p)) ((circuit_step g root ^^ p) s')) \<noteq> []"
      using False rep(3) by (intro less(1)) simp_all
    then show ?thesis
      using False by (simp add: funpow_add [of "k - p" p, simplified, THEN fun_cong, unfolded o_apply, symmetric])
  qed
qed

lemma circuits_returns:
  assumes "circuits g root s = Some r"
  shows "\<exists>k. ci_stack ((circuit_step g root ^^ k) s) = []"
proof (rule circuits.raw_induct [where P = "\<lambda>g root s r. \<exists>k. ci_stack ((circuit_step g root ^^ k) s) = []", OF _ assms], goal_cases)
  case (1 rec g root s r)
  show ?case
  proof (cases "ci_stack s = []")
    case True
    then have "ci_stack ((circuit_step g root ^^ 0) s) = []"
      by simp
    then show ?thesis
      by blast
  next
    case False
    then obtain k where "ci_stack ((circuit_step g root ^^ k) (circuit_step g root s)) = []"
      using 1(1) [of g root "circuit_step g root s" r] 1(2) by auto
    then have "ci_stack ((circuit_step g root ^^ Suc k) s) = []"
      by (simp add: funpow_swap1)
    then show ?thesis
      by blast
  qed
qed

section \<open>Five nodes on which the search does not end\<close>

definition hang_graph :: digraph where
  "hang_graph = fold graph_op
     (map (\<lambda>(a, b). AddEdge (Node 0 a) (Node 0 b))
       [(1, 2), (2, 4), (0, 4), (3, 4), (4, 2), (1, 3), (4, 0), (2, 3), (0, 2), (0, 3), (3, 0), (2, 1)]) digraph_new"

lemmas graph_eval = nodes_def neighbors_def links_of_def insert_edge_def insert_node_def digraph_new_def contains_node_def Let_def
lemmas scc_eval = drain_sccs.simps search.simps next_scc_def cleanup_def new_tarjan_scc_def slot_index_def to_index_def visit_once_def
  assign_root_def take_pending_def leave_node_def set_data_def take_over_def

text \<open>A step of an evaluated state.\<close>

lemma leave_path_eval:
  "leave_path g v \<lparr>ci_path = p, ci_blocked = b, ci_together = tg, ci_more = m, ci_stack = st, ci_cycles = c\<rparr> =
     (if v \<in> m then (case unblock [v] b tg of (b', tg') \<Rightarrow>
        \<lparr>ci_path = butlast p, ci_blocked = b', ci_together = tg', ci_more = m, ci_stack = tl st, ci_cycles = c\<rparr>)
      else \<lparr>ci_path = butlast p, ci_blocked = b,
        ci_together = foldl (\<lambda>tg w. if v \<in> set (tg w) then tg else tg(w := tg w @ [v])) tg (neighbors g v),
        ci_more = m, ci_stack = tl st, ci_cycles = c\<rparr>)"
  by (simp add: leave_path_def Let_def split: prod.split)

lemma circuit_step_eval:
  "circuit_step g root \<lparr>ci_path = p, ci_blocked = b, ci_together = tg, ci_more = m, ci_stack = (v, []) # fs, ci_cycles = c\<rparr> =
     leave_path g v \<lparr>ci_path = p, ci_blocked = b, ci_together = tg, ci_more = m, ci_stack = (v, []) # fs, ci_cycles = c\<rparr>"
  "circuit_step g root \<lparr>ci_path = p, ci_blocked = b, ci_together = tg, ci_more = m, ci_stack = (v, w # ws) # fs, ci_cycles = c\<rparr> =
     (if w = root
      then end_round g v ws
        \<lparr>ci_path = p, ci_blocked = b, ci_together = tg, ci_more = m \<union> set p, ci_stack = (v, w # ws) # fs, ci_cycles = c @ [p]\<rparr>
      else if w \<in> b
      then end_round g v ws \<lparr>ci_path = p, ci_blocked = b, ci_together = tg, ci_more = m, ci_stack = (v, w # ws) # fs, ci_cycles = c\<rparr>
      else \<lparr>ci_path = p @ [w], ci_blocked = insert w b, ci_together = tg, ci_more = m - {w},
        ci_stack = (w, neighbors g w) # (v, ws) # fs, ci_cycles = c\<rparr>)"
  by (simp_all add: circuit_step_def end_round_def)

lemma run_numeral:
  "(f ^^ numeral k) x = (f ^^ pred_numeral k) (f x)"
  "stays_above g root h (numeral k) s \<longleftrightarrow> h \<le> length (ci_stack s) \<and> stays_above g root h (pred_numeral k) (circuit_step g root s)"
  by (simp_all add: numeral_eq_Suc funpow_swap1)

lemmas circuit_eval = run_numeral circuit_step_eval leave_path_eval end_round_def circuit_start_def insert_Diff_if

lemma hang_nodes: "g_nodes hang_graph =
   [(Node 0 1, [(Node 0 2, Outgoing), (Node 0 3, Outgoing), (Node 0 2, Incoming)]),
    (Node 0 2, [(Node 0 1, Incoming), (Node 0 4, Outgoing), (Node 0 4, Incoming), (Node 0 3, Outgoing), (Node 0 0, Incoming), (Node 0 1, Outgoing)]),
    (Node 0 4, [(Node 0 2, Incoming), (Node 0 0, Incoming), (Node 0 3, Incoming), (Node 0 2, Outgoing), (Node 0 0, Outgoing)]),
    (Node 0 0, [(Node 0 4, Outgoing), (Node 0 4, Incoming), (Node 0 2, Outgoing), (Node 0 3, Outgoing), (Node 0 3, Incoming)]),
    (Node 0 3, [(Node 0 4, Outgoing), (Node 0 1, Incoming), (Node 0 2, Incoming), (Node 0 0, Incoming), (Node 0 0, Outgoing)])]"
  by (simp add: hang_graph_def graph_op_def graph_eval)

lemma hang_sccs: "iter_sccs hang_graph = Some [[Node 0 3, Node 0 0, Node 0 4, Node 0 2, Node 0 1]]"
  unfolding iter_sccs_def by (simp add: hang_nodes scc_eval graph_eval)

definition hang_sub :: digraph where
  "hang_sub = component_graph hang_graph [Node 0 3, Node 0 0, Node 0 4, Node 0 2, Node 0 1]"

lemma hang_sub_neighbors [simp]:
  "neighbors hang_sub (Node 0 1) = [Node 0 2, Node 0 3]"
  "neighbors hang_sub (Node 0 2) = [Node 0 4, Node 0 3, Node 0 1]"
  "neighbors hang_sub (Node 0 4) = [Node 0 2, Node 0 0]"
  "neighbors hang_sub (Node 0 0) = [Node 0 4, Node 0 2, Node 0 3]"
  "neighbors hang_sub (Node 0 3) = [Node 0 4, Node 0 0]"
  by (simp_all add: hang_sub_def component_graph_def hang_nodes graph_eval)

definition hang_state :: circuit where
  "hang_state = (circuit_step hang_sub (Node 0 1) ^^ 18) (circuit_start hang_sub (Node 0 1) [])"

lemma hang_state_eq: "hang_state =
   \<lparr>ci_path = [Node 0 1, Node 0 3, Node 0 0], ci_blocked = {Node 0 1, Node 0 0}, ci_together = (\<lambda>_. [])(Node 0 2 := [Node 0 0]),
    ci_more = {Node 0 1, Node 0 2, Node 0 3, Node 0 4},
    ci_stack = [(Node 0 0, [Node 0 4, Node 0 2, Node 0 3]), (Node 0 3, []), (Node 0 1, [])],
    ci_cycles = [[Node 0 1, Node 0 2], [Node 0 1, Node 0 3, Node 0 4, Node 0 2]]\<rparr>"
  unfolding hang_state_def by (simp add: circuit_eval) (auto simp: fun_eq_iff)

lemma hang_again: "stays_above hang_sub (Node 0 1) 3 29 hang_state"
  unfolding hang_state_eq by (simp add: circuit_eval)

lemma hang_same: "same_top ((circuit_step hang_sub (Node 0 1) ^^ 29) hang_state) hang_state"
proof -
  have "\<exists>c. (circuit_step hang_sub (Node 0 1) ^^ 29) hang_state =
    hang_state\<lparr>ci_path := [Node 0 1, Node 0 3, Node 0 0, Node 0 3, Node 0 0],
      ci_stack := [(Node 0 0, [Node 0 4, Node 0 2, Node 0 3]), (Node 0 3, []), (Node 0 0, []), (Node 0 3, []), (Node 0 1, [])], ci_cycles := c\<rparr>"
    unfolding hang_state_eq by (simp add: circuit_eval) (auto simp: fun_eq_iff)
  then show ?thesis
    by (auto simp: same_top_def hang_state_eq)
qed

lemma hang_forever: "ci_stack ((circuit_step hang_sub (Node 0 1) ^^ k) (circuit_start hang_sub (Node 0 1) [])) \<noteq> []"
proof (cases "18 \<le> k")
  case True
  have "same_top hang_state hang_state" "length (ci_stack hang_state) = 3"
    by (simp_all add: hang_state_eq same_top_def)
  then have "ci_stack ((circuit_step hang_sub (Node 0 1) ^^ (k - 18)) hang_state) \<noteq> []"
    using repeats_forever [OF _ hang_same, of hang_state "k - 18"] hang_again by simp
  then show ?thesis
    using True by (simp add: hang_state_def funpow_add [of "k - 18" 18, simplified, THEN fun_cong, unfolded o_apply, symmetric])
next
  case False
  have stop: "ci_stack s = [] \<Longrightarrow> ci_stack ((circuit_step hang_sub (Node 0 1) ^^ j) s) = []" for j s
    by (induction j arbitrary: s) (simp_all add: funpow_swap1 circuit_step_def)
  have "(circuit_step hang_sub (Node 0 1) ^^ (18 - k)) ((circuit_step hang_sub (Node 0 1) ^^ k) (circuit_start hang_sub (Node 0 1) [])) = hang_state"
    using False by (simp add: hang_state_def funpow_add [of "18 - k" k, simplified, THEN fun_cong, unfolded o_apply, symmetric])
  then show ?thesis
    using stop [of _ "18 - k"] by (metis hang_state_eq circuit.select_convs(5) list.distinct(1))
qed

lemma hang_circuits: "circuits hang_sub (Node 0 1) (circuit_start hang_sub (Node 0 1) []) = None"
  using circuits_returns [of hang_sub "Node 0 1" "circuit_start hang_sub (Node 0 1) []"] hang_forever
  by (cases "circuits hang_sub (Node 0 1) (circuit_start hang_sub (Node 0 1) [])") auto

section \<open>Three nodes with a cycle that is left out\<close>

definition missed_graph :: digraph where
  "missed_graph = fold graph_op
     (map (\<lambda>(a, b). AddEdge (Node 0 a) (Node 0 b)) [(0, 2), (2, 1), (1, 2), (1, 0)]) digraph_new"

lemma missed_graph_eq: "missed_graph =
   \<lparr>g_nodes = [(Node 0 0, [(Node 0 2, Outgoing), (Node 0 1, Incoming)]),
      (Node 0 2, [(Node 0 0, Incoming), (Node 0 1, Outgoing), (Node 0 1, Incoming)]),
      (Node 0 1, [(Node 0 2, Incoming), (Node 0 2, Outgoing), (Node 0 0, Outgoing)])],
    g_edges = {(Node 0 0, Node 0 2), (Node 0 2, Node 0 1), (Node 0 1, Node 0 2), (Node 0 1, Node 0 0)}\<rparr>"
  by (auto simp: missed_graph_def graph_op_def graph_eval)

lemma missed_cycles: "simple_cycles_in_component missed_graph [Node 0 1, Node 0 2, Node 0 0] = Some [[Node 0 1, Node 0 2]]"
  unfolding simple_cycles_in_component_def missed_graph_eq
  by (simp add: cycle_loop.simps circuits.simps component_graph_def graph_eval circuit_eval remove_node_def remove_link_def
      swap_remove_def iter_sccs_def scc_eval)

lemma built_graph: "digraph_inv hang_graph" "digraph_inv missed_graph"
  unfolding hang_graph_def missed_graph_def using dg.run_view by blast+

section \<open>Properties\<close>

text \<open>C34: every list of nodes that sorting reports as a cycle is a closed walk of the graph.\<close>
theorem reported_cycles_close:
  assumes "g = fold graph_op cs digraph_new" and "toposort all_edges g = Some (Inl (Cycle cycles))" and "c \<in> set cycles"
  shows "closed_walk (g_edges g) c"
proof -
  have "digraph_inv g"
    using dg.run_view [of cs] assms(1) by simp
  moreover obtain sccs where "all_cycles g sccs = Some cycles"
    using assms(2) by (auto simp: toposort_def bind_eq_Some_conv Let_def split: option.splits prod.splits if_splits)
  ultimately show ?thesis
    using all_cycles_walks assms(3) by blast
qed

lemma missed_sort: "toposort all_edges missed_graph = Some (Inl (Cycle [[Node 0 1, Node 0 2]]))"
  if "set (all_edges missed_graph) = g_edges missed_graph"
proof -
  have "find (\<lambda>(x, y). x = y) (all_edges missed_graph) = None"
    using that by (auto simp: find_None_iff missed_graph_eq)
  moreover have "iter_sccs missed_graph = Some [[Node 0 1, Node 0 2, Node 0 0]]"
    unfolding iter_sccs_def missed_graph_eq by (simp add: scc_eval graph_eval)
  ultimately show ?thesis
    using missed_cycles by (simp add: toposort_def)
qed

theorem reported_cycles_close_witness:
  "closed_walk (g_edges missed_graph) [Node 0 1, Node 0 2]"
proof -
  have "toposort listed_edges missed_graph = Some (Inl (Cycle [[Node 0 1, Node 0 2]]))"
    by (intro missed_sort listed_edges_set built_graph)
  then show ?thesis
    by (rule reported_cycles_close [OF missed_graph_def]) simp
qed

text \<open>C24: the list of cycles is not always there: on one graph of five nodes the search for cycles runs forever, and on one of three nodes
  sorting reports one of the two elementary cycles.\<close>
theorem cycle_listing_gaps:
  assumes "\<And>g. digraph_inv g \<Longrightarrow> set (all_edges g) = g_edges g"
  shows "(\<forall>k. ci_stack ((circuit_step hang_sub (Node 0 1) ^^ k) (circuit_start hang_sub (Node 0 1) [])) \<noteq> [])
    \<and> toposort all_edges hang_graph = None
    \<and> toposort all_edges missed_graph = Some (Inl (Cycle [[Node 0 1, Node 0 2]]))
    \<and> closed_walk (g_edges missed_graph) [Node 0 0, Node 0 2, Node 0 1]"
proof (intro conjI allI)
  have h: "set (listed_edges hang_graph) = g_edges hang_graph"
    using built_graph by (intro listed_edges_set)
  have "find (\<lambda>(x, y). x = y) (all_edges hang_graph) = None"
    unfolding find_None_iff assms [OF built_graph(1)] h [symmetric]
    by (auto simp: listed_edges_def edges_def hang_nodes graph_eval)
  moreover have "simple_cycles_in_component hang_graph [Node 0 3, Node 0 0, Node 0 4, Node 0 2, Node 0 1] = None"
    using hang_circuits by (simp add: simple_cycles_in_component_def cycle_loop.simps hang_sub_def)
  ultimately show "toposort all_edges hang_graph = None"
    using hang_sccs by (simp add: toposort_def)
  show "toposort all_edges missed_graph = Some (Inl (Cycle [[Node 0 1, Node 0 2]]))"
    by (intro missed_sort assms built_graph)
  show "closed_walk (g_edges missed_graph) [Node 0 0, Node 0 2, Node 0 1]"
    by (simp add: closed_walk_def missed_graph_eq)
qed (rule hang_forever)

theorem cycle_listing_gaps_witness: "toposort listed_edges hang_graph = None"
  using cycle_listing_gaps [where all_edges = listed_edges, OF listed_edges_set] by blast

end
