(* ===== verification/Spec2Isabelle.thy ===== *)
theory Spec2Isabelle
  imports Allocator_Concurrency Entity_Forest Access_Table Message_Queue World_Despawn Cycle_Listing
begin

text \<open>
  \<^bold>\<open>A verification of the core of the zlim engine\<close>

  zlim is an entity component system and the engine crates around it. The development models the part
  every other part rests on, \<^verbatim>\<open>src/crates/zlim-core\<close>: the identifiers of entities and their allocator,
  the tree the entities form, the tables that store their components, the ticks that record changes,
  the queries that visit the rows, and the access tables by which the scheduler decides what may run
  in parallel, the message queues, and the operations of the world that spawn and despawn entities. It also models the parallel slice operations of \<^verbatim>\<open>src/crates/zlim-task\<close> the core calls.

  \<^bold>\<open>How the parts interact.\<close> The allocator (\<^verbatim>\<open>entity/allocator.rs\<close>) hands out identifiers made of an
  index and a generation. An identifier is entered into the tree (\<^verbatim>\<open>entity/entities.rs\<close>) with the table
  and the row that hold its components; leaving the tree advances the generation of the slot and
  gives the identifier back. Tables (\<^verbatim>\<open>table/\<close>) keep one column per component and one row per entity;
  a deleted row is filled with the last one. Columns carry the ticks (\<^verbatim>\<open>tick.rs\<close>) at which items were
  added and changed, and the filters \<^verbatim>\<open>Changed\<close> and \<^verbatim>\<open>Added\<close> compare them with the last run of a system.
  A query (\<^verbatim>\<open>query/\<close>) turns its filter into descriptors, selects the tables that match one of them,
  and iterates over their rows. Its descriptors and the components it touches go into the access
  table (\<^verbatim>\<open>system/access/\<close>) of the system, and two systems run in parallel when their tables agree.
  The world (\<^verbatim>\<open>ops/world/\<close>) composes these parts: to spawn a bundle it looks up the table of its component set
  (\<^verbatim>\<open>table/tables.rs\<close>, \<^verbatim>\<open>bundle/info.rs\<close>), takes an id, appends a row, writes the components through a
  \<^verbatim>\<open>ComponentWriter\<close> (\<^verbatim>\<open>component/writer.rs\<close>) and enters the node into the tree, under a guard that undoes the row on
  a panic; to despawn an entity it runs the hooks over the subtree and takes the collected entities out one by
  one. Systems exchange messages through double-buffered queues (\<^verbatim>\<open>message/\<close>). A schedule (\<^verbatim>\<open>schedule/graph/\<close>) keeps its
  jobs in a directed graph and sorts it topologically before it runs them.

  \<^bold>\<open>Theories.\<close>

  \<^item> \<^verbatim>\<open>Zlim_Prelude\<close>: the integer types, results with panics (\<open>Ok\<close>, \<open>Err\<close>, \<open>Panic\<close>), checked and saturating
    arithmetic, and the list lemmas the components share.

  \<^item> \<^verbatim>\<open>Entity_Id\<close> (\<^verbatim>\<open>entity/id.rs\<close>): the packing of index and generation into 64 bits, generations that wrap
    and skip no value but the one the code skips, ordering, printing and parsing.

  \<^item> \<^verbatim>\<open>Free_Buffer\<close>, \<^verbatim>\<open>Free_List\<close>, \<^verbatim>\<open>Entity_Allocator\<close>, \<^verbatim>\<open>Allocator_Concurrency\<close> (\<^verbatim>\<open>entity/allocator.rs\<close>): the chunked
    buffer behaves as an array, the packed counter has the fields it documents, the free list is a stack,
    the allocator never hands an identifier out twice, and the lock-free protocol between the owner and the
    remote allocators, as an interleaving of atomic steps, keeps that promise.

  \<^item> \<^verbatim>\<open>Slice_Search\<close> (\<^verbatim>\<open>zlim-task/src/slice.rs\<close>, \<^verbatim>\<open>utils/helper.rs\<close>): the parallel operations equal the sequential ones.

  \<^item> \<^verbatim>\<open>Entity_Tree\<close>, \<^verbatim>\<open>Entity_Forest\<close> (\<^verbatim>\<open>entity/entities.rs\<close>): every operation keeps the nodes a forest, refines the
    operations of an abstract forest, decides cycles correctly, never lets a stale handle come back, and
    meets the assertions written in the code.

  \<^item> \<^verbatim>\<open>Change_Tick\<close> (\<^verbatim>\<open>tick.rs\<close>, \<^verbatim>\<open>world/mod.rs\<close>): 32-bit ticks that wrap, clamped often enough that every comparison a
    system makes is the one of the unbounded counter, up to the documented age.

  \<^item> \<^verbatim>\<open>Column_Store\<close>, \<^verbatim>\<open>Table_Store\<close>, \<^verbatim>\<open>Change_Filter\<close> (\<^verbatim>\<open>table/\<close>, \<^verbatim>\<open>query/filter/changed.rs\<close>): rows under allocation, deletion,
    migration, growth and shrinking; what the change summary of a column may skip.

  \<^item> \<^verbatim>\<open>Query_Filter\<close>, \<^verbatim>\<open>Query_Engine\<close>, \<^verbatim>\<open>Query_Rows\<close> (\<^verbatim>\<open>query/\<close>, \<^verbatim>\<open>system/access/filter.rs\<close>): the descriptors a filter registers
    are its disjunctive normal form, and iteration delivers exactly the rows that satisfy the query.

  \<^item> \<^verbatim>\<open>Component_Access\<close>, \<^verbatim>\<open>Access_Table\<close> (\<^verbatim>\<open>system/access/\<close>): the parallel test is exact, accepted parameters do
    not overlap, and queries of parallelizable systems have no data race.

  \<^item> \<^verbatim>\<open>Message_Queue\<close> (\<^verbatim>\<open>message/queue.rs\<close>, \<^verbatim>\<open>iterators.rs\<close>): a queue is a history with a window of two rotations; readers
    receive every message once, except in the case where the code skips the newer half.

  \<^item> \<^verbatim>\<open>Component_Writer\<close> (\<^verbatim>\<open>component/writer.rs\<close>): a bundle fills its row; the last explicit value wins over the
    required ones, and overwritten values are dropped once.

  \<^item> \<^verbatim>\<open>Table_Registry\<close> (\<^verbatim>\<open>table/tables.rs\<close>, \<^verbatim>\<open>bundle/info.rs\<close>, \<^verbatim>\<open>component/collector.rs\<close>): the caches lead to the table of the right
    component set, whichever path an entity takes.

  \<^item> \<^verbatim>\<open>World_Ops\<close>, \<^verbatim>\<open>World_Lifecycle\<close>, \<^verbatim>\<open>World_Spawn\<close>, \<^verbatim>\<open>World_Despawn\<close> (\<^verbatim>\<open>ops/world/\<close>, \<^verbatim>\<open>utils/forgetter.rs\<close>): the operations, the invariant
    that ties the allocator, the tree and the tables together, and what spawning and despawning do to the
    observable world: live entities with their parents, components, values and ticks.

  \<^item> \<^verbatim>\<open>Schedule_Graph\<close> (\<^verbatim>\<open>schedule/graph/node.rs\<close>, \<^verbatim>\<open>graphs.rs\<close>): whatever operations built it, the graph is the relation
    they describe, with exact adjacency lists.

  \<^item> \<^verbatim>\<open>Graph_Scc\<close>, \<^verbatim>\<open>Scc_Invariant\<close>, \<^verbatim>\<open>Scc_Correct\<close> (\<^verbatim>\<open>schedule/graph/scc.rs\<close>): the resumable search for strongly connected
    components; its invariant over functions, and that the arrays and stacks of the code keep it; it yields every
    component once, after those it leads to.

  \<^item> \<^verbatim>\<open>Toposort\<close>, \<^verbatim>\<open>Cycle_Listing\<close> (\<^verbatim>\<open>schedule/graph/toposort.rs\<close>, \<^verbatim>\<open>dag.rs\<close>): sorting succeeds on exactly the graphs without a cycle,
    with an order that follows the edges, and a cached order is one of the current graph. When it fails, what it
    reports are closed walks of the graph, but it leaves cycles out, and on one graph of five nodes it runs forever.

  \<^bold>\<open>Conventions.\<close> Structs are records, enums are datatypes, and a method is the definition of its name with
  the receiver as an argument and, where it mutates, in the result. \<^verbatim>\<open>u32\<close>, \<^verbatim>\<open>u64\<close> and \<^verbatim>\<open>usize\<close> are words where
  overflow matters and natural numbers where they index a list. A panic is the value \<open>Panic\<close>, a null pointer
  or a read out of bounds is \<open>None\<close>. Drop glue is recorded in a log of dropped items.

  \<^bold>\<open>Parameters.\<close> Code that is not part of the repository is an argument of the definitions that use it,
  with its documented laws as hypotheses or locale assumptions: the bit set of the crate \<^verbatim>\<open>fixedbitset\<close>
  (\<open>bitset_ops\<close>), hash functions and the iteration order of hash sets, the capacity policy of \<^verbatim>\<open>Vec\<close>, and the
  number of threads of the pool. The user code that runs inside the world, component hooks and queued commands, is the
  record \<open>user_code\<close>: hooks are taken to keep the shape of the world (\<open>hooks_keep_shape\<close>), which is what the handle
  they are given allows, and the flush of the command queue appears in the results as it is called.

  \<^bold>\<open>Fuel.\<close> The walk to the root of an entity tree, the iterators driven to their end and the loops over
  chunks take fuel. Lemmas show how much is enough: the number of nodes, the number of remaining items, the
  number of chunks; the properties state results that are reached with it. The traversal of a despawned subtree
  has one more unit of fuel than there are nodes, which bounds its depth because the tree is acyclic. The search
  for components is total, by a measure of the work left; the listing of cycles, which need not end, is a partial function whose
  value \<open>None\<close> stands for not returning.

  \<^bold>\<open>Not modelled.\<close> Input and output, thread pools, reflection, generated code and floating-point geometry. Of the
  core itself: batch spawning, insertion and removal of components on a live entity, resources, the
  construction of schedules and the executors, and the clocks.
\<close>

end
